(* ===== verification/Whip_Prelude.thy ===== *)
theory Whip_Prelude
  imports Main "HOL-Library.Char_ord" "HOL-Library.List_Lexorder" "HOL-Library.Product_Lexorder"
    "HOL-Library.Sublist"
begin

text \<open>
  Shared vocabulary of the development: Rust results as sums, formatted messages, the operations
  of \<^verbatim>\<open>str\<close> the modelled sources use, and the generic lemmas the component theories rest on.

  A Rust \<^verbatim>\<open>str\<close> is a sequence of UTF-8 bytes and is modelled by \<open>string\<close>, whose characters
  are bytes; \<^verbatim>\<open>Ord for str\<close> compares bytes, which is the lexicographic order of
  \<open>HOL-Library.List_Lexorder\<close> over \<open>HOL-Library.Char_ord\<close>.
\<close>

named_theorems str_simps \<open>executable facts on the string operations\<close>
named_theorems res_simps \<open>case analysis of results\<close>

section \<open>Results and messages\<close>

text \<open>\<^verbatim>\<open>Result<T, E>\<close> is \<open>'e + 'a\<close>, with the error on the left.\<close>

type_synonym ('a, 'e) result = "'e + 'a"

abbreviation Ok :: "'a \<Rightarrow> ('a, 'e) result" where
  "Ok \<equiv> Inr"

abbreviation Err :: "'e \<Rightarrow> ('a, 'e) result" where
  "Err \<equiv> Inl"

text \<open>The \<^verbatim>\<open>?\<close> operator: stop at the first error, otherwise go on with the value.\<close>

fun and_then :: "('a, 'e) result \<Rightarrow> ('a \<Rightarrow> ('b, 'e) result) \<Rightarrow> ('b, 'e) result" where
  "and_then (Inl e) f = Inl e"
| "and_then (Inr a) f = f a"

text \<open>
  A message built by \<^verbatim>\<open>format!\<close> is kept as its template and its arguments (what
  \<^verbatim>\<open>format_args!\<close> captures); rendering it to text is not modelled. No modelled code reads a
  rendered message back.
\<close>

datatype message = Format string "string list"

section \<open>Decimal numbers\<close>

text \<open>\<^verbatim>\<open>Display\<close> of an integer, and \<^verbatim>\<open>str::parse\<close> of its digits.\<close>

definition digit_char :: "nat \<Rightarrow> char" where
  "digit_char d = char_of (48 + d)"

fun show_nat :: "nat \<Rightarrow> string" where
  "show_nat n = (if n < 10 then [digit_char n] else show_nat (n div 10) @ [digit_char (n mod 10)])"

declare show_nat.simps [simp del]

definition show_int :: "int \<Rightarrow> string" where
  "show_int i = (if i < 0 then CHR ''-'' # show_nat (nat (- i)) else show_nat (nat i))"

definition digit_value :: "char \<Rightarrow> nat option" where
  "digit_value c = (let n = of_char c in if 48 \<le> n \<and> n \<le> 57 then Some (n - 48) else None)"

fun digits_value :: "nat \<Rightarrow> string \<Rightarrow> nat option" where
  "digits_value acc [] = Some acc"
| "digits_value acc (c # s) =
     (case digit_value c of None \<Rightarrow> None | Some d \<Rightarrow> digits_value (10 * acc + d) s)"

definition i64_min :: int where
  "i64_min = - (2 ^ 63)"

definition i64_max :: int where
  "i64_max = 2 ^ 63 - 1"

definition in_i64 :: "int \<Rightarrow> bool" where
  "in_i64 i \<longleftrightarrow> i64_min \<le> i \<and> i \<le> i64_max"

text \<open>Two's complement reduction to 64 bits, and \<^verbatim>\<open>i64::checked_add\<close>.\<close>

definition wrap_i64 :: "int \<Rightarrow> int" where
  "wrap_i64 i = (i + 2 ^ 63) mod 2 ^ 64 - 2 ^ 63"

definition checked_add_i64 :: "int \<Rightarrow> int \<Rightarrow> int option" where
  "checked_add_i64 a b = (if in_i64 (a + b) then Some (a + b) else None)"

text \<open>
  \<^verbatim>\<open>str::parse::<i64>\<close>: an optional sign, at least one digit, and a value in range.
\<close>

definition parse_i64 :: "string \<Rightarrow> int option" where
  "parse_i64 s =
     (let (neg, ds) = (case s of c # r \<Rightarrow> if c = CHR ''-'' then (True, r)
                                        else if c = CHR ''+'' then (False, r) else (False, s)
                       | [] \<Rightarrow> (False, []))
      in if ds = [] then None
         else (case digits_value 0 ds of
                 None \<Rightarrow> None
               | Some n \<Rightarrow> let i = (if neg then - int n else int n) in if in_i64 i then Some i else None))"

lemma digit_value_digit_char [simp]: "d < 10 \<Longrightarrow> digit_value (digit_char d) = Some d"
  by (simp add: digit_value_def digit_char_def)

lemma digits_value_append:
  "digits_value a (s @ t) = (case digits_value a s of None \<Rightarrow> None | Some b \<Rightarrow> digits_value b t)"
  by (induction s arbitrary: a) (auto split: option.splits)

lemma digits_value_show_nat [simp]: "digits_value 0 (show_nat n) = Some n"
proof (induction n rule: show_nat.induct)
  case (1 n)
  then show ?case by (simp add: show_nat.simps [of n] digits_value_append)
qed

lemma show_nat_not_Nil [simp]: "show_nat n \<noteq> []"
  by (simp add: show_nat.simps [of n])

lemma show_nat_digits: "c \<in> set (show_nat n) \<Longrightarrow> digit_value c \<noteq> None"
proof (induction n rule: show_nat.induct)
  case (1 n)
  then show ?case by (auto simp: show_nat.simps [of n] split: if_splits)
qed

lemma parse_show_i64 [simp]: "in_i64 i \<Longrightarrow> parse_i64 (show_int i) = Some i"
proof (cases "i < 0")
  case False
  obtain c r where cr: "show_nat (nat i) = c # r" by (cases "show_nat (nat i)") auto
  then have "digit_value c \<noteq> None" using show_nat_digits [of c "nat i"] by simp
  then have "c \<noteq> CHR ''-''" "c \<noteq> CHR ''+''" by (auto simp: digit_value_def)
  moreover assume "in_i64 i"
  ultimately show ?thesis
    using False digits_value_show_nat [of "nat i"] by (simp add: parse_i64_def show_int_def cr)
qed (simp add: parse_i64_def show_int_def)

lemma wrap_i64_id [simp]: "in_i64 i \<Longrightarrow> wrap_i64 i = i"
  by (simp add: wrap_i64_def in_i64_def i64_min_def i64_max_def)

lemma in_i64_wrap [simp]: "in_i64 (wrap_i64 i)"
proof -
  have "0 \<le> (i + 2 ^ 63) mod 2 ^ 64" "(i + 2 ^ 63) mod 2 ^ 64 < (2::int) ^ 64" by simp_all
  then show ?thesis by (simp add: wrap_i64_def in_i64_def i64_min_def i64_max_def)
qed

text \<open>A byte in hexadecimal, as \<^verbatim>\<open>{byte:02x}\<close> prints it.\<close>

definition hex_digit :: "nat \<Rightarrow> char" where
  "hex_digit d = (if d < 10 then char_of (48 + d) else char_of (87 + d))"

definition hex_byte :: "char \<Rightarrow> string" where
  "hex_byte c = (let n = of_char c :: nat in [hex_digit (n div 16), hex_digit (n mod 16)])"

text \<open>
  \<^verbatim>\<open>stable_hash_hex\<close> prints the first sixteen bytes of a SHA-256 value; the hash function belongs to
  another crate and is an argument.
\<close>

definition stable_hash_hex :: "(string \<Rightarrow> string) \<Rightarrow> string \<Rightarrow> string" where
  "stable_hash_hex sha256 v = concat (map hex_byte (take 16 (sha256 v)))"

section \<open>Operations of str\<close>

fun starts_with :: "string \<Rightarrow> string \<Rightarrow> bool" where
  "starts_with s [] = True"
| "starts_with [] (p # ps) = False"
| "starts_with (c # s) (p # ps) = (c = p \<and> starts_with s ps)"

fun strip_prefix :: "string \<Rightarrow> string \<Rightarrow> string option" where
  "strip_prefix s [] = Some s"
| "strip_prefix [] (p # ps) = None"
| "strip_prefix (c # s) (p # ps) = (if c = p then strip_prefix s ps else None)"

text \<open>\<^verbatim>\<open>split_once\<close> with a one-byte separator: the text before and after its first occurrence.\<close>

fun split_once :: "char \<Rightarrow> string \<Rightarrow> (string \<times> string) option" where
  "split_once d [] = None"
| "split_once d (c # s) =
     (if c = d then Some ([], s)
      else map_option (\<lambda>(a, b). (c # a, b)) (split_once d s))"

text \<open>\<^verbatim>\<open>split_once\<close> with a two-byte separator.\<close>

fun split_once2 :: "char \<Rightarrow> char \<Rightarrow> string \<Rightarrow> (string \<times> string) option" where
  "split_once2 d e (c # c' # s) =
     (if c = d \<and> c' = e then Some ([], s)
      else map_option (\<lambda>(a, b). (c # a, b)) (split_once2 d e (c' # s)))"
| "split_once2 d e s = None"

text \<open>
  \<^verbatim>\<open>char::is_whitespace\<close> is the Unicode property White_Space. Its 25 code points are listed here
  by their UTF-8 encodings, so that \<^verbatim>\<open>trim\<close> and \<^verbatim>\<open>contains(char::is_whitespace)\<close> compute on
  bytes. UTF-8 is self-synchronising: in a valid string an encoding occurs only at a character.
\<close>

definition ws_units :: "string list" where
  "ws_units =
     [[CHR 0x09], [CHR 0x0A], [CHR 0x0B], [CHR 0x0C], [CHR 0x0D], [CHR 0x20],
      [CHR 0xC2, CHR 0x85], [CHR 0xC2, CHR 0xA0],
      [CHR 0xE1, CHR 0x9A, CHR 0x80],
      [CHR 0xE2, CHR 0x80, CHR 0x80], [CHR 0xE2, CHR 0x80, CHR 0x81],
      [CHR 0xE2, CHR 0x80, CHR 0x82], [CHR 0xE2, CHR 0x80, CHR 0x83],
      [CHR 0xE2, CHR 0x80, CHR 0x84], [CHR 0xE2, CHR 0x80, CHR 0x85],
      [CHR 0xE2, CHR 0x80, CHR 0x86], [CHR 0xE2, CHR 0x80, CHR 0x87],
      [CHR 0xE2, CHR 0x80, CHR 0x88], [CHR 0xE2, CHR 0x80, CHR 0x89],
      [CHR 0xE2, CHR 0x80, CHR 0x8A], [CHR 0xE2, CHR 0x80, CHR 0xA8],
      [CHR 0xE2, CHR 0x80, CHR 0xA9], [CHR 0xE2, CHR 0x80, CHR 0xAF],
      [CHR 0xE2, CHR 0x81, CHR 0x9F], [CHR 0xE3, CHR 0x80, CHR 0x80]]"

text \<open>Remove one of the given units from the front, if the string starts with one.\<close>

fun strip_unit :: "string list \<Rightarrow> string \<Rightarrow> string option" where
  "strip_unit [] s = None"
| "strip_unit (u # us) s =
     (case strip_prefix s u of
        Some r \<Rightarrow> if u = [] then strip_unit us s else Some r
      | None \<Rightarrow> strip_unit us s)"

lemma strip_prefix_eq_append: "strip_prefix s p = Some r \<longleftrightarrow> s = p @ r"
  by (induction s p rule: strip_prefix.induct) auto

lemma strip_prefix_self_append [simp]: "strip_prefix (p @ r) p = Some r"
  by (simp add: strip_prefix_eq_append)

lemma strip_prefix_length: "strip_prefix s p = Some r \<Longrightarrow> length s = length p + length r"
  by (simp add: strip_prefix_eq_append)

lemma strip_unit_shorter: "strip_unit us s = Some r \<Longrightarrow> length r < length s"
proof (induction us)
  case (Cons u us)
  then show ?case
    by (cases "strip_prefix s u") (auto split: if_splits simp: strip_prefix_eq_append)
qed simp

function trim_units :: "string list \<Rightarrow> string \<Rightarrow> string" where
  "trim_units us s = (case strip_unit us s of None \<Rightarrow> s | Some r \<Rightarrow> trim_units us r)"
  by pat_completeness auto
termination
  by (relation "measure (\<lambda>(us, s). length s)") (auto dest: strip_unit_shorter)

declare trim_units.simps [simp del]

definition trim_start :: "string \<Rightarrow> string" where
  "trim_start s = trim_units ws_units s"

definition trim_end :: "string \<Rightarrow> string" where
  "trim_end s = rev (trim_units (map rev ws_units) (rev s))"

text \<open>\<^verbatim>\<open>str::trim\<close>.\<close>

definition trim :: "string \<Rightarrow> string" where
  "trim s = trim_end (trim_start s)"

text \<open>\<^verbatim>\<open>s.trim().is_empty()\<close>, the test the sources use for a missing identifier.\<close>

definition blank :: "string \<Rightarrow> bool" where
  "blank s \<longleftrightarrow> trim s = []"

text \<open>\<^verbatim>\<open>s.contains(char::is_whitespace)\<close>.\<close>

fun contains_ws :: "string \<Rightarrow> bool" where
  "contains_ws [] = False"
| "contains_ws (c # s) = (strip_unit ws_units (c # s) \<noteq> None \<or> contains_ws s)"

lemma strip_unit_Nil [simp]: "strip_unit us [] = None"
proof (induction us)
  case (Cons u us)
  then show ?case by (cases u) auto
qed simp

lemma trim_units_Nil [simp]: "trim_units us [] = []"
  by (simp add: trim_units.simps)

lemma trim_units_none: "strip_unit us s = None \<Longrightarrow> trim_units us s = s"
  by (simp add: trim_units.simps)

lemma trim_Nil [simp]: "trim [] = []"
  by (simp add: trim_def trim_end_def trim_start_def)

lemma blank_Nil [simp]: "blank []"
  by (simp add: blank_def)

lemma strip_unit_iff: "strip_unit us s = None \<longleftrightarrow> (\<forall>u. u \<in> set us \<longrightarrow> u \<noteq> [] \<longrightarrow> strip_prefix s u = None)"
proof (induction us)
  case (Cons u us)
  then show ?case by (cases "strip_prefix s u") auto
qed simp

lemma strip_unit_suffix: "strip_unit us s = Some r \<Longrightarrow> \<exists>u. s = u @ r"
proof (induction us)
  case (Cons u us)
  then show ?case
    by (cases "strip_prefix s u") (auto split: if_splits simp: strip_prefix_eq_append)
qed simp

lemma strip_unit_prefix: "strip_unit us (s @ t) = None \<Longrightarrow> strip_unit us s = None"
proof (rule ccontr)
  assume none: "strip_unit us (s @ t) = None" and "strip_unit us s \<noteq> None"
  then obtain u r where "u \<in> set us" "u \<noteq> []" "s = u @ r"
    by (auto simp: strip_unit_iff strip_prefix_eq_append)
  with none show False by (auto simp: strip_unit_iff)
qed

lemma trim_units_fixed: "strip_unit us (trim_units us s) = None"
proof (induction us s rule: trim_units.induct)
  case (1 us s)
  then show ?case by (cases "strip_unit us s") (simp_all add: trim_units.simps [of us s])
qed

lemma trim_units_suffix: "\<exists>u. s = u @ trim_units us s"
proof (induction us s rule: trim_units.induct)
  case (1 us s)
  show ?case
  proof (cases "strip_unit us s")
    case (Some r)
    then obtain u v where "s = u @ r" "r = v @ trim_units us r"
      using 1 strip_unit_suffix by blast
    then show ?thesis using Some by (metis append.assoc option.simps(5) trim_units.simps)
  qed (simp add: trim_units_none)
qed

lemma trim_end_prefix: "\<exists>w. s = trim_end s @ w"
  using trim_units_suffix [of "rev s" "map rev ws_units"] unfolding trim_end_def
  by (metis rev_append rev_rev_ident)

lemma trim_trim [simp]: "trim (trim s) = trim s"
proof -
  let ?a = "trim_start s"
  obtain w where w: "?a = trim_end ?a @ w" using trim_end_prefix by blast
  have "strip_unit ws_units (trim_end ?a @ w) = None"
    unfolding w [symmetric] by (simp add: trim_start_def trim_units_fixed)
  then have "trim_start (trim_end ?a) = trim_end ?a"
    by (simp add: trim_start_def strip_unit_prefix trim_units_none)
  moreover have "trim_end (trim_end ?a) = trim_end ?a"
    unfolding trim_end_def by (simp add: trim_units_none trim_units_fixed)
  ultimately show ?thesis by (simp add: trim_def)
qed

lemma trim_set: "set (trim s) \<subseteq> set s"
proof -
  obtain w where "trim_start s = trim s @ w" using trim_end_prefix by (metis trim_def)
  moreover obtain u where "s = u @ trim_start s" using trim_units_suffix by (metis trim_start_def)
  ultimately have "s = u @ trim s @ w" by simp
  then show ?thesis by (metis Un_iff set_append subsetI)
qed

lemma strip_unit_head: "[] \<notin> set us \<Longrightarrow> c \<notin> hd ` set us \<Longrightarrow> strip_unit us (c # s) = None"
proof (induction us)
  case (Cons u us)
  then obtain d u' where u: "u = d # u'" by (cases u) auto
  with Cons show ?case by simp
qed simp

lemma starts_with_iff_strip: "starts_with s p \<longleftrightarrow> strip_prefix s p \<noteq> None"
  by (induction s p rule: starts_with.induct) auto

lemma starts_with_iff_append: "starts_with s p \<longleftrightarrow> (\<exists>r. s = p @ r)"
  by (auto simp: starts_with_iff_strip strip_prefix_eq_append)

lemma split_once_eq: "split_once d s = Some (a, b) \<longleftrightarrow> s = a @ d # b \<and> d \<notin> set a"
proof (induction s arbitrary: a b)
  case (Cons c s)
  show ?case by (cases a) (auto simp: Cons)
qed simp

lemma split_once_None: "split_once d s = None \<longleftrightarrow> d \<notin> set s"
  by (induction s) auto

lemmas trim_eval [str_simps] =
  trim_def trim_start_def trim_end_def trim_units.simps ws_units_def blank_def

section \<open>Results\<close>

lemma and_then_Ok_iff [res_simps]: "and_then r f = Inr b \<longleftrightarrow> (\<exists>a. r = Inr a \<and> f a = Inr b)"
  by (cases r) auto

lemma and_then_Err_iff [res_simps]:
  "and_then r f = Inl e \<longleftrightarrow> r = Inl e \<or> (\<exists>a. r = Inr a \<and> f a = Inl e)"
  by (cases r) auto

section \<open>Maps of lists\<close>

text \<open>\<^verbatim>\<open>map.entry(k).or_default()\<close> for a map of vectors, and its reading.\<close>

definition or_default :: "('k \<rightharpoonup> 'v list) \<Rightarrow> 'k \<Rightarrow> 'v list" where
  "or_default m k = (case m k of None \<Rightarrow> [] | Some vs \<Rightarrow> vs)"

lemma or_default_empty [simp]: "or_default Map.empty k = []"
  by (simp add: or_default_def)

lemma or_default_upd [simp]: "or_default (m(k \<mapsto> vs)) k' = (if k' = k then vs else or_default m k')"
  by (simp add: or_default_def)

lemma or_default_Some [simp]: "m k = Some vs \<Longrightarrow> or_default m k = vs"
  by (simp add: or_default_def)

section \<open>Checked runs\<close>

text \<open>
  A loop that applies a fallible step to a state for each element of a slice and returns at the
  first error: \<^verbatim>\<open>for e in es { step(&mut s, e)?; }\<close>.
\<close>

fun run_all :: "('s \<Rightarrow> 'e \<Rightarrow> ('s, 'v) result) \<Rightarrow> 's \<Rightarrow> 'e list \<Rightarrow> ('s, 'v) result" where
  "run_all step s [] = Ok s"
| "run_all step s (e # es) = and_then (step s e) (\<lambda>s'. run_all step s' es)"

lemma run_all_append:
  "run_all step s (xs @ ys) = and_then (run_all step s xs) (\<lambda>s'. run_all step s' ys)"
proof (induction xs arbitrary: s)
  case (Cons x xs)
  then show ?case by (cases "step s x") simp_all
qed simp

lemma run_all_snoc_Ok:
  "run_all step s (xs @ [x]) = Ok t \<longleftrightarrow> (\<exists>u. run_all step s xs = Ok u \<and> step u x = Ok t)"
  by (auto simp: run_all_append res_simps)

lemma run_all_split_Ok:
  "run_all step s (xs @ x # ys) = Ok t \<longleftrightarrow>
     (\<exists>u v. run_all step s xs = Ok u \<and> step u x = Ok v \<and> run_all step v ys = Ok t)"
  by (auto simp: run_all_append res_simps)

text \<open>
  The contract of a checked step: every accepted step keeps the invariant. A client gets that
  every accepted run does, and that every state an accepted run passes through has it.
\<close>

locale checked_run =
  fixes step :: "'s \<Rightarrow> 'e \<Rightarrow> ('s, 'v) result"
    and inv :: "'s \<Rightarrow> bool"
  assumes step_inv: "inv s \<Longrightarrow> step s e = Inr s' \<Longrightarrow> inv s'"
begin

lemma run_inv: "inv s \<Longrightarrow> run_all step s es = Inr s' \<Longrightarrow> inv s'"
proof (induction es arbitrary: s)
  case (Cons e es)
  then show ?case by (auto simp: res_simps intro: step_inv)
qed simp

lemma midpoint_inv:
  assumes "inv s" and "run_all step s (xs @ x # ys) = Inr t"
  shows "\<exists>u v. run_all step s xs = Inr u \<and> inv u \<and> step u x = Inr v \<and> inv v
    \<and> run_all step v ys = Inr t"
proof -
  from assms(2) obtain u v where uv: "run_all step s xs = Inr u" "step u x = Inr v"
      "run_all step v ys = Inr t"
    unfolding run_all_split_Ok by blast
  from assms(1) uv(1) have "inv u" by (rule run_inv)
  moreover from this uv(2) have "inv v" by (rule step_inv)
  ultimately show ?thesis using uv by blast
qed

text \<open>
  A state property that every accepted step keeps, except the steps on the elements \<open>K\<close>, still
  holds at the end of a run unless such an element occurred.
\<close>

lemma run_unless:
  assumes "\<And>u x v. inv u \<Longrightarrow> P u \<Longrightarrow> step u x = Inr v \<Longrightarrow> \<not> K x \<Longrightarrow> P v"
    and "inv s" and "P s" and "run_all step s es = Inr t"
  shows "P t \<or> (\<exists>x. x \<in> set es \<and> K x)"
  using assms(2-4)
proof (induction es arbitrary: s)
  case (Cons e es)
  then obtain s' where s': "step s e = Inr s'" "run_all step s' es = Inr t"
    by (auto simp: res_simps)
  show ?case
  proof (cases "K e")
    case False
    have "inv s'" using Cons.prems(1) s'(1) by (rule step_inv)
    moreover have "P s'" using assms(1) Cons.prems(1,2) s'(1) False by blast
    ultimately show ?thesis using Cons.IH s'(2) by auto
  qed auto
qed simp

end

text \<open>Sorting by a key commutes with a map that carries the key.\<close>

lemma map_sort_key: "map g (sort_key (\<lambda>x. f (g x)) xs) = sort_key f (map g xs)"
proof -
  have ins: "map g (insort_key (\<lambda>x. f (g x)) x ys) = insort_key f (g x) (map g ys)" for x ys
    by (induction ys) simp_all
  show ?thesis by (induction xs) (simp_all add: ins)
qed

end
