(* ===== verification/Trace_Props.thy ===== *)
theory Trace_Props
  imports Trace
begin

text \<open>
  What an accepted log guarantees, read off the records of the log itself. Each proof follows one
  record to a later one with \<open>run_unless\<close>: a fact of the checker state persists until a record
  that may end it.
\<close>

section \<open>Accepted logs\<close>

abbreviation accepted :: "(string \<Rightarrow> bool) \<Rightarrow> trace_record list \<Rightarrow> bool" where
  "accepted json_ok log \<equiv> check_trace json_ok log = Ok ()"

definition occurs :: "trace_event \<Rightarrow> trace_record list \<Rightarrow> bool" where
  "occurs ev log \<longleftrightarrow> list_ex (\<lambda>r. event r = ev) log"

lemma run_steps_count:
  "run_all (trace_step json_ok) (n, st) log = Ok (n', st') \<Longrightarrow> n' = n + length log"
proof (induction log arbitrary: n st)
  case (Cons r log)
  then obtain m s where "trace_step json_ok (n, st) r = Ok (m, s)"
      and run: "run_all (trace_step json_ok) (m, s) log = Ok (n', st')"
    by (auto simp: res_simps)
  then show ?case using Cons.IH [OF run] by (simp add: trace_step_Ok)
qed simp

lemma run_steps_sequence:
  "run_all (trace_step json_ok) (n, st) log = Ok nst \<Longrightarrow> i < length log \<Longrightarrow> sequence (log ! i) = n + i"
proof (induction log arbitrary: n st i)
  case (Cons r log)
  then obtain m s where "trace_step json_ok (n, st) r = Ok (m, s)"
      and run: "run_all (trace_step json_ok) (m, s) log = Ok nst"
    by (auto simp: res_simps)
  then show ?case using Cons.IH [OF run] Cons.prems(2) by (cases i) (simp_all add: trace_step_Ok)
qed simp

lemma accepted_run:
  "accepted json_ok log \<longleftrightarrow>
     (\<exists>nst. run_all (trace_step json_ok) (1, trace_state_default) log = Ok nst)"
  by (simp add: check_trace_def res_simps)

lemma accepted_at:
  assumes "accepted json_ok (xs @ r # ys)"
  obtains st st' where "state_after json_ok xs st" and "trace_inv st"
    and "check_record json_ok st r = Ok st'" and "trace_inv st'"
    and "\<exists>nt. run_all (trace_step json_ok) (Suc (Suc (length xs)), st') ys = Ok nt"
proof -
  from assms obtain nst where
    run: "run_all (trace_step json_ok) (1, trace_state_default) (xs @ r # ys) = Inr nst"
    unfolding accepted_run by blast
  have "trace_inv (snd (1 :: nat, trace_state_default))" by (simp add: trace_inv_default)
  from trace.midpoint_inv [OF this run] obtain u v where
    u: "run_all (trace_step json_ok) (1, trace_state_default) xs = Inr u" "trace_inv (snd u)"
    and v: "trace_step json_ok u r = Inr v" "trace_inv (snd v)"
      "run_all (trace_step json_ok) v ys = Inr nst"
    by blast
  obtain n st where u_eq: "u = (n, st)" by (cases u)
  obtain n' st' where v_eq: "v = (n', st')" by (cases v)
  from u(1) have n: "n = Suc (length xs)" unfolding u_eq by (auto dest: run_steps_count)
  from v(1) have "check_record json_ok st r = Ok st'" "n' = Suc n"
    unfolding u_eq v_eq by (simp_all add: trace_step_Ok)
  with u v n that [of st st'] show thesis
    unfolding u_eq v_eq by (simp add: state_after_def)
qed

text \<open>
  Two records of an accepted log: a fact that holds after the first and that every accepted
  record except the events \<open>K\<close> keeps, holds before the second unless such an event lies between.
\<close>

lemma accepted_between:
  assumes acc: "accepted json_ok (xs @ r # ys @ q # zs)"
    and keeps: "\<And>u x v. trace_inv u \<Longrightarrow> P u \<Longrightarrow> check_record json_ok u x = Ok v \<Longrightarrow> \<not> K (event x)
      \<Longrightarrow> P v"
    and first: "\<And>st st'. trace_inv st \<Longrightarrow> check_record json_ok st r = Ok st' \<Longrightarrow> P st'"
  obtains x where "x \<in> set ys" and "K (event x)"
  | u v where "trace_inv u" and "P u" and "check_record json_ok u q = Ok v"
proof -
  from acc obtain st st' where st: "trace_inv st" "check_record json_ok st r = Ok st'" "trace_inv st'"
    and "\<exists>nt. run_all (trace_step json_ok) (Suc (Suc (length xs)), st') (ys @ q # zs) = Ok nt"
    by (rule accepted_at)
  then obtain nt where
    run: "run_all (trace_step json_ok) (Suc (Suc (length xs)), st') (ys @ q # zs) = Ok nt" by blast
  then obtain n u w where u: "run_all (trace_step json_ok) (Suc (Suc (length xs)), st') ys = Ok (n, u)"
    and w: "trace_step json_ok (n, u) q = Ok w"
    unfolding run_all_split_Ok by (metis surj_pair)
  have inv: "trace_inv u" using trace.run_inv [OF _ u] st(3) by simp
  obtain v where v: "check_record json_ok u q = Ok v"
    using w by (cases w) (auto simp: trace_step_Ok)
  have "P u \<or> (\<exists>x. x \<in> set ys \<and> K (event x))"
  proof -
    have step: "P (snd b)" if "trace_inv (snd a)" "P (snd a)" "trace_step json_ok a x = Inr b"
      "\<not> K (event x)" for a x b
      using that keeps [of "snd a" x "snd b"] by (cases a, cases b) (simp add: trace_step_Ok)
    show ?thesis
      using trace.run_unless [where P = "\<lambda>nst. P (snd nst)" and K = "\<lambda>x. K (event x)", OF step _ _ u]
        st(3) first [OF st(1,2)] by simp
  qed
  then show thesis using that inv v by blast
qed

section \<open>What persists\<close>

fun ends_run :: "string \<Rightarrow> string \<Rightarrow> trace_event \<Rightarrow> bool" where
  "ends_run run e (LeaseExpired run' e') \<longleftrightarrow> run' = run \<and> e' = e"
| "ends_run run e (EffectTerminal run' e' _) \<longleftrightarrow> run' = run \<and> e' = e"
| "ends_run _ _ _ \<longleftrightarrow> False"

lemma live_run_persists:
  assumes "run \<in> live_runs u" "run_effects u run = Some e" "check_record json_ok u x = Ok v"
    and "\<not> ends_run run e (event x)"
  shows "run \<in> live_runs v \<and> run_effects v run = Some e"
  using assms by (cases "event x") (auto simp: check_record_def dest!: observing_arms_Ok elim!: arms_OkE)

lemma ended_run_persists:
  assumes "run \<notin> live_runs u" "run_effects u run \<noteq> None" "check_record json_ok u x = Ok v"
  shows "run \<notin> live_runs v \<and> run_effects v run \<noteq> None"
  using assms by (cases "event x") (auto simp: check_record_def dest!: observing_arms_Ok elim!: arms_OkE)

lemma terminal_mark_persists:
  assumes "e \<in> terminal_effects u" "check_record json_ok u x = Ok v" "event x \<noteq> EffectRetried e"
  shows "e \<in> terminal_effects v"
  using assms by (cases "event x") (auto simp: check_record_def dest!: observing_arms_Ok elim!: arms_OkE)

lemma cancelled_persists:
  assumes "cancelled u" "check_record json_ok u x = Ok v"
  shows "cancelled v"
  using assms by (cases "event x") (auto simp: check_record_def dest!: observing_arms_Ok elim!: arms_OkE)

lemma edge_persists:
  assumes "dependencies u e = Some es" "edge \<in> set es" "check_record json_ok u x = Ok v"
  shows "\<exists>es'. dependencies v e = Some es' \<and> edge \<in> set es'"
  using assms by (cases "event x") (auto simp: check_record_def dest!: observing_arms_Ok elim!: arms_OkE)

lemma epoch_grows:
  assumes "n \<le> revision_epoch u" "check_record json_ok u x = Ok v"
  shows "n \<le> revision_epoch v"
  using assms by (cases "event x") (auto simp: check_record_def dest!: observing_arms_Ok elim!: arms_OkE)

lemma settled_persists:
  assumes "effects u e = Some s" "s = Completed \<or> s = Cancelled" "trace_inv u"
    "check_record json_ok u x = Ok v" "e \<in> terminal_effects u"
  shows "effects v e = Some s \<and> e \<in> terminal_effects v"
  using assms by (cases "event x") (auto simp: check_record_def dest!: observing_arms_Ok elim!: arms_OkE)

section \<open>Errors\<close>

lemma check_record_Err: "check_record json_ok st r = Inl v \<Longrightarrow> violation_sequence v = sequence r"
proof (cases "event r")
qed (auto simp: check_record_def violation_def check_effect_created_def
  check_dependency_created_def check_effect_claimed_def check_run_started_def
  check_lease_expired_def check_effect_terminal_def check_provider_diagnostic_def
  check_effect_blocked_def check_effect_retried_def check_effect_cancelled_def
  check_revision_activated_def check_cancellation_requested_def check_assertion_failed_def
  check_terminal_refused_def check_orphan_diagnostic_def check_instance_resumed_def
  split: arm_splits)

lemma run_all_Err:
  "run_all step s es = Inl v \<Longrightarrow>
     \<exists>xs x ys u. es = xs @ x # ys \<and> run_all step s xs = Inr u \<and> step u x = Inl v"
proof (induction es arbitrary: s)
  case (Cons e es)
  show ?case
  proof (cases "step s e")
    case (Inl v')
    then have "e # es = [] @ e # es \<and> run_all step s [] = Inr s \<and> step s e = Inl v"
      using Cons.prems by simp
    then show ?thesis by blast
  next
    case (Inr s')
    then obtain xs x ys u where "es = xs @ x # ys" "run_all step s' xs = Inr u" "step u x = Inl v"
      using Cons by fastforce
    with Inr have "e # es = (e # xs) @ x # ys \<and> run_all step s (e # xs) = Inr u \<and> step u x = Inl v"
      by simp
    then show ?thesis by blast
  qed
qed simp

section \<open>The lifecycle of one effect\<close>

text \<open>
  The event concerns the effect: it is the one that may change its status.
\<close>

fun concerns :: "string \<Rightarrow> trace_event \<Rightarrow> bool" where
  "concerns e (EffectCreated e' _) \<longleftrightarrow> e' = e"
| "concerns e (EffectClaimed e') \<longleftrightarrow> e' = e"
| "concerns e (RunStarted _ e') \<longleftrightarrow> e' = e"
| "concerns e (LeaseExpired _ e') \<longleftrightarrow> e' = e"
| "concerns e (EffectTerminal _ e' _) \<longleftrightarrow> e' = e"
| "concerns e (EffectBlocked e' _ _) \<longleftrightarrow> e' = e"
| "concerns e (EffectRetried e') \<longleftrightarrow> e' = e"
| "concerns e (EffectCancelled e') \<longleftrightarrow> e' = e"
| "concerns e _ \<longleftrightarrow> False"

text \<open>
  The abstract automaton of one effect: what the events of a log may do to its status, and
  nothing else. It has no runs, no dependencies and no other effects.
\<close>

inductive lifecycle :: "string \<Rightarrow> effect_status option \<Rightarrow> trace_event \<Rightarrow> effect_status option \<Rightarrow> bool"
  for e where
  create: "lifecycle e None (EffectCreated e s) (Some s)"
| claim: "s = Queued \<or> s = Blocked \<Longrightarrow> lifecycle e (Some s) (EffectClaimed e) (Some Claimed)"
| start: "lifecycle e (Some Claimed) (RunStarted run e) (Some Running)"
| expire: "lifecycle e (Some Running) (LeaseExpired run e) (Some Failed)"
| settle: "is_terminal s \<Longrightarrow> lifecycle e (Some Running) (EffectTerminal run e s) (Some s)"
| block: "s = Queued \<or> s = Blocked \<or> s = Claimed \<Longrightarrow>
    lifecycle e (Some s) (EffectBlocked e b why) (Some Blocked)"
| retry: "s = Failed \<or> s = TimedOut \<Longrightarrow> lifecycle e (Some s) (EffectRetried e) (Some Queued)"
| cancel: "\<not> is_terminal s \<Longrightarrow> lifecycle e (Some s) (EffectCancelled e) (Some Cancelled)"
| other: "\<not> concerns e ev \<Longrightarrow> lifecycle e s ev s"

inductive_cases lifecycle_completedE: "lifecycle e (Some Completed) ev s"
inductive_cases lifecycle_cancelledE: "lifecycle e (Some Cancelled) ev s"

fun lifecycle_path :: "string \<Rightarrow> effect_status option \<Rightarrow> trace_event list \<Rightarrow> effect_status option \<Rightarrow> bool"
where
  "lifecycle_path e s [] t \<longleftrightarrow> s = t"
| "lifecycle_path e s (ev # evs) t \<longleftrightarrow> (\<exists>u. lifecycle e s ev u \<and> lifecycle_path e u evs t)"

lemma not_terminal_cases:
  "\<not> is_terminal s \<longleftrightarrow> s = Queued \<or> s = Blocked \<or> s = Claimed \<or> s = Running"
  by (cases s) simp_all

lemma settling_run_running:
  assumes "trace_inv st" "run_effects st run = Some e" "e \<notin> terminal_effects st" "run \<in> live_runs st"
  shows "effects st e = Some Running"
  using assms unfolding trace_inv_def live_running_def by blast

lemma check_record_lifecycle:
  assumes inv: "trace_inv st" and ok: "check_record json_ok st r = Ok st'"
  shows "lifecycle e (effects st e) (event r) (effects st' e)"
proof (cases "concerns e (event r)")
  case True
  show ?thesis
  proof (cases "\<exists>run s. event r = EffectTerminal run e s")
    case True
    then obtain run s where ev: "event r = EffectTerminal run e s" by blast
    with ok have "check_effect_terminal st r run e s = Ok st'" by (simp add: check_record_def)
    then show ?thesis
    proof (cases rule: check_effect_terminal_OkE)
      case settled: ok
      have "effects st e = Some Running" using inv settled(2,5,6) by (rule settling_run_running)
      then show ?thesis using settled(1) by (simp add: ev settled(7) lifecycle.settle)
    qed
  next
    case False
    with \<open>concerns e (event r)\<close> inv ok show ?thesis
      by (cases "event r")
        (auto simp: check_record_def not_terminal_cases elim!: arms_OkE
          intro: lifecycle.intros lifecycle.cancel [unfolded not_terminal_cases])
  qed
next
  case False
  moreover from False ok have "effects st' e = effects st e"
    by (cases "event r")
      (auto simp: check_record_def dest!: observing_arms_Ok elim!: arms_OkE)
  ultimately show ?thesis by (simp add: lifecycle.other)
qed

lemma absorbing:
  assumes "lifecycle_path e (Some s) evs t" and "s = Completed \<or> s = Cancelled"
  shows "t = Some s"
  using assms
proof (induction evs)
  case (Cons ev evs)
  then have "\<And>u. lifecycle e (Some s) ev u \<Longrightarrow> u = Some s"
    by (auto elim: lifecycle_completedE lifecycle_cancelledE)
  with Cons show ?case by auto
qed auto

lemma run_lifecycle_path:
  assumes "trace_inv st" and "run_all (trace_step json_ok) (n, st) log = Ok (n', st')"
  shows "lifecycle_path e (effects st e) (map event log) (effects st' e)"
  using assms
proof (induction log arbitrary: n st)
  case (Cons r log)
  then obtain m u where step: "trace_step json_ok (n, st) r = Ok (m, u)"
    and run: "run_all (trace_step json_ok) (m, u) log = Ok (n', st')"
    by (auto simp: res_simps)
  from step have ok: "check_record json_ok st r = Ok u" by (simp add: trace_step_Ok)
  have "trace_inv u" using Cons.prems(1) ok by (rule check_record_inv)
  then have "lifecycle_path e (effects u e) (map event log) (effects st' e)"
    using run by (rule Cons.IH)
  with check_record_lifecycle [OF Cons.prems(1) ok] show ?case by auto
qed simp

text \<open>Every edge an accepted prefix recorded is in the dependency table under its downstream effect.\<close>

lemma recorded_edge:
  assumes "state_after json_ok xs st" and "occurs (DependencyCreated edge) xs"
  shows "\<exists>es. dependencies st (downstream_effect_id edge) = Some es \<and> edge \<in> set es"
proof -
  from assms(2) obtain as r bs where xs: "xs = as @ r # bs" and r: "event r = DependencyCreated edge"
    by (auto simp: occurs_def list_ex_iff dest: split_list)
  let ?P = "\<lambda>nst. \<exists>es. dependencies (snd nst) (downstream_effect_id edge) = Some es \<and> edge \<in> set es"
  from assms(1) obtain u v where u: "run_all (trace_step json_ok) (1, trace_state_default) as = Inr u"
    and v: "trace_step json_ok u r = Inr v"
    and rest: "run_all (trace_step json_ok) v bs = Inr (Suc (length xs), st)"
    unfolding state_after_def xs run_all_split_Ok by blast
  have inv_u: "trace_inv (snd u)" by (rule trace.run_inv [OF _ u]) (simp add: trace_inv_default)
  have inv_v: "trace_inv (snd v)" using inv_u v by (rule trace.step_inv)
  have Pv: "?P v" using v r
    by (cases u, cases v) (auto simp: trace_step_Ok check_record_def elim!: check_dependency_created_OkE)
  have keep: "?P b" if "?P a" "trace_step json_ok a x = Inr b" for a x b
    using that by (cases a, cases b) (auto simp: trace_step_Ok dest: edge_persists)
  have "?P (Suc (length xs), st) \<or> (\<exists>x. x \<in> set bs \<and> False)"
    by (rule trace.run_unless [where P = ?P, OF _ inv_v Pv rest]) (rule keep)
  then show ?thesis by simp
qed

section \<open>Theorems on accepted logs\<close>

text \<open>
  C1. Runs of one effect are exclusive: between two starts of runs of an effect, the first of the
  two runs ended, by its terminal event or by the expiry of its lease.
\<close>

theorem runs_of_an_effect_exclusive:
  assumes acc: "check_trace json_ok (xs @ r # ys @ q # zs) = Ok ()"
    and r: "event r = RunStarted run e" and q: "event q = RunStarted run' e"
  shows "\<exists>x. x \<in> set ys \<and> ends_run run e (event x)"
proof (rule accepted_between [OF acc,
      where P = "\<lambda>st. run \<in> live_runs st \<and> run_effects st run = Some e" and K = "ends_run run e"])
  fix u v
  assume "trace_inv u" "run \<in> live_runs u \<and> run_effects u run = Some e"
    and "check_record json_ok u q = Ok v"
  then have False using q by (auto simp: check_record_def inv_defs elim!: check_run_started_OkE)
  then show ?thesis ..
qed (use r in \<open>auto simp: check_record_def elim!: check_run_started_OkE dest: live_run_persists\<close>)

text \<open>
  C2. A run ends at most once: after its terminal event or its lease expiry no further terminal
  event and no further expiry of that run is accepted, for whatever effect.
\<close>

theorem run_ends_at_most_once:
  assumes acc: "check_trace json_ok (xs @ r # ys @ q # zs) = Ok ()"
    and r: "ends_run run e (event r)"
  shows "\<not> ends_run run e' (event q)"
proof (rule accepted_between [OF acc,
      where P = "\<lambda>st. run \<notin> live_runs st \<and> run_effects st run \<noteq> None" and K = "\<lambda>_. False"])
  show "run \<notin> live_runs st' \<and> run_effects st' run \<noteq> None"
    if "check_record json_ok st r = Ok st'" for st st'
    using that r by (cases "event r")
      (auto simp: check_record_def elim!: check_lease_expired_OkE check_effect_terminal_OkE)
  fix u v
  assume "run \<notin> live_runs u \<and> run_effects u run \<noteq> None" and "check_record json_ok u q = Ok v"
  then show ?thesis by (cases "event q")
      (auto simp: check_record_def elim!: check_lease_expired_OkE check_effect_terminal_OkE)
qed (auto dest: ended_run_persists)

text \<open>
  An effect settles once per attempt: between two terminal events of an effect lies a retry
  of it, and the first outcome was a retryable one.
\<close>

theorem second_terminal_needs_retry:
  assumes acc: "check_trace json_ok (xs @ r # ys @ q # zs) = Ok ()"
    and r: "event r = EffectTerminal run e s" and q: "event q = EffectTerminal run' e s'"
  shows "occurs (EffectRetried e) ys \<and> (s = Failed \<or> s = TimedOut)"
proof
  show "occurs (EffectRetried e) ys"
  proof (rule accepted_between [OF acc,
        where P = "\<lambda>st. e \<in> terminal_effects st" and K = "\<lambda>ev. ev = EffectRetried e"])
    fix u v
    assume "e \<in> terminal_effects u" and "check_record json_ok u q = Ok v"
    then have False using q by (auto simp: check_record_def elim!: check_effect_terminal_OkE)
    then show ?thesis ..
  qed (use r in \<open>auto simp: check_record_def occurs_def list_ex_iff
      elim!: check_effect_terminal_OkE dest: terminal_mark_persists\<close>)
  show "s = Failed \<or> s = TimedOut"
  proof (rule ccontr)
    assume not_retryable: "\<not> ?thesis"
    show False
    proof (rule accepted_between [OF acc,
          where P = "\<lambda>st. effects st e = Some s \<and> e \<in> terminal_effects st
            \<and> (s = Completed \<or> s = Cancelled)" and K = "\<lambda>_. False"])
      show "effects st' e = Some s \<and> e \<in> terminal_effects st' \<and> (s = Completed \<or> s = Cancelled)"
        if "check_record json_ok st r = Ok st'" for st st'
        using that r not_retryable by (cases s)
          (auto simp: check_record_def elim!: check_effect_terminal_OkE)
    qed (use q in \<open>auto simp: check_record_def elim!: check_effect_terminal_OkE
        dest: settled_persists\<close>)
  qed
qed

text \<open>
  C3. Claims respect the dependency order: when an effect is claimed, every dependency edge the
  log recorded for it before is satisfied by the status its upstream effect has at that point.
\<close>

theorem claim_respects_dependencies:
  assumes acc: "check_trace json_ok (xs @ q # ys) = Ok ()" and q: "event q = EffectClaimed e"
  shows "\<exists>st. state_after json_ok xs st
    \<and> (\<forall>edge. occurs (DependencyCreated edge) xs \<longrightarrow> downstream_effect_id edge = e
          \<longrightarrow> dependency_satisfied st edge)"
proof -
  from acc obtain st st' where st: "state_after json_ok xs st" "check_record json_ok st q = Ok st'"
    by (rule accepted_at)
  from st(2) q have none: "first_unsatisfied_dependency st e = None"
    by (auto simp: check_record_def elim!: check_effect_claimed_OkE)
  have "dependency_satisfied st edge"
    if edge: "occurs (DependencyCreated edge) xs" "downstream_effect_id edge = e" for edge
  proof -
    from recorded_edge [OF st(1) edge(1)] obtain es where
      "dependencies st e = Some es" "edge \<in> set es" unfolding edge(2) by blast
    with none show ?thesis by (auto simp: first_unsatisfied_dependency_def find_None_iff)
  qed
  with st(1) show ?thesis by blast
qed

text \<open>
  C4. A cancelled instance stays cancelled: after \<^verbatim>\<open>InstanceCancelled\<close> the log has no claim, no start
  of a run and no resumption.
\<close>

theorem nothing_starts_after_cancellation:
  assumes acc: "check_trace json_ok (xs @ r # ys @ q # zs) = Ok ()"
    and r: "event r = InstanceCancelled"
  shows "event q \<noteq> EffectClaimed e \<and> event q \<noteq> RunStarted run e \<and> event q \<noteq> InstanceResumed"
proof (rule accepted_between [OF acc, where P = cancelled and K = "\<lambda>_. False"])
  fix u v
  assume "cancelled u" and "check_record json_ok u q = Ok v"
  then show ?thesis by (auto simp: check_record_def elim: arms_OkE)
qed (use r in \<open>auto simp: check_record_def dest: cancelled_persists\<close>)

text \<open>
  C5. The checker refines the lifecycle automaton: for every effect, the events of an accepted
  log are a path of \<open>lifecycle\<close> from the absent effect to the status the checker holds for it.
\<close>

theorem checker_refines_lifecycle:
  assumes "state_after json_ok log st"
  shows "lifecycle_path e None (map event log) (effects st e)"
  using run_lifecycle_path [OF trace_inv_default assms [unfolded state_after_def], of e]
  by (simp add: trace_state_default_def)

text \<open>
  Completion and cancellation are final: once an accepted prefix leaves an effect completed
  or cancelled, every accepted extension leaves it so.
\<close>

theorem settled_status_is_final:
  assumes pre: "state_after json_ok xs st" and "effects st e = Some s"
    and final: "s = Completed \<or> s = Cancelled" and ext: "state_after json_ok (xs @ ys) st'"
  shows "effects st' e = Some s"
proof -
  have inv: "trace_inv st"
    using trace.run_inv [OF _ pre [unfolded state_after_def]] by (simp add: trace_inv_default)
  have "run_all (trace_step json_ok) (Suc (length xs), st) ys = Ok (Suc (length (xs @ ys)), st')"
    using pre ext unfolding state_after_def run_all_append by simp
  from run_lifecycle_path [OF inv this, of e] assms(2) have
    "lifecycle_path e (Some s) (map event ys) (effects st' e)" by simp
  then show ?thesis using final by (rule absorbing)
qed

text \<open>
  Revision epochs grow along an accepted log: a later activation starts at or after the epoch
  an earlier one reached, and moves beyond it.
\<close>

theorem revision_epochs_grow:
  assumes acc: "check_trace json_ok (xs @ r # ys @ q # zs) = Ok ()"
    and r: "event r = RevisionActivated i fv tv f t p ts rs"
    and q: "event q = RevisionActivated i' fv' tv' f' t' p' ts' rs'"
  shows "f < t \<and> t \<le> f' \<and> f' < t'"
proof
  from acc obtain st st' where "check_record json_ok st r = Ok st'" by (rule accepted_at)
  then show "f < t" using r by (auto simp: check_record_def elim!: check_revision_activated_OkE)
  show "t \<le> f' \<and> f' < t'"
  proof (rule accepted_between [OF acc, where P = "\<lambda>st. t \<le> revision_epoch st" and K = "\<lambda>_. False"])
    fix u v
    assume "t \<le> revision_epoch u" and "check_record json_ok u q = Ok v"
    then show ?thesis using q by (auto simp: check_record_def elim!: check_revision_activated_OkE)
  next
    show "t \<le> revision_epoch st'" if "check_record json_ok st r = Ok st'" for st st'
      using that r by (auto simp: check_record_def elim!: check_revision_activated_OkE)
  qed (auto intro: epoch_grows)
qed

text \<open>
  The records of an accepted log are numbered without gaps, starting at one.
\<close>

theorem records_numbered_from_one:
  assumes "check_trace json_ok log = Ok ()"
  shows "map sequence log = [1..<Suc (length log)]"
proof (rule nth_equalityI)
  from assms obtain nst where run: "run_all (trace_step json_ok) (1, trace_state_default) log = Ok nst"
    unfolding accepted_run by blast
  fix i assume "i < length (map sequence log)"
  then show "map sequence log ! i = [1..<Suc (length log)] ! i"
    using run_steps_sequence [OF run, of i] by (simp del: upt_Suc)
qed (simp del: upt_Suc)

text \<open>
  A rejection is located: the violation carries the sequence number of the first record that
  the accepted prefix before it cannot be extended with.
\<close>

theorem violation_names_first_bad_record:
  assumes "check_trace json_ok log = Err v"
  shows "\<exists>xs r ys. log = xs @ r # ys \<and> check_trace json_ok xs = Ok ()
    \<and> check_trace json_ok (xs @ [r]) \<noteq> Ok () \<and> violation_sequence v = sequence r"
proof -
  from assms have "run_all (trace_step json_ok) (1, trace_state_default) log = Inl v"
    by (auto simp: check_trace_def res_simps)
  from run_all_Err [OF this] obtain xs r ys u where split: "log = xs @ r # ys"
    "run_all (trace_step json_ok) (1, trace_state_default) xs = Inr u" "trace_step json_ok u r = Inl v"
    by blast
  from split(2,3) have "check_trace json_ok xs = Ok ()" "check_trace json_ok (xs @ [r]) \<noteq> Ok ()"
    by (auto simp: accepted_run run_all_snoc_Ok)
  moreover from split(3) have "violation_sequence v = sequence r"
    by (cases u) (auto simp: trace_step_def violation_def res_simps dest: check_record_Err
      split: if_splits)
  ultimately show ?thesis using split(1) by blast
qed

section \<open>Witnesses\<close>

text \<open>
  A log with a retried effect: its first run fails, the second completes; a second effect depends
  on it, is claimed after it, and the instance is cancelled at the end, after two revisions.
\<close>

abbreviation numbered :: "nat \<Rightarrow> trace_event \<Rightarrow> trace_record" where
  "numbered n ev \<equiv> \<lparr>sequence = n, event = ev\<rparr>"

abbreviation first_edge :: dependency_edge where
  "first_edge \<equiv> \<lparr>upstream_effect_id = ''a'', predicate = Dep_Fails, downstream_effect_id = ''b''\<rparr>"

lemmas trace_eval =
  check_trace_def trace_step_def check_record_def trace_state_default_def check_effect_created_def
  check_dependency_created_def check_effect_claimed_def check_run_started_def
  check_lease_expired_def check_effect_terminal_def check_effect_retried_def
  check_effect_cancelled_def check_revision_activated_def dependency_satisfied_def
  first_unsatisfied_dependency_def state_after_def occurs_def

theorem runs_of_an_effect_exclusive_witness:
  "\<exists>x. x \<in> set [numbered 4 (EffectTerminal ''r1'' ''a'' Failed), numbered 5 (EffectRetried ''a''),
      numbered 6 (EffectClaimed ''a'')] \<and> ends_run ''r1'' ''a'' (event x)"
  by (rule runs_of_an_effect_exclusive [where json_ok = "\<lambda>_. True"
      and xs = "[numbered 1 (EffectCreated ''a'' Queued), numbered 2 (EffectClaimed ''a'')]"
      and r = "numbered 3 (RunStarted ''r1'' ''a'')" and q = "numbered 7 (RunStarted ''r2'' ''a'')"
      and zs = "[]" and run' = "''r2''"])
    (simp_all add: trace_eval)

text \<open>The start of a log in which an effect runs.\<close>

definition sample_run :: "trace_record list" where
  "sample_run = [numbered 1 (EffectCreated ''a'' Queued), numbered 2 (EffectClaimed ''a''), numbered 3 (RunStarted ''r1'' ''a'')]"

theorem run_ends_at_most_once_witness:
  "check_trace (\<lambda>_. True) (sample_run @ numbered 4 (LeaseExpired ''r1'' ''a'')
       # [numbered 5 (EffectRetried ''a''), numbered 6 (EffectClaimed ''a''), numbered 7 (RunStarted ''r2'' ''a'')]
       @ numbered 8 (EffectTerminal ''r2'' ''a'' Completed) # []) = Ok ()
   \<and> \<not> ends_run ''r1'' ''a'' (EffectTerminal ''r2'' ''a'' Completed)
   \<and> check_trace (\<lambda>_. True) (sample_run @ numbered 4 (LeaseExpired ''r1'' ''a'') # []
       @ numbered 5 (EffectTerminal ''r1'' ''a'' Completed) # []) \<noteq> Ok ()"
proof (intro conjI)
  show acc: "check_trace (\<lambda>_. True) (sample_run @ numbered 4 (LeaseExpired ''r1'' ''a'')
       # [numbered 5 (EffectRetried ''a''), numbered 6 (EffectClaimed ''a''), numbered 7 (RunStarted ''r2'' ''a'')]
       @ numbered 8 (EffectTerminal ''r2'' ''a'' Completed) # []) = Ok ()"
    by (simp add: trace_eval sample_run_def)
  show "\<not> ends_run ''r1'' ''a'' (EffectTerminal ''r2'' ''a'' Completed)"
    using run_ends_at_most_once [OF acc, of "''r1''" "''a''" "''a''"] by (simp add: trace_eval)
  show "check_trace (\<lambda>_. True) (sample_run @ numbered 4 (LeaseExpired ''r1'' ''a'') # []
       @ numbered 5 (EffectTerminal ''r1'' ''a'' Completed) # []) \<noteq> Ok ()"
    using run_ends_at_most_once [where json_ok = "\<lambda>_. True" and xs = sample_run and r = "numbered 4 (LeaseExpired ''r1'' ''a'')"
        and ys = "[]" and q = "numbered 5 (EffectTerminal ''r1'' ''a'' Completed)" and zs = "[]" and run = "''r1''"
        and e = "''a''" and e' = "''a''"] by auto
qed

theorem second_terminal_needs_retry_witness:
  "occurs (EffectRetried ''a'') [numbered 5 (EffectRetried ''a''), numbered 6 (EffectClaimed ''a''),
      numbered 7 (RunStarted ''r2'' ''a'')] \<and> (Failed = Failed \<or> Failed = TimedOut)"
  by (rule second_terminal_needs_retry [where json_ok = "\<lambda>_. True"
      and xs = "[numbered 1 (EffectCreated ''a'' Queued), numbered 2 (EffectClaimed ''a''),
        numbered 3 (RunStarted ''r1'' ''a'')]"
      and r = "numbered 4 (EffectTerminal ''r1'' ''a'' Failed)"
      and q = "numbered 8 (EffectTerminal ''r2'' ''a'' Completed)"
      and zs = "[]" and run = "''r1''" and run' = "''r2''" and s' = Completed])
    (simp_all add: trace_eval)

theorem claim_respects_dependencies_witness:
  "\<exists>st. state_after (\<lambda>_. True) [numbered 1 (EffectCreated ''a'' Failed),
        numbered 2 (EffectCreated ''b'' Queued), numbered 3 (DependencyCreated first_edge)] st
    \<and> (\<forall>edge. occurs (DependencyCreated edge) [numbered 1 (EffectCreated ''a'' Failed),
          numbered 2 (EffectCreated ''b'' Queued), numbered 3 (DependencyCreated first_edge)]
        \<longrightarrow> downstream_effect_id edge = ''b'' \<longrightarrow> dependency_satisfied st edge)"
  by (rule claim_respects_dependencies [where q = "numbered 4 (EffectClaimed ''b'')" and ys = "[]"])
    (simp_all add: trace_eval)

theorem nothing_starts_after_cancellation_witness:
  "check_trace (\<lambda>_. True) (sample_run @ numbered 4 InstanceCancelled # []
       @ numbered 5 (EffectTerminal ''r1'' ''a'' Failed) # []) = Ok ()
   \<and> EffectTerminal ''r1'' ''a'' Failed \<noteq> RunStarted ''r2'' ''a''
   \<and> check_trace (\<lambda>_. True) (sample_run @ numbered 4 InstanceCancelled # [numbered 5 (EffectTerminal ''r1'' ''a'' Failed),
       numbered 6 (EffectRetried ''a'')] @ numbered 7 (EffectClaimed ''a'') # []) \<noteq> Ok ()
   \<and> check_trace (\<lambda>_. True) (sample_run @ numbered 4 InstanceCancelled # [] @ numbered 5 InstanceResumed # []) \<noteq> Ok ()"
proof (intro conjI)
  show acc: "check_trace (\<lambda>_. True) (sample_run @ numbered 4 InstanceCancelled # []
       @ numbered 5 (EffectTerminal ''r1'' ''a'' Failed) # []) = Ok ()"
    by (simp add: trace_eval sample_run_def)
  show "EffectTerminal ''r1'' ''a'' Failed \<noteq> RunStarted ''r2'' ''a''"
    using nothing_starts_after_cancellation [OF acc, of "''a''" "''r2''"] by simp
  have cancelled: "event (numbered 4 InstanceCancelled) = InstanceCancelled" by simp
  show "check_trace (\<lambda>_. True) (sample_run @ numbered 4 InstanceCancelled # [numbered 5 (EffectTerminal ''r1'' ''a'' Failed),
       numbered 6 (EffectRetried ''a'')] @ numbered 7 (EffectClaimed ''a'') # []) \<noteq> Ok ()"
    using nothing_starts_after_cancellation [OF _ cancelled] by fastforce
  show "check_trace (\<lambda>_. True) (sample_run @ numbered 4 InstanceCancelled # [] @ numbered 5 InstanceResumed # []) \<noteq> Ok ()"
    using nothing_starts_after_cancellation [OF _ cancelled] by fastforce
qed

theorem checker_refines_lifecycle_witness:
  "lifecycle_path ''a'' None [EffectCreated ''a'' Queued, EffectClaimed ''a''] (Some Claimed)"
  using checker_refines_lifecycle [where json_ok = "\<lambda>_. True" and e = "''a''"
      and log = "[numbered 1 (EffectCreated ''a'' Queued), numbered 2 (EffectClaimed ''a'')]"
      and st = "trace_state_default\<lparr>effects := [''a'' \<mapsto> Claimed]\<rparr>"]
  by (simp add: trace_eval)

theorem settled_status_is_final_witness:
  "\<exists>st. state_after (\<lambda>_. True) ([numbered 1 (EffectCreated ''a'' Completed)] @ [numbered 2 InstancePaused]) st
    \<and> effects st ''a'' = Some Completed"
proof -
  let ?st = "trace_state_default\<lparr>effects := [''a'' \<mapsto> Completed]\<rparr>"
  have ext: "state_after (\<lambda>_. True) ([numbered 1 (EffectCreated ''a'' Completed)] @ [numbered 2 InstancePaused])
      (?st\<lparr>paused := True\<rparr>)"
    by (simp add: trace_eval)
  have "effects (?st\<lparr>paused := True\<rparr>) ''a'' = Some Completed"
    by (rule settled_status_is_final [where st = ?st, OF _ _ _ ext]) (simp_all add: trace_eval)
  with ext show ?thesis by blast
qed

theorem revision_epochs_grow_witness:
  "(0 :: int) < 1 \<and> (1 :: int) \<le> 1 \<and> (1 :: int) < 5"
  by (rule revision_epochs_grow [where json_ok = "\<lambda>_. True" and xs = "[]"
      and r = "numbered 1 (RevisionActivated ''v1'' ''x'' ''y'' 0 1 ''keep'' [] [])" and ys = "[]"
      and q = "numbered 2 (RevisionActivated ''v2'' ''y'' ''z'' 1 5 ''cancel_queued'' [] [])" and zs = "[]"])
    (simp_all add: trace_eval)

theorem records_numbered_from_one_witness:
  "map sequence [numbered 1 InstancePaused, numbered 2 InstanceResumed]
     = [1..<Suc (length [numbered 1 InstancePaused, numbered 2 InstanceResumed])]"
  by (rule records_numbered_from_one [where json_ok = "\<lambda>_. True"])
    (simp add: trace_eval check_instance_resumed_def)

theorem violation_names_first_bad_record_witness:
  "\<exists>v xs r ys. check_trace (\<lambda>_. True) [numbered 1 (EffectClaimed ''a'')] = Err v
    \<and> [numbered 1 (EffectClaimed ''a'')] = xs @ r # ys \<and> violation_sequence v = sequence r"
proof -
  let ?v = "\<lparr>violation_sequence = 1, violation_message = Format ''unknown effect {} claimed'' [''a'']\<rparr>"
  have "check_trace (\<lambda>_. True) [numbered 1 (EffectClaimed ''a'')] = Err ?v"
    by (simp add: trace_eval violation_def)
  with violation_names_first_bad_record [OF this] show ?thesis by blast
qed

end
