(* ===== verification/Dependency_Graph.thy ===== *)
theory Dependency_Graph
  imports Whip_Prelude
begin

text \<open>
  The acyclicity guard of the effect-dependency graph,
  \<^verbatim>\<open>crates/whipplescript-store/src/dependency_graph.rs\<close>, and the write it guards,
  \<^verbatim>\<open>insert_effect_dependency\<close> of \<^verbatim>\<open>crates/whipplescript-store/src/lib.rs\<close>. The worklist walk of the guard
  is total and decides exactly whether the new edge would close a cycle, so every instance graph
  built by guarded writes is acyclic.
\<close>

section \<open>The guard\<close>

type_synonym edges = "(string \<times> string) list"

text \<open>The index \<^verbatim>\<open>upstreams_of\<close>, filled by the loop over the existing edges.\<close>

fun index_edges :: "(string \<rightharpoonup> string list) \<Rightarrow> edges \<Rightarrow> (string \<rightharpoonup> string list)" where
  "index_edges index [] = index"
| "index_edges index ((upstream, downstream) # existing) =
     index_edges (index(downstream \<mapsto> or_default index downstream @ [upstream])) existing"

definition upstreams_of :: "edges \<Rightarrow> (string \<rightharpoonup> string list)" where
  "upstreams_of existing = index_edges Map.empty existing"

lemma index_edges_dom: "dom (index_edges index existing) = dom index \<union> snd ` set existing"
proof (induction index existing rule: index_edges.induct)
  case (2 index upstream downstream existing)
  show ?case by (simp only: index_edges.simps 2) auto
qed simp

lemma upstreams_of_dom: "dom (upstreams_of existing) = snd ` set existing"
  by (simp add: upstreams_of_def index_edges_dom)

text \<open>
  The loop \<^verbatim>\<open>while let Some(node) = pending.pop()\<close>. The stack \<^verbatim>\<open>pending\<close> is held top first, so that
  \<^verbatim>\<open>pop\<close> takes the head and \<^verbatim>\<open>extend\<close> puts the new nodes before the others in reverse.
\<close>

function walk :: "edges \<Rightarrow> string \<Rightarrow> string set \<Rightarrow> string list \<Rightarrow> bool" where
  "walk existing target expanded [] = False"
| "walk existing target expanded (node # pending) =
     (if node = target then True
      else if node \<in> expanded then walk existing target expanded pending
      else walk existing target (insert node expanded)
        (rev (or_default (upstreams_of existing) node) @ pending))"
  by pat_completeness auto

text \<open>
  A node is expanded at most once: either a node with recorded upstreams leaves the set of those
  still to expand, or the stack shrinks.
\<close>

termination
proof (relation "inv_image (less_than <*lex*> less_than)
    (\<lambda>(existing, target, expanded, pending).
       (card (dom (upstreams_of existing) - expanded), length pending))")
  show "wf (inv_image (less_than <*lex*> less_than)
    (\<lambda>(existing, target, expanded, pending).
       (card (dom (upstreams_of existing) - expanded), length pending)))"
    by auto
next
  fix existing target expanded node pending
  show "((existing, target, expanded, pending), existing, target, expanded, node # pending)
    \<in> inv_image (less_than <*lex*> less_than) (\<lambda>(existing, target, expanded, pending).
       (card (dom (upstreams_of existing) - expanded), length pending))"
    by simp
next
  fix existing :: edges and target node :: string and expanded pending
  assume new: "node \<notin> expanded"
  show "((existing, target, insert node expanded,
        rev (or_default (upstreams_of existing) node) @ pending),
      existing, target, expanded, node # pending)
    \<in> inv_image (less_than <*lex*> less_than) (\<lambda>(existing, target, expanded, pending).
       (card (dom (upstreams_of existing) - expanded), length pending))"
  proof (cases "upstreams_of existing node")
    case None
    then have "dom (upstreams_of existing) - insert node expanded = dom (upstreams_of existing) - expanded"
      by auto
    then show ?thesis using None by (simp add: or_default_def)
  next
    case (Some ups)
    then have "dom (upstreams_of existing) - insert node expanded
        \<subset> dom (upstreams_of existing) - expanded"
      using new by auto
    then have "card (dom (upstreams_of existing) - insert node expanded)
        < card (dom (upstreams_of existing) - expanded)"
      by (rule psubset_card_mono [rotated]) (simp add: upstreams_of_dom)
    then show ?thesis by simp
  qed
qed

definition edge_closes_cycle :: "edges \<Rightarrow> string \<Rightarrow> string \<Rightarrow> bool" where
  "edge_closes_cycle existing upstream downstream =
     (if upstream = downstream then True else walk existing downstream {} [upstream])"

section \<open>The guarded write\<close>

record effect_dependency =
  dependency_id :: string
  instance_id :: string
  upstream_effect_id :: string
  downstream_effect_id :: string
  predicate :: string
  created_by_rule :: string

text \<open>
  The errors of the write: the guard's own, and the three constraints of the table
  \<^verbatim>\<open>effect_dependencies\<close> (its primary key, its unique key, the references into \<^verbatim>\<open>effects\<close>).
\<close>

datatype store_error =
  DependencyCycle string string string string
    \<comment> \<open>instance id, upstream effect id, downstream effect id, rule\<close>
| ConstraintViolation

definition instance_dependency_edges :: "effect_dependency list \<Rightarrow> string \<Rightarrow> edges" where
  "instance_dependency_edges rows inst =
     map (\<lambda>row. (upstream_effect_id row, downstream_effect_id row))
       (filter (\<lambda>row. instance_id row = inst) rows)"

definition insert_effect_dependency ::
  "string set \<Rightarrow> effect_dependency list \<Rightarrow> effect_dependency \<Rightarrow> (effect_dependency list, store_error) result"
where
  "insert_effect_dependency known_effects rows d =
     (if edge_closes_cycle (instance_dependency_edges rows (instance_id d))
           (upstream_effect_id d) (downstream_effect_id d)
      then Err (DependencyCycle (instance_id d) (upstream_effect_id d) (downstream_effect_id d)
             (created_by_rule d))
      else if dependency_id d \<in> set (map dependency_id rows)
           \<or> (instance_id d, upstream_effect_id d, downstream_effect_id d, predicate d)
               \<in> set (map (\<lambda>r. (instance_id r, upstream_effect_id r, downstream_effect_id r, predicate r)) rows)
           \<or> upstream_effect_id d \<notin> known_effects \<or> downstream_effect_id d \<notin> known_effects
      then Err ConstraintViolation
      else Ok (rows @ [d]))"

section \<open>The walk decides reachability\<close>

lemma index_edges_lookup:
  "set (or_default (index_edges index existing) x) =
     set (or_default index x) \<union> {y. (y, x) \<in> set existing}"
proof (induction index existing rule: index_edges.induct)
  case (2 index upstream downstream existing)
  show ?case unfolding index_edges.simps 2 by auto
qed simp

lemma upstreams_of_lookup: "set (or_default (upstreams_of existing) x) = {y. (y, x) \<in> set existing}"
  by (simp add: upstreams_of_def index_edges_lookup)

text \<open>Soundness: what the walk finds is a transitive upstream of a pending node.\<close>

lemma walk_sound:
  "walk existing target expanded pending \<Longrightarrow> \<exists>p. p \<in> set pending \<and> (target, p) \<in> (set existing)\<^sup>*"
proof (induction existing target expanded pending rule: walk.induct)
  case (2 existing target expanded node pending)
  let ?ups = "rev (or_default (upstreams_of existing) node)"
  consider "node = target" | "node \<noteq> target" "node \<in> expanded" | "node \<noteq> target" "node \<notin> expanded"
    by blast
  then show ?case
  proof cases
    case 3
    then obtain p where p: "p \<in> set (?ups @ pending)" "(target, p) \<in> (set existing)\<^sup>*"
      using 2 by auto
    then show ?thesis
    proof (cases "p \<in> set pending")
      case False
      then have "(p, node) \<in> set existing" using p(1) upstreams_of_lookup by auto
      then show ?thesis using p(2) by (auto intro: rtrancl_into_rtrancl)
    qed auto
  qed (use 2 in auto)
qed simp

text \<open>
  Completeness: while the walk runs, the upstreams of every expanded node are expanded or
  pending, and no expanded node is the target. When nothing is pending the expanded nodes are
  closed under upstreams.
\<close>

lemma walk_complete:
  assumes "\<not> walk existing target expanded pending"
    and "target \<notin> expanded"
    and "\<And>x y. x \<in> expanded \<Longrightarrow> (y, x) \<in> set existing \<Longrightarrow> y \<in> expanded \<or> y \<in> set pending"
  shows "\<exists>closed. expanded \<subseteq> closed \<and> set pending \<subseteq> closed \<and> target \<notin> closed
    \<and> (\<forall>x y. x \<in> closed \<longrightarrow> (y, x) \<in> set existing \<longrightarrow> y \<in> closed)"
  using assms
proof (induction existing target expanded pending rule: walk.induct)
  case (1 existing target expanded)
  then show ?case by (intro exI [of _ expanded]) auto
next
  case (2 existing target expanded node pending)
  let ?ups = "rev (or_default (upstreams_of existing) node)"
  have node: "node \<noteq> target" using 2 by auto
  show ?case
  proof (cases "node \<in> expanded")
    case True
    have "\<exists>closed. expanded \<subseteq> closed \<and> set pending \<subseteq> closed \<and> target \<notin> closed
      \<and> (\<forall>x y. x \<in> closed \<longrightarrow> (y, x) \<in> set existing \<longrightarrow> y \<in> closed)"
    proof (intro "2.IH"(1))
      show "y \<in> expanded \<or> y \<in> set pending" if "x \<in> expanded" "(y, x) \<in> set existing" for x y
        using "2.prems"(3) [OF that] True by auto
    qed (use 2 True node in auto)
    then show ?thesis using True by auto
  next
    case False
    have "\<exists>closed. insert node expanded \<subseteq> closed \<and> set (?ups @ pending) \<subseteq> closed \<and> target \<notin> closed
      \<and> (\<forall>x y. x \<in> closed \<longrightarrow> (y, x) \<in> set existing \<longrightarrow> y \<in> closed)"
    proof (intro "2.IH"(2))
      fix x y
      assume x: "x \<in> insert node expanded" and xy: "(y, x) \<in> set existing"
      show "y \<in> insert node expanded \<or> y \<in> set (?ups @ pending)"
      proof (cases "x = node")
        case True
        then show ?thesis using xy upstreams_of_lookup [of existing node] by simp
      next
        case False
        then show ?thesis using x xy "2.prems"(3) by auto
      qed
    qed (use 2 node False in auto)
    then show ?thesis by auto
  qed
qed

lemma walk_iff: "walk existing target {} [start] \<longleftrightarrow> (target, start) \<in> (set existing)\<^sup>*"
proof
  assume "walk existing target {} [start]"
  then show "(target, start) \<in> (set existing)\<^sup>*" using walk_sound by fastforce
next
  assume reach: "(target, start) \<in> (set existing)\<^sup>*"
  show "walk existing target {} [start]"
  proof (rule ccontr)
    assume "\<not> ?thesis"
    from walk_complete [OF this] obtain closed where closed: "start \<in> closed" "target \<notin> closed"
        "\<And>x y. x \<in> closed \<Longrightarrow> (y, x) \<in> set existing \<Longrightarrow> y \<in> closed"
      by auto
    from reach have "target \<in> closed"
      by (induction rule: converse_rtrancl_induct) (use closed in auto)
    with closed(2) show False ..
  qed
qed

text \<open>
  C8. The guard is exact: the worklist walk, which ends on every edge list, answers whether the
  new edge's downstream effect is already a transitive upstream of its upstream effect.
\<close>

theorem edge_closes_cycle_iff:
  "edge_closes_cycle existing upstream downstream \<longleftrightarrow> (downstream, upstream) \<in> (set existing)\<^sup>*"
  by (simp add: edge_closes_cycle_def walk_iff del: walk.simps)

section \<open>Graphs built by guarded writes\<close>

definition instances_acyclic :: "effect_dependency list \<Rightarrow> bool" where
  "instances_acyclic rows \<longleftrightarrow> (\<forall>inst. acyclic (set (instance_dependency_edges rows inst)))"

lemma instance_edges_snoc:
  "set (instance_dependency_edges (rows @ [d]) inst) =
     (if instance_id d = inst then {(upstream_effect_id d, downstream_effect_id d)} else {})
       \<union> set (instance_dependency_edges rows inst)"
  by (auto simp: instance_dependency_edges_def)

lemma guard_iff_acyclic:
  assumes "acyclic (set existing)"
  shows "\<not> edge_closes_cycle existing up down \<longleftrightarrow> acyclic (insert (up, down) (set existing))"
  using assms by (auto simp: edge_closes_cycle_def walk_iff acyclic_insert simp del: walk.simps)

lemma insert_effect_dependency_acyclic:
  assumes "instances_acyclic rows" and "insert_effect_dependency known rows d = Inr rows'"
  shows "instances_acyclic rows'"
proof -
  from assms(2) have rows': "rows' = rows @ [d]"
    and guard: "\<not> edge_closes_cycle (instance_dependency_edges rows (instance_id d))
      (upstream_effect_id d) (downstream_effect_id d)"
    by (auto simp: insert_effect_dependency_def split: if_splits)
  have "acyclic (insert (upstream_effect_id d, downstream_effect_id d)
      (set (instance_dependency_edges rows (instance_id d))))"
    using guard assms(1) guard_iff_acyclic unfolding instances_acyclic_def by blast
  then show ?thesis
    using assms(1) by (auto simp: instances_acyclic_def rows' instance_edges_snoc)
qed

interpretation dependency_writes: checked_run "insert_effect_dependency known" instances_acyclic
  for known
  by unfold_locales (rule insert_effect_dependency_acyclic)

lemma instances_acyclic_Nil: "instances_acyclic []"
  by (simp add: instances_acyclic_def instance_dependency_edges_def acyclic_def)

text \<open>
  C9. No deadlock: in a table built by guarded writes, every non-empty set of effects of an
  instance has one that waits for none of the others, so its dependencies can settle first.
\<close>

theorem some_effect_is_unblocked:
  assumes run: "run_all (insert_effect_dependency known) [] writes = Ok rows"
    and "e \<in> unsettled"
  shows "\<exists>d. d \<in> unsettled \<and>
    (\<forall>u. (u, d) \<in> set (instance_dependency_edges rows inst) \<longrightarrow> u \<notin> unsettled)"
proof -
  let ?E = "set (instance_dependency_edges rows inst)"
  have "acyclic ?E"
    using dependency_writes.run_inv [OF instances_acyclic_Nil run] by (simp add: instances_acyclic_def)
  then have "wf ?E" by (intro finite_acyclic_wf) simp_all
  then show ?thesis using assms(2) by (rule wfE_min) blast
qed

theorem some_effect_is_unblocked_witness:
  "\<exists>d. d \<in> {''a'', ''b''} \<and> (\<forall>u. (u, d) \<in> set (instance_dependency_edges
      [\<lparr>dependency_id = ''d1'', instance_id = ''i'', upstream_effect_id = ''a'',
        downstream_effect_id = ''b'', predicate = ''succeeds'', created_by_rule = ''r''\<rparr>] ''i'')
    \<longrightarrow> u \<notin> {''a'', ''b''})"
  by (rule some_effect_is_unblocked [where known = "{''a'', ''b''}" and e = "''a''"
      and writes = "[\<lparr>dependency_id = ''d1'', instance_id = ''i'', upstream_effect_id = ''a'',
        downstream_effect_id = ''b'', predicate = ''succeeds'', created_by_rule = ''r''\<rparr>]"])
    (simp_all add: insert_effect_dependency_def instance_dependency_edges_def
      edge_closes_cycle_def upstreams_of_def)

text \<open>
  A refused write is refused for a reason: on an acyclic table the write fails with
  \<^verbatim>\<open>DependencyCycle\<close> exactly when the instance's graph with the new edge would have a cycle, and it
  then names the edge, its instance and its rule.
\<close>

theorem dependency_cycle_refusal:
  assumes "acyclic (set (instance_dependency_edges rows (instance_id d)))"
  shows "insert_effect_dependency known rows d =
      Err (DependencyCycle (instance_id d) (upstream_effect_id d) (downstream_effect_id d)
        (created_by_rule d))
    \<longleftrightarrow> \<not> acyclic (insert (upstream_effect_id d, downstream_effect_id d)
          (set (instance_dependency_edges rows (instance_id d))))"
  using guard_iff_acyclic [OF assms] by (auto simp: insert_effect_dependency_def)

theorem dependency_cycle_refusal_witness:
  "insert_effect_dependency {''a''} [] \<lparr>dependency_id = ''d1'', instance_id = ''i'',
       upstream_effect_id = ''a'', downstream_effect_id = ''a'', predicate = ''succeeds'',
       created_by_rule = ''r''\<rparr> = Err (DependencyCycle ''i'' ''a'' ''a'' ''r'')"
  using dependency_cycle_refusal [where rows = "[]" and known = "{''a''}"
      and d = "\<lparr>dependency_id = ''d1'', instance_id = ''i'', upstream_effect_id = ''a'',
        downstream_effect_id = ''a'', predicate = ''succeeds'', created_by_rule = ''r''\<rparr>"]
  by (simp add: acyclic_insert instance_dependency_edges_def acyclic_def)

end
