(* ===== verification/Ordered_Maps.thy ===== *)
theory Ordered_Maps
  imports Whip_Prelude "HOL-Library.List_Lexorder" "HOL-Library.Char_ord"
begin

text \<open>
  \<^verbatim>\<open>BTreeMap\<close> where the code iterates it or compares it: an association list strictly ascending in
  its keys. The interface \<open>ordered_map\<close> is what the components rely on: lookup after insert and
  remove, the keys in order, and that two maps with the same lookups are equal.
\<close>

type_synonym ('k, 'v) bmap = "('k \<times> 'v) list"

definition bmap_ok :: "('k::linorder, 'v) bmap \<Rightarrow> bool" where
  "bmap_ok m \<longleftrightarrow> sorted_wrt (<) (map fst m)"

fun bm_insert :: "'k::linorder \<Rightarrow> 'v \<Rightarrow> ('k, 'v) bmap \<Rightarrow> ('k, 'v) bmap" where
  "bm_insert k v [] = [(k, v)]"
| "bm_insert k v ((k', v') # m) =
     (if k < k' then (k, v) # (k', v') # m
      else if k = k' then (k, v) # m
      else (k', v') # bm_insert k v m)"

definition bm_remove :: "'k::linorder \<Rightarrow> ('k, 'v) bmap \<Rightarrow> ('k, 'v) bmap" where
  "bm_remove k m = filter (\<lambda>kv. fst kv \<noteq> k) m"

abbreviation bm_get :: "('k, 'v) bmap \<Rightarrow> 'k \<Rightarrow> 'v option" where
  "bm_get \<equiv> map_of"

abbreviation bm_keys :: "('k, 'v) bmap \<Rightarrow> 'k list" where
  "bm_keys m \<equiv> map fst m"

text \<open>\<^verbatim>\<open>collect()\<close> of key-value pairs: later pairs replace earlier ones.\<close>

definition bm_of_list :: "('k::linorder \<times> 'v) list \<Rightarrow> ('k, 'v) bmap" where
  "bm_of_list kvs = fold (\<lambda>(k, v) m. bm_insert k v m) kvs []"

text \<open>The elements of a \<^verbatim>\<open>BTreeSet\<close> built from a vector, in order.\<close>

definition ascending :: "'k::linorder list \<Rightarrow> 'k list" where
  "ascending ks = sort (remdups ks)"

lemma ascending_sorted [simp]: "sorted_wrt (<) (ascending ks)"
  by (simp add: ascending_def strict_sorted_iff)

lemma ascending_set [simp]: "set (ascending ks) = set ks"
  by (simp add: ascending_def)

lemma bmap_ok_Nil [simp]: "bmap_ok []"
  by (simp add: bmap_ok_def)

lemma bmap_ok_Cons: "bmap_ok (kv # m) \<longleftrightarrow> (\<forall>k. k \<in> set (bm_keys m) \<longrightarrow> fst kv < k) \<and> bmap_ok m"
  by (auto simp: bmap_ok_def)

lemma bmap_ok_distinct: "bmap_ok m \<Longrightarrow> distinct (bm_keys m)"
  by (simp add: bmap_ok_def strict_sorted_iff)

lemma bm_keys_insert [simp]: "set (bm_keys (bm_insert k v m)) = insert k (set (bm_keys m))"
  by (induction k v m rule: bm_insert.induct) auto

lemma bm_insert_ok [simp]: "bmap_ok m \<Longrightarrow> bmap_ok (bm_insert k v m)"
proof (induction k v m rule: bm_insert.induct)
  case (2 k v k' v' m)
  then show ?case using bm_keys_insert [of k v m] by (auto simp: bmap_ok_Cons)
qed (simp add: bmap_ok_Cons)

lemma bm_get_insert [simp]:
  "bm_get (bm_insert k v m) k' = (if k' = k then Some v else bm_get m k')"
  by (induction k v m rule: bm_insert.induct) auto

lemma bm_insert_new: "k \<notin> set (bm_keys m) \<Longrightarrow> set (bm_insert k v m) = insert (k, v) (set m)"
  by (induction k v m rule: bm_insert.induct) auto

lemma bm_insert_length: "k \<notin> set (bm_keys m) \<Longrightarrow> length (bm_insert k v m) = Suc (length m)"
  by (induction k v m rule: bm_insert.induct) auto

lemma bm_remove_ok [simp]: "bmap_ok m \<Longrightarrow> bmap_ok (bm_remove k m)"
  unfolding bmap_ok_def bm_remove_def by (induction m) auto

lemma bm_get_remove [simp]: "bm_get (bm_remove k m) k' = (if k' = k then None else bm_get m k')"
  by (induction m) (auto simp: bm_remove_def)

lemma bm_get_None: "bm_get m k = None \<longleftrightarrow> k \<notin> set (bm_keys m)"
  by (simp add: map_of_eq_None_iff)

lemma bm_ext:
  assumes "bmap_ok m" and "bmap_ok m'" and same: "\<And>k. bm_get m k = bm_get m' k"
  shows "m = m'"
proof -
  have "set m = set m'"
    using same map_of_inject_set [OF bmap_ok_distinct bmap_ok_distinct] assms(1,2) by blast
  moreover have "inj_on fst (set m \<union> set m')"
    using bmap_ok_distinct [OF assms(2)] \<open>set m = set m'\<close> by (simp add: distinct_map)
  ultimately show ?thesis
    using assms(1,2) map_sorted_distinct_set_unique [of fst m m']
    by (simp add: bmap_ok_def strict_sorted_iff)
qed

lemma bm_get_eq_iff: "bmap_ok m \<Longrightarrow> bmap_ok m' \<Longrightarrow> m = m' \<longleftrightarrow> (\<forall>k. bm_get m k = bm_get m' k)"
  by (auto intro: bm_ext)

lemma bm_get_iff: "bmap_ok m \<Longrightarrow> bm_get m k = Some v \<longleftrightarrow> (k, v) \<in> set m"
  by (simp add: bmap_ok_distinct)

text \<open>The comparison of two maps by the entries of one and the keys of the other.\<close>

lemma bmap_agree:
  assumes "bmap_ok m" and "bmap_ok m'"
  shows "(\<forall>k v. (k, v) \<in> set m \<longrightarrow> bm_get m' k = Some v) \<and> set (bm_keys m') \<subseteq> set (bm_keys m)
    \<longleftrightarrow> set m = set m'"
proof -
  have "set m' \<subseteq> set m" if sub: "set m \<subseteq> set m'" and keys: "set (bm_keys m') \<subseteq> set (bm_keys m)"
  proof
    fix e assume e: "e \<in> set m'"
    then obtain v where v: "(fst e, v) \<in> set m" using keys by force
    then have "bm_get m' (fst e) = Some v" using sub by (auto simp: bm_get_iff [OF assms(2)])
    moreover have "bm_get m' (fst e) = Some (snd e)" using e by (simp add: bm_get_iff [OF assms(2)])
    ultimately show "e \<in> set m" using v by (metis option.inject prod.collapse)
  qed
  moreover have "(\<forall>k v. (k, v) \<in> set m \<longrightarrow> bm_get m' k = Some v) \<longleftrightarrow> set m \<subseteq> set m'"
    unfolding bm_get_iff [OF assms(2)] by auto
  ultimately show ?thesis by auto
qed

section \<open>The interface\<close>

locale ordered_map =
  fixes ok :: "'m \<Rightarrow> bool"
    and empty :: 'm
    and get :: "'m \<Rightarrow> 'k::linorder \<Rightarrow> 'v option"
    and upd :: "'k \<Rightarrow> 'v \<Rightarrow> 'm \<Rightarrow> 'm"
    and keys :: "'m \<Rightarrow> 'k list"
  assumes empty_ok: "ok empty"
    and get_empty: "get empty k = None"
    and upd_ok: "ok m \<Longrightarrow> ok (upd k v m)"
    and get_upd: "get (upd k v m) k' = (if k' = k then Some v else get m k')"
    and keys_get: "k \<in> set (keys m) \<longleftrightarrow> get m k \<noteq> None"
    and keys_ascending: "ok m \<Longrightarrow> sorted_wrt (<) (keys m)"
    and ext: "ok m \<Longrightarrow> ok m' \<Longrightarrow> (\<And>k. get m k = get m' k) \<Longrightarrow> m = m'"
begin

text \<open>
  The loop \<^verbatim>\<open>for k in keys { if let Some(v) = f(k) { map.insert(k, v); } }\<close>: it keeps the order
  invariant, and the result looks up \<open>f\<close> on the keys of the loop.
\<close>

lemma collect_ok:
  "ok m \<Longrightarrow> ok (fold (\<lambda>k m. case f k of None \<Rightarrow> m | Some v \<Rightarrow> upd k v m) ks m)"
proof (induction ks arbitrary: m)
  case (Cons k ks)
  then show ?case by (cases "f k") (simp_all add: upd_ok)
qed simp

lemma collect_get:
  "get (fold (\<lambda>k m. case f k of None \<Rightarrow> m | Some v \<Rightarrow> upd k v m) ks m) x =
     (if x \<in> set ks \<and> f x \<noteq> None then f x else get m x)"
proof (induction ks arbitrary: m)
  case (Cons k ks)
  then show ?case by (cases "f k") (auto simp: get_upd)
qed simp

text \<open>A map is what the loop over its own keys rebuilds.\<close>

lemma rebuild:
  assumes "ok m"
  shows "fold (\<lambda>k m. case get m0 k of None \<Rightarrow> m | Some v \<Rightarrow> upd k v m) (keys m0) empty = m
    \<longleftrightarrow> (\<forall>k. get m k = get m0 k)"
    (is "?l = m \<longleftrightarrow> _")
proof -
  have "ok ?l" by (rule collect_ok) (rule empty_ok)
  moreover have "get ?l k = get m0 k" for k
    using keys_get [of k m0] by (auto simp: collect_get get_empty)
  ultimately show ?thesis using ext [OF _ assms, of ?l] by auto
qed

end

interpretation bm: ordered_map bmap_ok "[]" map_of bm_insert "map fst"
  by unfold_locales
    (auto simp: bmap_ok_def [symmetric] bm_get_None image_iff intro: bm_ext simp flip: bmap_ok_def
      dest: map_of_SomeD weak_map_of_SomeI)

lemma bm_of_list_ok [simp]: "bmap_ok (bm_of_list kvs)"
proof -
  have "bmap_ok m \<Longrightarrow> bmap_ok (fold (\<lambda>(k, v) m. bm_insert k v m) kvs m)" for m
    by (induction kvs arbitrary: m) (auto split: prod.splits)
  then show ?thesis by (simp add: bm_of_list_def)
qed

end
