(* ===== verification/Merge.thy ===== *)
theory Merge
  imports Ordered_Maps
begin

text \<open>
  The blob-plane merge engine, \<^verbatim>\<open>crates/whipplescript-store/src/merge.rs\<close>: the path-level three-way
  merge of content-addressed manifests. The lemmas give its outcome path by path, its symmetry in
  the two sides, and that it neither loses an edit nor makes one up. The interface
  \<open>three_way_merge\<close> is what the reconciliation planner relies on.
\<close>

section \<open>The model\<close>

type_synonym manifest = "(string, string) bmap"

record merge_side =
  label :: string
  cut_id :: "string option"

record path_conflict =
  path :: string
  base :: "string option"
  ours :: "string option"
  theirs :: "string option"
  ours_side :: merge_side
  theirs_side :: merge_side

datatype merge_outcome =
  Clean manifest
| Conflicted manifest "path_conflict list"
    \<comment> \<open>merged remainder, conflicts\<close>

text \<open>One iteration of the loop over the paths.\<close>

definition merge_path ::
  "manifest \<Rightarrow> manifest \<Rightarrow> manifest \<Rightarrow> merge_side \<Rightarrow> merge_side \<Rightarrow> string
     \<Rightarrow> manifest \<times> path_conflict list \<Rightarrow> manifest \<times> path_conflict list"
where
  "merge_path bs os ts o_side t_side p acc =
     (case acc of (merged, conflicts) \<Rightarrow>
       let b = bm_get bs p; x = bm_get os p; t = bm_get ts p;
           take_side = (\<lambda>taken.
             (case taken of None \<Rightarrow> merged | Some hash \<Rightarrow> bm_insert p hash merged, conflicts))
       in if x = t then take_side x
          else if x = b then take_side t
          else if t = b then take_side x
          else (merged, conflicts @ [\<lparr>path = p, base = b, ours = x, theirs = t,
                 ours_side = o_side, theirs_side = t_side\<rparr>]))"

definition merge_manifests ::
  "manifest \<Rightarrow> manifest \<Rightarrow> manifest \<Rightarrow> merge_side \<Rightarrow> merge_side \<Rightarrow> merge_outcome"
where
  "merge_manifests bs os ts o_side t_side =
     (let paths = ascending (bm_keys bs @ bm_keys os @ bm_keys ts);
          (merged, conflicts) = fold (merge_path bs os ts o_side t_side) paths ([], [])
      in if conflicts = [] then Clean merged else Conflicted merged conflicts)"

section \<open>The outcome, path by path\<close>

text \<open>The rule for one path: \<open>None\<close> is a conflict, \<open>Some taken\<close> the outcome (\<open>Some None\<close> a deletion).\<close>

definition three_way :: "'a option \<Rightarrow> 'a option \<Rightarrow> 'a option \<Rightarrow> 'a option option" where
  "three_way b x t = (if x = t then Some x else if x = b then Some t else if t = b then Some x else None)"

definition conflict_at ::
  "manifest \<Rightarrow> manifest \<Rightarrow> manifest \<Rightarrow> merge_side \<Rightarrow> merge_side \<Rightarrow> string \<Rightarrow> path_conflict"
where
  "conflict_at bs os ts o_side t_side p =
     \<lparr>path = p, base = bm_get bs p, ours = bm_get os p, theirs = bm_get ts p,
      ours_side = o_side, theirs_side = t_side\<rparr>"

abbreviation three_way_at :: "manifest \<Rightarrow> manifest \<Rightarrow> manifest \<Rightarrow> string \<Rightarrow> string option option" where
  "three_way_at bs os ts p \<equiv> three_way (bm_get bs p) (bm_get os p) (bm_get ts p)"

lemma merge_path_cases:
  "merge_path bs os ts o_side t_side p (merged, conflicts) =
     (case three_way_at bs os ts p of
        None \<Rightarrow> (merged, conflicts @ [conflict_at bs os ts o_side t_side p])
      | Some taken \<Rightarrow>
          (case taken of None \<Rightarrow> merged | Some hash \<Rightarrow> bm_insert p hash merged, conflicts))"
  by (simp add: merge_path_def three_way_def conflict_at_def Let_def)

lemma merge_fold:
  "fold (merge_path bs os ts o_side t_side) ps (merged, conflicts) =
     (fold (\<lambda>p m. case Option.bind (three_way_at bs os ts p) id of None \<Rightarrow> m | Some h \<Rightarrow> bm_insert p h m)
        ps merged,
      conflicts @ map (conflict_at bs os ts o_side t_side)
        (filter (\<lambda>p. three_way_at bs os ts p = None) ps))"
proof (induction ps arbitrary: merged conflicts)
  case (Cons p ps)
  show ?case
    by (cases "three_way_at bs os ts p") (simp_all add: merge_path_cases Cons split: option.splits)
qed simp

definition all_paths :: "manifest \<Rightarrow> manifest \<Rightarrow> manifest \<Rightarrow> string list" where
  "all_paths bs os ts = ascending (bm_keys bs @ bm_keys os @ bm_keys ts)"

definition contested :: "manifest \<Rightarrow> manifest \<Rightarrow> manifest \<Rightarrow> string list" where
  "contested bs os ts = filter (\<lambda>p. three_way_at bs os ts p = None) (all_paths bs os ts)"

definition merged_part :: "manifest \<Rightarrow> manifest \<Rightarrow> manifest \<Rightarrow> manifest" where
  "merged_part bs os ts =
     fold (\<lambda>p m. case Option.bind (three_way_at bs os ts p) id of None \<Rightarrow> m | Some h \<Rightarrow> bm_insert p h m)
       (all_paths bs os ts) []"

lemma merge_manifests_eq:
  "merge_manifests bs os ts o_side t_side =
     (if contested bs os ts = [] then Clean (merged_part bs os ts)
      else Conflicted (merged_part bs os ts)
        (map (conflict_at bs os ts o_side t_side) (contested bs os ts)))"
  by (simp add: merge_manifests_def merge_fold contested_def merged_part_def all_paths_def Let_def)

lemma merged_part_ok: "bmap_ok (merged_part bs os ts)"
  unfolding merged_part_def by (rule bm.collect_ok) simp

lemma not_in_paths:
  "p \<notin> set (all_paths bs os ts) \<Longrightarrow> bm_get bs p = None \<and> bm_get os p = None \<and> bm_get ts p = None"
  by (auto simp: all_paths_def map_of_eq_None_iff)

lemma merged_part_get: "bm_get (merged_part bs os ts) p = Option.bind (three_way_at bs os ts p) id"
  unfolding merged_part_def
  using not_in_paths [of p bs os ts] by (auto simp: bm.collect_get three_way_def)

lemma contested_iff: "p \<in> set (contested bs os ts) \<longleftrightarrow> three_way_at bs os ts p = None"
  using not_in_paths [of p bs os ts] by (cases "p \<in> set (all_paths bs os ts)")
    (auto simp: contested_def three_way_def)

lemma contested_ascending: "sorted_wrt (<) (contested bs os ts)"
  unfolding contested_def all_paths_def by (rule sorted_wrt_filter) simp

lemma contested_Nil_iff: "contested bs os ts = [] \<longleftrightarrow> (\<forall>p. three_way_at bs os ts p \<noteq> None)"
  using contested_iff [of _ bs os ts] by (metis list.set_intros(1) neq_Nil_conv list.set(1) empty_iff)

lemma three_way_None: "three_way b x t = None \<longleftrightarrow> x \<noteq> t \<and> x \<noteq> b \<and> t \<noteq> b"
  by (auto simp: three_way_def)

lemma three_way_taken:
  "Option.bind (three_way b x t) id =
     (if x \<noteq> t \<and> x \<noteq> b \<and> t \<noteq> b then None else if x = b then t else x)"
  by (auto simp: three_way_def)

lemma three_way_commute: "three_way b x t = three_way b t x"
  by (auto simp: three_way_def)

lemma contested_commute: "contested bs os ts = contested bs ts os"
  using contested_ascending contested_iff three_way_commute
  by (intro strict_sorted_equal) (auto simp: contested_iff three_way_commute)

lemma merged_part_commute: "merged_part bs os ts = merged_part bs ts os"
  by (rule bm_ext) (simp_all add: merged_part_ok merged_part_get three_way_commute)

lemma merged_part_self:
  assumes "bmap_ok m" and "\<And>p. three_way_at bs os ts p = Some (bm_get m p)"
  shows "merge_manifests bs os ts o_side t_side = Clean m"
proof -
  have "merged_part bs os ts = m"
    using assms by (intro bm_ext) (simp_all add: merged_part_ok merged_part_get)
  then show ?thesis using assms(2) by (simp add: merge_manifests_eq contested_Nil_iff)
qed

section \<open>The interface\<close>

text \<open>
  What a client of a clean three-way merge relies on: a path the first side left alone has the
  other side's content, every other path has the first side's; and where both sides changed a
  path, they agree on it.
\<close>

locale three_way_merge =
  fixes get :: "'m \<Rightarrow> string \<Rightarrow> string option"
    and merge :: "'m \<Rightarrow> 'm \<Rightarrow> 'm \<Rightarrow> 'm option"
  assumes clean_get: "merge b x t = Some m \<Longrightarrow>
      get m p = (if get x p = get b p then get t p else get x p)"
    and clean_agree: "merge b x t = Some m \<Longrightarrow>
      get x p = get b p \<or> get t p = get b p \<or> get x p = get t p"
begin

lemma keeps_ours: "merge b x t = Some m \<Longrightarrow> get x p \<noteq> get b p \<Longrightarrow> get m p = get x p"
  by (simp add: clean_get)

lemma keeps_theirs: "merge b x t = Some m \<Longrightarrow> get t p \<noteq> get b p \<Longrightarrow> get m p = get t p"
  using clean_agree [of b x t m p] by (auto simp: clean_get)

text \<open>Nothing is made up: a path the merge changes was changed by a side, to that content.\<close>

lemma nothing_new:
  "merge b x t = Some m \<Longrightarrow> get m p \<noteq> get b p \<Longrightarrow>
     get x p \<noteq> get b p \<and> get m p = get x p \<or> get t p \<noteq> get b p \<and> get m p = get t p"
  by (auto simp: clean_get split: if_splits)

text \<open>Seen from the other side's head, what is left of the merge is the first side's own work.\<close>

lemma rest_is_ours:
  "merge b x t = Some m \<Longrightarrow> get m p \<noteq> get t p \<Longrightarrow> get x p \<noteq> get b p \<and> get m p = get x p"
  by (auto simp: clean_get split: if_splits)

end

fun clean_manifest :: "merge_outcome \<Rightarrow> manifest option" where
  "clean_manifest (Clean m) = Some m"
| "clean_manifest (Conflicted _ _) = None"

interpretation blob_merge: three_way_merge map_of
  "\<lambda>b x t. clean_manifest (merge_manifests b x t o_side t_side)"
  for o_side t_side
proof unfold_locales
  fix b x t m :: manifest and p
  assume "clean_manifest (merge_manifests b x t o_side t_side) = Some m"
  then have m: "m = merged_part b x t" and all: "three_way_at b x t p \<noteq> None"
    by (auto simp: merge_manifests_eq contested_Nil_iff split: if_splits)
  from all show "bm_get x p = bm_get b p \<or> bm_get t p = bm_get b p \<or> bm_get x p = bm_get t p"
    by (auto simp: three_way_def split: if_splits)
  from all show "bm_get m p = (if bm_get x p = bm_get b p then bm_get t p else bm_get x p)"
    by (auto simp: m merged_part_get three_way_def split: if_splits)
qed

section \<open>Theorems\<close>

text \<open>
  C31. The outcome of a merge is determined path by path: a path is contested exactly when both
  sides changed it and disagree; the conflicts are those paths in ascending order, each with the
  base and both sides; every other path has the changed side's content, a deletion included; and
  the outcome is clean exactly when no path is contested.
\<close>

theorem merge_outcome_per_path:
  "case merge_manifests bs os ts o_side t_side of
     Clean m \<Rightarrow> (\<forall>p. (bm_get os p = bm_get ts p \<or> bm_get os p = bm_get bs p \<or> bm_get ts p = bm_get bs p)
        \<and> bm_get m p = (if bm_get os p = bm_get bs p then bm_get ts p else bm_get os p))
   | Conflicted m cs \<Rightarrow> (\<exists>ps. ps \<noteq> [] \<and> sorted_wrt (<) ps \<and> cs = map (conflict_at bs os ts o_side t_side) ps
        \<and> (\<forall>p. p \<in> set ps \<longleftrightarrow>
             bm_get os p \<noteq> bm_get ts p \<and> bm_get os p \<noteq> bm_get bs p \<and> bm_get ts p \<noteq> bm_get bs p)
        \<and> (\<forall>p. bm_get m p = (if p \<in> set ps then None
             else if bm_get os p = bm_get bs p then bm_get ts p else bm_get os p)))"
proof (cases "contested bs os ts = []")
  case True
  then show ?thesis
    by (auto simp: merge_manifests_eq merged_part_get contested_Nil_iff three_way_None three_way_taken)
next
  case False
  let ?ps = "contested bs os ts"
  have iff: "p \<in> set ?ps \<longleftrightarrow>
      bm_get os p \<noteq> bm_get ts p \<and> bm_get os p \<noteq> bm_get bs p \<and> bm_get ts p \<noteq> bm_get bs p" for p
    by (auto simp: contested_iff three_way_None)
  have "bm_get (merged_part bs os ts) p = (if p \<in> set ?ps then None
      else if bm_get os p = bm_get bs p then bm_get ts p else bm_get os p)" for p
    unfolding iff by (simp add: merged_part_get three_way_taken)
  then show ?thesis
    using False contested_ascending [of bs os ts] iff by (auto simp: merge_manifests_eq)
qed

text \<open>The same outcome with the roles of the two sides exchanged.\<close>

definition mirror_conflict :: "path_conflict \<Rightarrow> path_conflict" where
  "mirror_conflict c = \<lparr>path = path c, base = base c, ours = theirs c, theirs = ours c,
     ours_side = theirs_side c, theirs_side = ours_side c\<rparr>"

fun mirror :: "merge_outcome \<Rightarrow> merge_outcome" where
  "mirror (Clean m) = Clean m"
| "mirror (Conflicted m cs) = Conflicted m (map mirror_conflict cs)"

text \<open>
  The merge is symmetric: exchanging the two sides changes nothing but which side of each
  conflict is which. The merged manifest and the set of conflicts do not depend on the order.
\<close>

theorem merge_symmetric:
  "merge_manifests bs ts os t_side o_side = mirror (merge_manifests bs os ts o_side t_side)"
  by (simp add: merge_manifests_eq contested_commute [of bs ts os] merged_part_commute [of bs ts os]
      mirror_conflict_def conflict_at_def)

text \<open>
  One-sided and equal changes merge cleanly to exactly the changed manifest, byte for byte.
\<close>

theorem merge_one_sided:
  assumes "bmap_ok x"
  shows "merge_manifests b x b o_side t_side = Clean x \<and> merge_manifests b b x o_side t_side = Clean x
    \<and> merge_manifests b x x o_side t_side = Clean x"
  using assms by (auto intro!: merged_part_self simp: three_way_def)

theorem merge_one_sided_witness:
  "bmap_ok [(''a'', ''h1'')] \<and>
   merge_manifests [(''a'', ''h0'')] [(''a'', ''h1'')] [(''a'', ''h0'')]
      \<lparr>label = ''draft'', cut_id = None\<rparr> \<lparr>label = ''main'', cut_id = Some ''c''\<rparr> = Clean [(''a'', ''h1'')]"
  using merge_one_sided [where x = "[(''a'', ''h1'')]" and b = "[(''a'', ''h0'')]"
      and o_side = "\<lparr>label = ''draft'', cut_id = None\<rparr>"
      and t_side = "\<lparr>label = ''main'', cut_id = Some ''c''\<rparr>"]
  by (simp add: bmap_ok_def)

end
