(* ===== verification/Reconcile.thy ===== *)
theory Reconcile
  imports Merge
begin

text \<open>
  The reconciliation planner, \<^verbatim>\<open>crates/whipplescript-store/src/reconcile.rs\<close>: what a rebase of a
  branch onto its target does, and when a branch may be merged up. The proofs use the merge only
  through \<open>three_way_merge\<close>.
\<close>

section \<open>The planner\<close>

datatype rebase_down_plan =
  UpToDate
| Silent manifest
    \<comment> \<open>new head manifest\<close>
| DeferredMidRun
| AskAtQuiescence "path_conflict list" manifest
    \<comment> \<open>conflicts, merged remainder\<close>

datatype merge_up_plan =
  NeedsLease
| NeedsQuiescence
| StaleBase "string option" "string option"
    \<comment> \<open>branch point cut id, target head cut id\<close>
| Certified manifest
    \<comment> \<open>merged manifest\<close>

definition plan_rebase_down ::
  "manifest \<Rightarrow> manifest \<Rightarrow> manifest \<Rightarrow> merge_side \<Rightarrow> merge_side \<Rightarrow> bool \<Rightarrow> rebase_down_plan"
where
  "plan_rebase_down branch_point branch_head target_head branch_side target_side quiescent =
     (if branch_point = target_head then UpToDate
      else case merge_manifests branch_point branch_head target_head branch_side target_side of
        Clean m \<Rightarrow> Silent m
      | Conflicted merged_remainder conflicts \<Rightarrow>
          if quiescent then AskAtQuiescence conflicts merged_remainder else DeferredMidRun)"

definition plan_merge_up ::
  "manifest \<Rightarrow> string option \<Rightarrow> string option \<Rightarrow> bool \<Rightarrow> bool \<Rightarrow> merge_up_plan"
where
  "plan_merge_up branch_head branch_point_cut_id target_head_cut_id lease_held quiescent =
     (if \<not> lease_held then NeedsLease
      else if \<not> quiescent then NeedsQuiescence
      else if branch_point_cut_id \<noteq> target_head_cut_id then
        StaleBase branch_point_cut_id target_head_cut_id
      else Certified branch_head)"

section \<open>Rebase down\<close>

lemma Silent_merge:
  "plan_rebase_down point head target b_side t_side q = Silent m \<Longrightarrow>
     clean_manifest (merge_manifests point head target b_side t_side) = Some m"
  by (auto simp: plan_rebase_down_def split: if_splits merge_outcome.splits)

text \<open>
  C32. A silent rebase loses no work and invents none: every path the branch changed keeps the
  branch's content, every path the target changed has the target's, and where the new head still
  differs from the target it is the branch's own change.
\<close>

theorem silent_rebase_loses_nothing:
  assumes "plan_rebase_down point head target b_side t_side quiescent = Silent m"
  shows "(bm_get head p \<noteq> bm_get point p \<longrightarrow> bm_get m p = bm_get head p)
    \<and> (bm_get target p \<noteq> bm_get point p \<longrightarrow> bm_get m p = bm_get target p)
    \<and> (bm_get m p \<noteq> bm_get target p \<longrightarrow> bm_get head p \<noteq> bm_get point p \<and> bm_get m p = bm_get head p)"
  using Silent_merge [OF assms]
  by (blast dest: blob_merge.keeps_ours blob_merge.keeps_theirs blob_merge.rest_is_ours)

text \<open>
  A conflict never moves a running branch and is never resolved by the planner: the ask is
  made only at quiescence, its conflicts are exactly the contested paths, and the same heads are
  deferred while the branch runs.
\<close>

theorem conflicts_wait_for_quiescence:
  assumes "plan_rebase_down point head target b_side t_side quiescent = AskAtQuiescence cs m"
  shows "quiescent \<and> cs \<noteq> []
    \<and> (\<forall>p. p \<in> set (map path cs) \<longleftrightarrow> bm_get head p \<noteq> bm_get target p
         \<and> bm_get head p \<noteq> bm_get point p \<and> bm_get target p \<noteq> bm_get point p)
    \<and> plan_rebase_down point head target b_side t_side False = DeferredMidRun"
proof -
  from assms have q: quiescent "point \<noteq> target"
    and merge: "merge_manifests point head target b_side t_side = Conflicted m cs"
    by (auto simp: plan_rebase_down_def split: if_splits merge_outcome.splits)
  from merge have cs: "cs = map (conflict_at point head target b_side t_side) (contested point head target)"
      and "contested point head target \<noteq> []"
    by (auto simp: merge_manifests_eq split: if_splits)
  moreover have "map path cs = contested point head target"
    by (simp add: cs conflict_at_def comp_def)
  ultimately show ?thesis
    using q merge by (auto simp: contested_iff three_way_def plan_rebase_down_def split: if_splits)
qed

section \<open>Merge up\<close>

text \<open>
  A certified merge-up is the three-way merge: it needs the lease, quiescence and a branch
  point at the target's current head, and then the branch head is what merging it into the target
  gives, without a conflict.
\<close>

theorem certified_is_the_merge:
  assumes "plan_merge_up head point_cut target_cut lease quiescent = Certified m" and "bmap_ok head"
  shows "lease \<and> quiescent \<and> point_cut = target_cut
    \<and> merge_manifests target head target b_side t_side = Clean m"
proof -
  from assms(1) have "lease" quiescent "point_cut = target_cut" "m = head"
    by (auto simp: plan_merge_up_def split: if_splits)
  moreover have "merge_manifests target head target b_side t_side = Clean head"
    using assms(2) by (intro merged_part_self) (auto simp: three_way_def)
  ultimately show ?thesis by simp
qed

text \<open>
  Rebase down, then merge up: after a silent rebase the branch, re-pointed at the target
  head, is up to date, and under the lease at quiescence its merge-up is certified with the
  rebased head.
\<close>

theorem rebase_then_merge_up:
  assumes "plan_rebase_down point head target b_side t_side quiescent = Silent m"
  shows "plan_rebase_down target m target b_side t_side quiescent = UpToDate
    \<and> plan_merge_up m head_cut head_cut True True = Certified m \<and> bmap_ok m"
  using assms
  by (auto simp: plan_rebase_down_def plan_merge_up_def merge_manifests_eq merged_part_ok
      split: if_splits merge_outcome.splits)

section \<open>Witnesses\<close>

abbreviation draft :: merge_side where
  "draft \<equiv> \<lparr>label = ''draft'', cut_id = Some ''c1''\<rparr>"

abbreviation main_line :: merge_side where
  "main_line \<equiv> \<lparr>label = ''main'', cut_id = Some ''c2''\<rparr>"

theorem silent_rebase_loses_nothing_witness:
  "plan_rebase_down [(''a'', ''h0''), (''b'', ''h0'')] [(''a'', ''h1''), (''b'', ''h0'')]
     [(''a'', ''h0'')] draft main_line False = Silent [(''a'', ''h1'')]
   \<and> bm_get [(''a'', ''h1'')] ''b'' = None"
proof -
  have "plan_rebase_down [(''a'', ''h0''), (''b'', ''h0'')] [(''a'', ''h1''), (''b'', ''h0'')]
     [(''a'', ''h0'')] draft main_line False = Silent [(''a'', ''h1'')]" (is ?plan)
    by code_simp
  then show ?thesis using silent_rebase_loses_nothing [of _ _ _ _ _ _ _ "''b''", OF \<open>?plan\<close>] by simp
qed

theorem conflicts_wait_for_quiescence_witness:
  "plan_rebase_down [(''a'', ''h0'')] [(''a'', ''h1'')] [] draft main_line False = DeferredMidRun"
proof -
  have "plan_rebase_down [(''a'', ''h0'')] [(''a'', ''h1'')] [] draft main_line True =
      AskAtQuiescence [conflict_at [(''a'', ''h0'')] [(''a'', ''h1'')] [] draft main_line ''a''] []"
    by code_simp
  from conflicts_wait_for_quiescence [OF this] show ?thesis by simp
qed

theorem certified_is_the_merge_witness:
  "merge_manifests [(''b'', ''h0'')] [(''a'', ''h1'')] [(''b'', ''h0'')] draft main_line
     = Clean [(''a'', ''h1'')]"
  using certified_is_the_merge [where head = "[(''a'', ''h1'')]" and m = "[(''a'', ''h1'')]"
      and point_cut = "Some ''c2''" and target_cut = "Some ''c2''" and lease = True and quiescent = True
      and target = "[(''b'', ''h0'')]" and b_side = draft and t_side = main_line]
  by (simp add: plan_merge_up_def bmap_ok_def)

theorem rebase_then_merge_up_witness:
  "plan_merge_up [(''a'', ''h1''), (''b'', ''h2'')] (Some ''c2'') (Some ''c2'') True True
     = Certified [(''a'', ''h1''), (''b'', ''h2'')]"
proof -
  have "plan_rebase_down [(''a'', ''h0'')] [(''a'', ''h1'')] [(''a'', ''h0''), (''b'', ''h2'')]
      draft main_line False = Silent [(''a'', ''h1''), (''b'', ''h2'')]"
    by code_simp
  from rebase_then_merge_up [OF this] show ?thesis by blast
qed

end
