(* ===== verification/Glob.thy ===== *)
theory Glob
  imports Whip_Prelude
begin

text \<open>
  The glob matcher of the selection language, \<^verbatim>\<open>glob_matches\<close> of
  \<^verbatim>\<open>crates/whipplescript-core/src/selection.rs\<close>: a two-pointer loop that backtracks to the last star
  only. The loop ends on every input; it is sound for the recursive meaning of a glob, and exact
  for values without a star. On values with a star it is not: the loop compares a pattern byte
  with the value byte before it looks for a star.
\<close>

section \<open>The model\<close>

text \<open>
  The loop state is the pattern position \<open>p\<close>, the value position \<open>v\<close>, the position of the last star
  and the value position to resume from. A \<^verbatim>\<open>return false\<close> inside the loop is \<open>None\<close>; leaving the
  loop gives the pattern position.
\<close>

text \<open>
  The state is in order when the last star lies before the pattern position and the resume
  position not after the value position. Every step from such a state moves the star forward, or
  keeps it and moves the resume position, or keeps both and moves the value position; a step from
  another state moves the value position or reaches such a state.
\<close>

definition in_order :: "nat \<Rightarrow> nat \<Rightarrow> nat option \<Rightarrow> nat \<Rightarrow> bool" where
  "in_order p v star resume \<longleftrightarrow> (case star of None \<Rightarrow> True | Some sp \<Rightarrow> sp < p \<and> resume \<le> v)"

definition glob_rank :: "string \<Rightarrow> string \<Rightarrow> nat \<Rightarrow> nat \<Rightarrow> nat option \<Rightarrow> nat \<Rightarrow> nat list" where
  "glob_rank pattern val p v star resume =
     [if in_order p v star resume then 0 else 1,
      case star of None \<Rightarrow> length pattern + 1 | Some sp \<Rightarrow> length pattern - sp,
      case star of None \<Rightarrow> 0 | Some _ \<Rightarrow> length val - resume,
      length val - v]"

function glob_loop ::
  "string \<Rightarrow> string \<Rightarrow> nat \<Rightarrow> nat \<Rightarrow> nat option \<Rightarrow> nat \<Rightarrow> nat option"
where
  "glob_loop pattern val p v star resume =
     (if v < length val then
        if p < length pattern \<and> (pattern ! p = CHR ''?'' \<or> pattern ! p = val ! v) then
          glob_loop pattern val (p + 1) (v + 1) star resume
        else if p < length pattern \<and> pattern ! p = CHR ''*'' then
          glob_loop pattern val (p + 1) v (Some p) v
        else (case star of
            Some star_p \<Rightarrow>
              glob_loop pattern val (star_p + 1) (resume + 1) star (resume + 1)
          | None \<Rightarrow> None)
      else Some p)"
  by pat_completeness auto
termination
proof (relation "inv_image (lex less_than)
    (\<lambda>(pattern, val, p, v, star, resume). glob_rank pattern val p v star resume)")
  show "wf (inv_image (lex less_than)
      (\<lambda>(pattern, val, p, v, star, resume). glob_rank pattern val p v star resume))"
    by (simp add: wf_lex)
qed (auto simp: glob_rank_def in_order_def split: option.splits)

declare glob_loop.simps [simp del]

function skip_stars :: "string \<Rightarrow> nat \<Rightarrow> nat" where
  "skip_stars pattern p =
     (if p < length pattern \<and> pattern ! p = CHR ''*'' then skip_stars pattern (p + 1) else p)"
  by pat_completeness auto
termination
  by (relation "measure (\<lambda>(pattern, p). length pattern - p)") auto

declare skip_stars.simps [simp del]

definition glob_matches :: "string \<Rightarrow> string \<Rightarrow> bool" where
  "glob_matches pattern val =
     (case glob_loop pattern val 0 0 None 0 of
        None \<Rightarrow> False
      | Some p \<Rightarrow> skip_stars pattern p = length pattern)"

section \<open>The meaning of a glob\<close>

fun glob_spec :: "string \<Rightarrow> string \<Rightarrow> bool" where
  "glob_spec [] val = (val = [])"
| "glob_spec (c # pattern) [] = (c = CHR ''*'' \<and> glob_spec pattern [])"
| "glob_spec (c # pattern) (x # val) =
     (if c = CHR ''*'' then glob_spec pattern (x # val) \<or> glob_spec (c # pattern) val
      else (c = CHR ''?'' \<or> c = x) \<and> glob_spec pattern val)"

lemma glob_spec_star:
  "glob_spec (CHR ''*'' # pattern) val \<longleftrightarrow> (\<exists>n. n \<le> length val \<and> glob_spec pattern (drop n val))"
proof (induction val)
  case (Cons x val)
  have "(\<exists>n. n \<le> length (x # val) \<and> glob_spec pattern (drop n (x # val))) \<longleftrightarrow>
      glob_spec pattern (x # val) \<or> (\<exists>n. n \<le> length val \<and> glob_spec pattern (drop n val))"
    by (metis (no_types, opaque_lifting) Suc_le_mono drop0 drop_Suc_Cons le0 length_Cons not0_implies_Suc)
  then show ?case using Cons by simp
qed auto

lemma glob_spec_star_suffix:
  "glob_spec (CHR ''*'' # pattern) (drop n val) \<Longrightarrow> n \<le> length val \<Longrightarrow>
     glob_spec (CHR ''*'' # pattern) val"
  unfolding glob_spec_star by (metis add.commute drop_drop le_diff_conv2 length_drop)

lemma glob_spec_all_stars: "glob_spec pattern [] \<longleftrightarrow> set pattern \<subseteq> {CHR ''*''}"
  by (induction pattern) auto

text \<open>A segment of a pattern that the loop has matched byte by byte.\<close>

fun segment :: "string \<Rightarrow> string \<Rightarrow> bool" where
  "segment [] [] = True"
| "segment (c # a) (x # b) = (c \<noteq> CHR ''*'' \<and> (c = CHR ''?'' \<or> c = x) \<and> segment a b)"
| "segment _ _ = False"

lemma segment_length: "segment a b \<Longrightarrow> length a = length b"
  by (induction a b rule: segment.induct) auto

lemma segment_snoc:
  "segment a b \<Longrightarrow> c \<noteq> CHR ''*'' \<Longrightarrow> c = CHR ''?'' \<or> c = x \<Longrightarrow> segment (a @ [c]) (b @ [x])"
  by (induction a b rule: segment.induct) auto

lemma segment_append: "segment a b \<Longrightarrow> glob_spec (a @ pattern) (b @ val) \<longleftrightarrow> glob_spec pattern val"
  by (induction a b rule: segment.induct) auto

lemma non_stars_bound: "glob_spec pattern val \<Longrightarrow> length (filter (\<lambda>c. c \<noteq> CHR ''*'') pattern) \<le> length val"
  by (induction pattern val rule: glob_spec.induct) (auto split: if_splits)

lemma segment_no_star: "segment a b \<Longrightarrow> CHR ''*'' \<notin> set a"
  by (induction a b rule: segment.induct) auto

lemma glob_spec_prefix:
  assumes "CHR ''*'' \<notin> set a" and "glob_spec (a @ pattern) val"
  shows "length a \<le> length val \<and> glob_spec pattern (drop (length a) val)"
  using assms
proof (induction a arbitrary: val)
  case (Cons c a)
  then obtain x rest where "val = x # rest" "glob_spec (a @ pattern) rest"
    by (cases val) auto
  then show ?case using Cons by auto
qed simp

text \<open>A matched segment between two stars can be dropped: matching it later only leaves less.\<close>

lemma glob_spec_segment_star:
  assumes seg: "segment a b"
  shows "glob_spec (CHR ''*'' # a @ CHR ''*'' # q) (b @ val) \<longleftrightarrow> glob_spec (CHR ''*'' # q) val"
proof
  assume "glob_spec (CHR ''*'' # q) val"
  then have "glob_spec (a @ CHR ''*'' # q) (b @ val)" using segment_append [OF seg] by simp
  then show "glob_spec (CHR ''*'' # a @ CHR ''*'' # q) (b @ val)"
    unfolding glob_spec_star by (intro exI [of _ 0]) simp
next
  assume "glob_spec (CHR ''*'' # a @ CHR ''*'' # q) (b @ val)"
  then obtain n where n: "n \<le> length (b @ val)"
    and m: "glob_spec (a @ CHR ''*'' # q) (drop n (b @ val))"
    unfolding glob_spec_star by blast
  from glob_spec_prefix [OF segment_no_star [OF seg] m] have
    k: "length a \<le> length (drop n (b @ val))"
      "glob_spec (CHR ''*'' # q) (drop (length a) (drop n (b @ val)))" by blast+
  have "n \<le> length val" using k(1) n segment_length [OF seg] by simp
  moreover have "drop (length a) (drop n (b @ val)) = drop n val"
    by (simp only: drop_drop segment_length [OF seg] add.commute [of "length b"]) simp
  ultimately show "glob_spec (CHR ''*'' # q) val" using k(2) glob_spec_star_suffix by metis
qed

section \<open>The loop computes the meaning\<close>

definition slice :: "'a list \<Rightarrow> nat \<Rightarrow> nat \<Rightarrow> 'a list" where
  "slice xs i j = take (j - i) (drop i xs)"

lemma slice_empty [simp]: "slice xs i i = []"
  by (simp add: slice_def)

lemma slice_snoc: "i \<le> j \<Longrightarrow> j < length xs \<Longrightarrow> slice xs i (Suc j) = slice xs i j @ [xs ! j]"
  by (simp add: slice_def Suc_diff_le take_Suc_conv_app_nth)

lemma slice_append: "i \<le> j \<Longrightarrow> slice xs i j @ drop j xs = drop i xs"
  by (simp add: slice_def) (metis append_take_drop_id drop_drop le_add_diff_inverse2)

text \<open>
  The loop invariant: since the last star (or the start) the bytes of the pattern have matched
  the bytes of the value since the resume position, and the whole question is whether the
  pattern from the last star matches the value from the resume position.
\<close>

definition glob_inv :: "string \<Rightarrow> string \<Rightarrow> nat \<Rightarrow> nat \<Rightarrow> nat option \<Rightarrow> nat \<Rightarrow> bool" where
  "glob_inv pattern val p v star resume \<longleftrightarrow> p \<le> length pattern \<and> v \<le> length val \<and>
     (case star of
        None \<Rightarrow> segment (slice pattern 0 p) (slice val 0 v)
      | Some sp \<Rightarrow> sp < p \<and> resume \<le> v \<and> pattern ! sp = CHR ''*''
          \<and> segment (slice pattern (sp + 1) p) (slice val resume v)
          \<and> (glob_spec (drop sp pattern) (drop resume val) \<longleftrightarrow> glob_spec pattern val))"

lemma drop_at_star:
  assumes "glob_inv pattern val p v (Some sp) resume"
  shows "drop sp pattern = CHR ''*'' # slice pattern (sp + 1) p @ drop p pattern"
    and "drop resume val = slice val resume v @ drop v val"
proof -
  from assms have sp: "sp < p" "p \<le> length pattern" "resume \<le> v" "pattern ! sp = CHR ''*''"
    by (auto simp: glob_inv_def)
  have "drop sp pattern = CHR ''*'' # drop (sp + 1) pattern"
    using sp by (simp flip: Cons_nth_drop_Suc)
  then show "drop sp pattern = CHR ''*'' # slice pattern (sp + 1) p @ drop p pattern"
    using sp slice_append [of "sp + 1" p pattern] by simp
  show "drop resume val = slice val resume v @ drop v val" using sp by (simp add: slice_append)
qed

lemma glob_inv_no_star_spec:
  assumes "glob_inv pattern val p v None resume"
  shows "glob_spec pattern val \<longleftrightarrow> glob_spec (drop p pattern) (drop v val)"
  using assms segment_append [of "slice pattern 0 p" "slice val 0 v" "drop p pattern" "drop v val"]
  by (simp add: glob_inv_def slice_append)

lemma glob_inv_byte:
  assumes "glob_inv pattern val p v star resume" and "CHR ''*'' \<notin> set val"
    and "v < length val" "p < length pattern" "pattern ! p = CHR ''?'' \<or> pattern ! p = val ! v"
  shows "glob_inv pattern val (p + 1) (v + 1) star resume"
proof -
  have "pattern ! p \<noteq> CHR ''*''" using assms(2,3,5) nth_mem by force
  then show ?thesis
    using assms by (auto simp: glob_inv_def slice_snoc segment_snoc split: option.splits)
qed

lemma glob_inv_star:
  assumes inv: "glob_inv pattern val p v star resume" and p: "p < length pattern" "pattern ! p = CHR ''*''"
  shows "glob_inv pattern val (p + 1) v (Some p) v"
proof -
  have "glob_spec (drop p pattern) (drop v val) \<longleftrightarrow> glob_spec pattern val"
  proof (cases star)
    case None
    with inv show ?thesis using glob_inv_no_star_spec by blast
  next
    case (Some sp)
    note at = drop_at_star [OF inv [unfolded Some]]
    have star: "drop p pattern = CHR ''*'' # drop (p + 1) pattern" using p by (simp flip: Cons_nth_drop_Suc)
    have "segment (slice pattern (sp + 1) p) (slice val resume v)"
      using inv Some by (simp add: glob_inv_def)
    from glob_spec_segment_star [OF this, of "drop (p + 1) pattern" "drop v val"]
    have "glob_spec (drop sp pattern) (drop resume val) \<longleftrightarrow> glob_spec (drop p pattern) (drop v val)"
      by (simp add: at star)
    then show ?thesis using inv Some by (simp add: glob_inv_def)
  qed
  then show ?thesis using inv p by (simp add: glob_inv_def)
qed

lemma mismatch_spec:
  assumes "v < length val"
    and "\<not> (p < length pattern \<and> (pattern ! p = CHR ''?'' \<or> pattern ! p = val ! v))"
    and "\<not> (p < length pattern \<and> pattern ! p = CHR ''*'')"
  shows "\<not> glob_spec (drop p pattern) (drop v val)"
proof (cases "p < length pattern")
  case True
  then have "drop p pattern = pattern ! p # drop (p + 1) pattern" "drop v val = val ! v # drop (v + 1) val"
    using assms(1) by (simp_all add: Cons_nth_drop_Suc)
  then show ?thesis using assms True by simp
qed (use assms in simp)

lemma glob_inv_backtrack:
  assumes inv: "glob_inv pattern val p v (Some sp) resume" and v: "v < length val"
    and no: "\<not> glob_spec (drop p pattern) (drop v val)"
  shows "glob_inv pattern val (sp + 1) (resume + 1) (Some sp) (resume + 1)"
proof -
  note at = drop_at_star [OF inv]
  have seg: "segment (slice pattern (sp + 1) p) (slice val resume v)" and r: "resume < length val"
    using inv v by (simp_all add: glob_inv_def)
  have x: "drop resume val = val ! resume # drop (resume + 1) val" using r by (simp add: Cons_nth_drop_Suc)
  have "\<not> glob_spec (slice pattern (sp + 1) p @ drop p pattern) (drop resume val)"
    using segment_append [OF seg] no unfolding at(2) by simp
  then have "glob_spec (drop sp pattern) (drop resume val) \<longleftrightarrow>
      glob_spec (drop sp pattern) (drop (resume + 1) val)"
    unfolding at(1) x by simp
  then show ?thesis using inv r by (auto simp: glob_inv_def)
qed

lemma glob_inv_exit:
  assumes inv: "glob_inv pattern val p v star resume" and v: "\<not> v < length val"
  shows "set (drop p pattern) \<subseteq> {CHR ''*''} \<longleftrightarrow> glob_spec pattern val"
proof (cases star)
  case None
  with inv v show ?thesis by (simp add: glob_inv_no_star_spec glob_spec_all_stars)
next
  case (Some sp)
  note at = drop_at_star [OF inv [unfolded Some]]
  let ?a = "slice pattern (sp + 1) p" and ?b = "slice val resume v"
  have seg: "segment ?a ?b" using inv Some by (simp add: glob_inv_def)
  have "set (drop p pattern) \<subseteq> {CHR ''*''}" if "glob_spec (CHR ''*'' # ?a @ drop p pattern) ?b"
  proof -
    have "filter (\<lambda>c. c \<noteq> CHR ''*'') ?a = ?a" using segment_no_star [OF seg] by (auto simp: filter_id_conv)
    with non_stars_bound [OF that] have "filter (\<lambda>c. c \<noteq> CHR ''*'') (drop p pattern) = []"
      using segment_length [OF seg] by simp
    then show ?thesis by (auto simp: filter_empty_conv)
  qed
  moreover have "glob_spec (CHR ''*'' # ?a @ drop p pattern) ?b" if "set (drop p pattern) \<subseteq> {CHR ''*''}"
    using segment_append [OF seg, of "drop p pattern" "[]"] that
    unfolding glob_spec_star by (intro exI [of _ 0]) (simp add: glob_spec_all_stars)
  ultimately show ?thesis using inv Some v at by (auto simp: glob_inv_def)
qed

lemma glob_loop_correct:
  assumes "CHR ''*'' \<notin> set val" and "glob_inv pattern val p v star resume"
  shows "(case glob_loop pattern val p v star resume of
      None \<Rightarrow> False | Some p' \<Rightarrow> p' \<le> length pattern \<and> set (drop p' pattern) \<subseteq> {CHR ''*''})
    \<longleftrightarrow> glob_spec pattern val"
  using assms
proof (induction pattern val p v star resume rule: glob_loop.induct)
  case (1 pattern val p v star resume)
  let ?byte = "p < length pattern \<and> (pattern ! p = CHR ''?'' \<or> pattern ! p = val ! v)"
  let ?star = "p < length pattern \<and> pattern ! p = CHR ''*''"
  consider "\<not> v < length val" | "v < length val" ?byte | "v < length val" "\<not> ?byte" ?star
    | "v < length val" "\<not> ?byte" "\<not> ?star" by blast
  then show ?case
  proof cases
    case 1
    with "1.prems"(2) show ?thesis
      using glob_inv_exit [OF "1.prems"(2)] by (simp add: glob_loop.simps glob_inv_def)
  next
    case 2
    then show ?thesis
      using "1.IH"(1) "1.prems" glob_inv_byte [OF "1.prems"(2,1)] by (subst glob_loop.simps) auto
  next
    case 3
    then show ?thesis
      using "1.IH"(2) "1.prems" glob_inv_star [OF "1.prems"(2)] by (subst glob_loop.simps) auto
  next
    case 4
    note no = mismatch_spec [OF 4]
    show ?thesis
    proof (cases star)
      case None
      then show ?thesis
        using 4 no "1.prems" glob_inv_no_star_spec by (subst glob_loop.simps) auto
    next
      case (Some sp)
      then show ?thesis
        using 4 "1.IH"(3) "1.prems" glob_inv_backtrack [OF _ 4(1) no] by (subst glob_loop.simps) auto
    qed
  qed
qed

lemma skip_stars_le: "skip_stars pattern p = length pattern \<Longrightarrow> p \<le> length pattern"
proof (induction pattern p rule: skip_stars.induct)
  case (1 pattern p)
  then show ?case by (cases "p < length pattern") (auto simp: skip_stars.simps [of pattern p])
qed

lemma skip_stars_drop:
  "p \<le> length pattern \<Longrightarrow> skip_stars pattern p = length pattern \<longleftrightarrow> set (drop p pattern) \<subseteq> {CHR ''*''}"
proof (induction pattern p rule: skip_stars.induct)
  case (1 pattern p)
  show ?case
  proof (cases "p < length pattern")
    case True
    then have "drop p pattern = pattern ! p # drop (p + 1) pattern" by (simp add: Cons_nth_drop_Suc)
    then show ?thesis using 1 True by (subst skip_stars.simps) auto
  qed (use 1 in \<open>simp add: skip_stars.simps\<close>)
qed

lemma skip_stars_iff:
  "skip_stars pattern p = length pattern \<longleftrightarrow>
     p \<le> length pattern \<and> set (drop p pattern) \<subseteq> {CHR ''*''}"
  using skip_stars_drop skip_stars_le by blast

lemma glob_spec_star_skip: "glob_spec pattern val \<Longrightarrow> glob_spec (CHR ''*'' # pattern) val"
  unfolding glob_spec_star by (intro exI [of _ 0]) simp

text \<open>
  Soundness needs no assumption on the value: whatever the loop accepts from a state, the rest of
  the pattern, or the pattern from the last star on, describes.
\<close>

lemma glob_loop_sound:
  assumes "glob_loop pattern val p v star resume = Some p'"
    and "p' \<le> length pattern" "set (drop p' pattern) \<subseteq> {CHR ''*''}"
    and "\<And>sp. star = Some sp \<Longrightarrow> sp < length pattern \<and> pattern ! sp = CHR ''*''"
  shows "glob_spec (drop p pattern) (drop v val) \<or>
    (\<exists>sp. star = Some sp \<and> glob_spec (drop sp pattern) (drop resume val))"
  using assms
proof (induction pattern val p v star resume rule: glob_loop.induct)
  case (1 pattern val p v star resume)
  let ?byte = "p < length pattern \<and> (pattern ! p = CHR ''?'' \<or> pattern ! p = val ! v)"
  let ?star = "p < length pattern \<and> pattern ! p = CHR ''*''"
  have step: "drop p pattern = pattern ! p # drop (p + 1) pattern" if "p < length pattern"
    using that by (simp add: Cons_nth_drop_Suc)
  have val: "drop v val = val ! v # drop (v + 1) val" if "v < length val"
    using that by (simp add: Cons_nth_drop_Suc)
  consider "\<not> v < length val" | "v < length val" ?byte | "v < length val" "\<not> ?byte" ?star
    | "v < length val" "\<not> ?byte" "\<not> ?star" by blast
  then show ?case
  proof cases
    case 1
    then show ?thesis using "1.prems" by (simp add: glob_loop.simps glob_spec_all_stars)
  next
    case 2
    then have "glob_loop pattern val (p + 1) (v + 1) star resume = Some p'"
      using "1.prems"(1) by (simp add: glob_loop.simps [of pattern val p])
    from "1.IH"(1) [OF 2 this "1.prems"(2,3,4)] show ?thesis
      using 2 step val by (auto simp: glob_spec_star_skip)
  next
    case 3
    then have "glob_loop pattern val (p + 1) v (Some p) v = Some p'"
      using "1.prems"(1) by (simp add: glob_loop.simps [of pattern val p])
    from "1.IH"(2) [OF 3 this "1.prems"(2,3)] show ?thesis
      using 3 step val by auto
  next
    case 4
    then obtain sp where sp: "star = Some sp"
        "glob_loop pattern val (sp + 1) (resume + 1) star (resume + 1) = Some p'"
      using "1.prems"(1) by (auto simp: glob_loop.simps [of pattern val p] split: option.splits)
    from "1.prems"(4) [OF sp(1)] have at: "drop sp pattern = CHR ''*'' # drop (sp + 1) pattern"
      by (metis Cons_nth_drop_Suc Suc_eq_plus1)
    from "1.IH"(3) [OF 4 sp(1) sp(2) "1.prems"(2,3,4)]
    have "glob_spec (drop sp pattern) (drop (resume + 1) val)"
      using sp(1) by (auto simp: at glob_spec_star_skip)
    then have "glob_spec (drop sp pattern) (drop resume val)"
      unfolding at using glob_spec_star_suffix [of _ 1 "drop resume val"]
      by (cases "resume < length val") simp_all
    then show ?thesis using sp(1) by blast
  qed
qed

lemma glob_sound: "glob_matches pattern val \<Longrightarrow> glob_spec pattern val"
  using glob_loop_sound [of pattern val 0 0 None 0]
  by (auto simp: glob_matches_def skip_stars_iff split: option.splits)

section \<open>Theorems\<close>

text \<open>
  C33. The two-pointer loop decides the meaning of a glob, with a star for any bytes and a
  question mark for one: what it accepts the glob describes, and on values without a star it
  accepts everything the glob describes.
\<close>

theorem glob_matches_correct:
  "(glob_matches pattern val \<longrightarrow> glob_spec pattern val)
    \<and> (CHR ''*'' \<notin> set val \<longrightarrow> (glob_matches pattern val \<longleftrightarrow> glob_spec pattern val))"
proof (intro conjI impI)
  show "glob_spec pattern val" if "glob_matches pattern val"
    using that by (rule glob_sound)
  have inv: "glob_inv pattern val 0 0 None 0" by (simp add: glob_inv_def)
  show "glob_matches pattern val \<longleftrightarrow> glob_spec pattern val" if "CHR ''*'' \<notin> set val"
    using glob_loop_correct [OF that inv]
    by (auto simp: glob_matches_def skip_stars_iff split: option.splits)
qed

theorem glob_matches_correct_witness:
  "glob_matches ''src/*.r?'' ''src/a/b.rs'' \<longleftrightarrow> glob_spec ''src/*.r?'' ''src/a/b.rs''"
  using glob_matches_correct [of "''src/*.r?''" "''src/a/b.rs''"] by simp

text \<open>
  On a value that contains a star the matcher refuses values the glob describes: the pattern
  of a single star does not match the value \<^verbatim>\<open>*a\<close>, because the star of the value is first taken as a
  literal match of the star of the pattern, which is then not recorded for backtracking.
\<close>

theorem glob_star_refuses_starred_value:
  "\<not> glob_matches ''*'' ''*a'' \<and> glob_spec ''*'' ''*a''"
  by (simp add: glob_matches_def glob_loop.simps)

end
