(* ===== verification/Selection.thy ===== *)
theory Selection
  imports Glob
begin

text \<open>
  The selection algebra over recorded change-units, \<^verbatim>\<open>crates/whipplescript-core/src/selection.rs\<close>:
  expressions, their evaluation, the stranding check of a selective undo, and the expansion and
  the position check of named regions. The lemmas show that evaluation stays in the universe, that
  a dependence-closed selection strands nothing, that expansion leaves no region atom and means
  what substituting the regions means, and that a well-formed region depends on the world only.
\<close>

section \<open>Expressions\<close>

record decl_unit =
  identity :: string
  before_canon :: "string option"
  after_canon :: "string option"

record change_unit =
  seq :: nat
  cut_id :: string
  change_id :: string
  branch_id :: string
  path :: string
  before :: "string option"
  after :: "string option"
  origin :: "string option"
  actor :: "string option"
  intent :: "string option"
  recorded_at :: string
  decls :: "decl_unit list"

datatype sel_expr =
  SelUnion sel_expr sel_expr
| SelIntersect sel_expr sel_expr
| SelDifference sel_expr sel_expr
| Atom sel_atom
and sel_atom =
  Path string
| ByEffect string
| ByOrigin string
| ByActor string
| ByIntent string
| Decl string
| InBranch string
| Change string
| Cut string
| Since string
| Until string
| DependentsOf sel_expr
| Region string

section \<open>Evaluation\<close>

text \<open>The indices of the universe whose unit the predicate holds for.\<close>

definition pick :: "(change_unit \<Rightarrow> bool) \<Rightarrow> change_unit list \<Rightarrow> nat set" where
  "pick predicate universe = set (filter (\<lambda>index. predicate (universe ! index)) [0..<length universe])"

definition opt_starts_with :: "string option \<Rightarrow> string \<Rightarrow> bool" where
  "opt_starts_with field pfx = (case field of None \<Rightarrow> False | Some s \<Rightarrow> starts_with s pfx)"

text \<open>A later unit on the path of an earlier one: the conservative dependence of the code.\<close>

definition depends_on :: "change_unit \<Rightarrow> change_unit \<Rightarrow> bool" where
  "depends_on later earlier \<longleftrightarrow> path later = path earlier \<and> seq earlier < seq later"

fun eval :: "sel_expr \<Rightarrow> change_unit list \<Rightarrow> nat set"
  and eval_atom :: "sel_atom \<Rightarrow> change_unit list \<Rightarrow> nat set"
where
  "eval (SelUnion a b) universe = eval a universe \<union> eval b universe"
| "eval (SelIntersect a b) universe = eval a universe \<inter> eval b universe"
| "eval (SelDifference a b) universe = eval a universe - eval b universe"
| "eval (Atom atom) universe = eval_atom atom universe"
| "eval_atom (Path glob) universe = pick (\<lambda>unit. glob_matches glob (path unit)) universe"
| "eval_atom (ByEffect pfx) universe = pick (\<lambda>unit. starts_with (cut_id unit) pfx) universe"
| "eval_atom (ByOrigin pfx) universe = pick (\<lambda>unit. opt_starts_with (origin unit) pfx) universe"
| "eval_atom (ByActor pfx) universe = pick (\<lambda>unit. opt_starts_with (actor unit) pfx) universe"
| "eval_atom (ByIntent pfx) universe = pick (\<lambda>unit. opt_starts_with (intent unit) pfx) universe"
| "eval_atom (Decl glob) universe =
     pick (\<lambda>unit. list_ex (\<lambda>decl. glob_matches glob (identity decl)) (decls unit)) universe"
| "eval_atom (InBranch branch) universe = pick (\<lambda>unit. branch_id unit = branch) universe"
| "eval_atom (Change change) universe = pick (\<lambda>unit. change_id unit = change) universe"
| "eval_atom (Cut c) universe = pick (\<lambda>unit. cut_id unit = c) universe"
| "eval_atom (Since stamp) universe = pick (\<lambda>unit. stamp \<le> recorded_at unit) universe"
| "eval_atom (Until stamp) universe = pick (\<lambda>unit. recorded_at unit \<le> stamp) universe"
| "eval_atom (Region _) universe = {}"
| "eval_atom (DependentsOf inner) universe =
     (let seeds = eval inner universe
      in seeds \<union> (\<Union>seed\<in>seeds. pick (\<lambda>unit. depends_on unit (universe ! seed)) universe))"

text \<open>
  The stranding check indexes the universe with every selected position; a position out of range
  panics, which is \<open>None\<close>.
\<close>

definition stranded_by_undo :: "nat set \<Rightarrow> change_unit list \<Rightarrow> nat set option" where
  "stranded_by_undo selected universe =
     (if \<forall>chosen\<in>selected. chosen < length universe then
        Some (\<Union>chosen\<in>selected.
          pick (\<lambda>unit. depends_on unit (universe ! chosen)) universe - selected)
      else None)"

section \<open>Regions\<close>

fun contains_region_atom :: "sel_expr \<Rightarrow> string option" where
  "contains_region_atom (SelUnion a b) =
     (case contains_region_atom a of Some name \<Rightarrow> Some name | None \<Rightarrow> contains_region_atom b)"
| "contains_region_atom (SelIntersect a b) =
     (case contains_region_atom a of Some name \<Rightarrow> Some name | None \<Rightarrow> contains_region_atom b)"
| "contains_region_atom (SelDifference a b) =
     (case contains_region_atom a of Some name \<Rightarrow> Some name | None \<Rightarrow> contains_region_atom b)"
| "contains_region_atom (Atom (Region name)) = Some name"
| "contains_region_atom (Atom (DependentsOf inner)) = contains_region_atom inner"
| "contains_region_atom (Atom _) = None"

definition too_nested :: message where
  "too_nested = Format ''region expansion is nested too deeply'' []"

definition undeclared :: "string \<Rightarrow> message" where
  "undeclared name = Format ''`region({})` names no declared region'' [name]"

text \<open>
  The local function \<^verbatim>\<open>walk\<close> of \<^verbatim>\<open>expand_regions\<close>. Its recursion into an expansion is bounded by the
  depth, not by the expression.
\<close>

function (sequential) expand_walk ::
  "sel_expr \<Rightarrow> (string \<Rightarrow> sel_expr option) \<Rightarrow> nat \<Rightarrow> (sel_expr, message) result"
where
  "expand_walk (SelUnion a b) lookup depth =
     (if depth > 8 then Err too_nested
      else and_then (expand_walk a lookup depth) (\<lambda>a'.
        and_then (expand_walk b lookup depth) (\<lambda>b'. Ok (SelUnion a' b'))))"
| "expand_walk (SelIntersect a b) lookup depth =
     (if depth > 8 then Err too_nested
      else and_then (expand_walk a lookup depth) (\<lambda>a'.
        and_then (expand_walk b lookup depth) (\<lambda>b'. Ok (SelIntersect a' b'))))"
| "expand_walk (SelDifference a b) lookup depth =
     (if depth > 8 then Err too_nested
      else and_then (expand_walk a lookup depth) (\<lambda>a'.
        and_then (expand_walk b lookup depth) (\<lambda>b'. Ok (SelDifference a' b'))))"
| "expand_walk (Atom (Region name)) lookup depth =
     (if depth > 8 then Err too_nested
      else case lookup name of
        None \<Rightarrow> Err (undeclared name)
      | Some expansion \<Rightarrow> expand_walk expansion lookup (depth + 1))"
| "expand_walk (Atom (DependentsOf inner)) lookup depth =
     (if depth > 8 then Err too_nested
      else and_then (expand_walk inner lookup depth) (\<lambda>inner'. Ok (Atom (DependentsOf inner'))))"
| "expand_walk (Atom atom) lookup depth = (if depth > 8 then Err too_nested else Ok (Atom atom))"
  by pat_completeness auto
termination
  by (relation "inv_image (less_than <*lex*> less_than) (\<lambda>(expr, lookup, depth). (9 - depth, size expr))")
    auto

definition expand_regions ::
  "sel_expr \<Rightarrow> (string \<Rightarrow> sel_expr option) \<Rightarrow> (sel_expr, message) result"
where
  "expand_regions expr lookup = expand_walk expr lookup 0"

fun region_position_violations :: "sel_expr \<Rightarrow> string list" where
  "region_position_violations (SelUnion a b) = region_position_violations a @ region_position_violations b"
| "region_position_violations (SelIntersect a b) = region_position_violations a @ region_position_violations b"
| "region_position_violations (SelDifference a b) = region_position_violations a @ region_position_violations b"
| "region_position_violations (Atom (Path _)) = []"
| "region_position_violations (Atom (Decl _)) = []"
| "region_position_violations (Atom (ByEffect _)) = [''by-effect'']"
| "region_position_violations (Atom (ByOrigin _)) = [''by-origin'']"
| "region_position_violations (Atom (ByActor _)) = [''by'']"
| "region_position_violations (Atom (ByIntent _)) = [''intent'']"
| "region_position_violations (Atom (InBranch _)) = [''in-branch'']"
| "region_position_violations (Atom (Change _)) = [''change'']"
| "region_position_violations (Atom (Cut _)) = [''cut'']"
| "region_position_violations (Atom (Since _)) = [''since'']"
| "region_position_violations (Atom (Until _)) = [''until'']"
| "region_position_violations (Atom (Region _)) = [''region'']"
| "region_position_violations (Atom (DependentsOf _)) = [''dependents-of'']"

section \<open>Evaluation stays in the universe\<close>

lemma pick_iff: "i \<in> pick P universe \<longleftrightarrow> i < length universe \<and> P (universe ! i)"
  by (simp add: pick_def)

lemma eval_bound: "eval e universe \<subseteq> {..<length universe}"
  and eval_atom_bound: "eval_atom a universe \<subseteq> {..<length universe}"
  by (induction e universe and a universe rule: eval_eval_atom.induct)
    (auto simp: pick_iff Let_def)

lemma depends_on_trans: "depends_on c b \<Longrightarrow> depends_on b a \<Longrightarrow> depends_on c a"
  by (auto simp: depends_on_def)

text \<open>A selection that contains every later unit on the path of a selected one.\<close>

definition closed :: "nat set \<Rightarrow> change_unit list \<Rightarrow> bool" where
  "closed S universe \<longleftrightarrow> (\<forall>i j. i \<in> S \<longrightarrow> j < length universe \<longrightarrow>
     depends_on (universe ! j) (universe ! i) \<longrightarrow> j \<in> S)"

lemma dependents_closed: "closed (eval (Atom (DependentsOf e)) universe) universe"
  using depends_on_trans by (fastforce simp: closed_def pick_iff Let_def)

lemma stranded_iff:
  "stranded_by_undo S universe = Some {} \<longleftrightarrow> S \<subseteq> {..<length universe} \<and> closed S universe"
  by (auto simp: stranded_by_undo_def closed_def pick_iff subset_iff)

section \<open>Expansion of regions\<close>

lemma or_else_None:
  "(case x of Some a \<Rightarrow> Some a | None \<Rightarrow> y) = None \<longleftrightarrow> x = None \<and> y = None"
  by (cases x) auto

lemma expand_walk_leaves_no_region:
  "expand_walk e lookup d = Ok e' \<Longrightarrow> contains_region_atom e' = None"
  by (induction e lookup d arbitrary: e' rule: expand_walk.induct)
    (auto simp: res_simps or_else_None split: if_splits option.splits)

lemma expand_walk_no_region:
  "contains_region_atom e = None \<Longrightarrow> d \<le> 8 \<Longrightarrow> expand_walk e lookup d = Ok e"
  by (induction e lookup d rule: expand_walk.induct) (auto simp: or_else_None)

lemma well_formed_no_region: "region_position_violations e = [] \<Longrightarrow> contains_region_atom e = None"
  by (induction e rule: region_position_violations.induct) (auto simp: or_else_None)

text \<open>What expansion means: each region atom replaced by the expression the region declares.\<close>

fun substitute :: "(string \<Rightarrow> sel_expr option) \<Rightarrow> sel_expr \<Rightarrow> sel_expr" where
  "substitute lookup (SelUnion a b) = SelUnion (substitute lookup a) (substitute lookup b)"
| "substitute lookup (SelIntersect a b) = SelIntersect (substitute lookup a) (substitute lookup b)"
| "substitute lookup (SelDifference a b) = SelDifference (substitute lookup a) (substitute lookup b)"
| "substitute lookup (Atom (Region name)) = the (lookup name)"
| "substitute lookup (Atom (DependentsOf inner)) = Atom (DependentsOf (substitute lookup inner))"
| "substitute lookup (Atom a) = Atom a"

text \<open>The region names of an expression, from left to right.\<close>

fun region_names :: "sel_expr \<Rightarrow> string list" where
  "region_names (SelUnion a b) = region_names a @ region_names b"
| "region_names (SelIntersect a b) = region_names a @ region_names b"
| "region_names (SelDifference a b) = region_names a @ region_names b"
| "region_names (Atom (Region name)) = [name]"
| "region_names (Atom (DependentsOf inner)) = region_names inner"
| "region_names (Atom _) = []"

lemma find_append_case:
  "find P (xs @ ys) = (case find P xs of Some x \<Rightarrow> Some x | None \<Rightarrow> find P ys)"
  by (induction xs) auto

lemma expand_walk_substitutes:
  assumes "\<And>name r. lookup name = Some r \<Longrightarrow> region_position_violations r = []" and "d \<le> 7"
  shows "expand_walk e lookup d =
    (case find (\<lambda>name. lookup name = None) (region_names e) of
       Some name \<Rightarrow> Err (undeclared name)
     | None \<Rightarrow> Ok (substitute lookup e))"
  using assms
proof (induction e lookup d rule: expand_walk.induct)
  case (4 name lookup d)
  show ?case
    using "4.prems" expand_walk_no_region [OF well_formed_no_region, of _ "d + 1" lookup]
    by (cases "lookup name") auto
qed (auto simp: find_append_case split: option.splits)

section \<open>Theorems\<close>

text \<open>
  Undoing a dependence-closed selection strands nothing: the closure \<^verbatim>\<open>dependents-of(e)\<close> of any
  expression selects positions of the universe only, and the stranding check on it returns the
  empty set.
\<close>

theorem dependents_of_strands_nothing:
  "stranded_by_undo (eval (Atom (DependentsOf e)) universe) universe = Some {}"
  unfolding stranded_iff using eval_bound dependents_closed by blast

text \<open>
  Expansion leaves no region name behind: whatever the lookup answers, an expansion that
  succeeds has no region atom, so evaluating it never selects nothing for an unresolved name.
\<close>

theorem expansion_is_region_free:
  assumes "expand_regions e lookup = Ok e'"
  shows "contains_region_atom e' = None"
  using assms unfolding expand_regions_def by (rule expand_walk_leaves_no_region)

text \<open>
  With well-formed declared regions, expansion is substitution: it fails exactly when a
  region atom names no declared region, with the first such name, and otherwise replaces each
  region atom by the declared expression. The nesting bound is never reached.
\<close>

theorem expansion_is_substitution:
  assumes "\<And>name r. lookup name = Some r \<Longrightarrow> region_position_violations r = []"
  shows "expand_regions e lookup =
    (case find (\<lambda>name. lookup name = None) (region_names e) of
       Some name \<Rightarrow> Err (undeclared name)
     | None \<Rightarrow> Ok (substitute lookup e))"
  unfolding expand_regions_def by (rule expand_walk_substitutes) (use assms in auto)

text \<open>
  A well-formed region denotes the world and not its history: whether it selects a unit
  depends only on the unit's path and declarations, whatever cut, branch, actor, intent or time
  recorded it.
\<close>

theorem region_ignores_history:
  assumes "region_position_violations e = []"
    and "\<And>u. path (f u) = path u" and "\<And>u. decls (f u) = decls u"
  shows "eval e (map f universe) = eval e universe"
  using assms(1)
  by (induction e rule: region_position_violations.induct) (auto simp: pick_iff assms(2,3))

section \<open>Witnesses\<close>

abbreviation sample_unit :: "nat \<Rightarrow> string \<Rightarrow> change_unit" where
  "sample_unit n p \<equiv> \<lparr>seq = n, cut_id = ''c'', change_id = ''ch'', branch_id = ''b'', path = p,
     before = None, after = Some ''h'', origin = None, actor = None, intent = None,
     recorded_at = ''t'', decls = []\<rparr>"

abbreviation sample_lookup :: "string \<Rightarrow> sel_expr option" where
  "sample_lookup \<equiv> [''docs'' \<mapsto> Atom (Path ''docs/*'')]"

theorem expansion_is_region_free_witness:
  "contains_region_atom (SelUnion (Atom (Path ''docs/*'')) (Atom (Cut ''c''))) = None"
  by (rule expansion_is_region_free [where e = "SelUnion (Atom (Region ''docs'')) (Atom (Cut ''c''))"
      and lookup = sample_lookup])
    (simp add: expand_regions_def)

theorem expansion_is_substitution_witness:
  "expand_regions (SelUnion (Atom (Region ''docs'')) (Atom (Region ''tests''))) sample_lookup
     = Err (undeclared ''tests'')"
proof -
  have wf: "region_position_violations r = []" if "sample_lookup name = Some r" for name r
    using that by (auto split: if_splits)
  show ?thesis
    using expansion_is_substitution [where lookup = sample_lookup
        and e = "SelUnion (Atom (Region ''docs'')) (Atom (Region ''tests''))", OF wf]
    by simp
qed

theorem region_ignores_history_witness:
  "eval (Atom (Path ''docs/*'')) (map (\<lambda>u. u\<lparr>branch_id := ''other'', seq := 7\<rparr>) [sample_unit 1 ''docs/a''])
     = eval (Atom (Path ''docs/*'')) [sample_unit 1 ''docs/a'']"
  by (rule region_ignores_history) simp_all

end
