(* ===== verification/Selection_Parser.thy ===== *)
theory Selection_Parser
  imports Selection
begin

text \<open>
  The parser and the renderer of selection expressions, \<^verbatim>\<open>parse\<close>, \<^verbatim>\<open>Parser\<close> and \<^verbatim>\<open>render\<close> of
  \<^verbatim>\<open>crates/whipplescript-core/src/selection.rs\<close>. The parser returns on every input, and a rendered
  expression parses back to itself as long as its nesting stays within the parser's bound, and is
  refused beyond it.

  The three precedence levels share one loop, \<open>chain\<close>, which carries fuel: \<open>None\<close> is the value of
  a loop that has run out of it. One more than the length of the rest is enough, since every
  iteration consumes a byte; \<open>parse_total\<close> proves it, so \<open>None\<close> is never the value of \<open>parse\<close>.
\<close>

section \<open>The parser\<close>

type_synonym parsed = "(sel_expr \<times> string, message) result option"

definition skip_ws :: "string \<Rightarrow> string" where
  "skip_ws rest = trim_start rest"

text \<open>Whether the token was there, and the rest: white space is skipped in both cases.\<close>

definition eat :: "char \<Rightarrow> string \<Rightarrow> bool \<times> string" where
  "eat token rest =
     (case skip_ws rest of
        [] \<Rightarrow> (False, [])
      | c # stripped \<Rightarrow> if c = token then (True, stripped) else (False, c # stripped))"

definition parse_then :: "parsed \<Rightarrow> (sel_expr \<Rightarrow> string \<Rightarrow> parsed) \<Rightarrow> parsed" where
  "parse_then r f =
     (case r of
        None \<Rightarrow> None
      | Some (Inl m) \<Rightarrow> Some (Inl m)
      | Some (Inr (e, rest)) \<Rightarrow> f e rest)"

text \<open>The loop \<^verbatim>\<open>while self.eat(token) { let right = sub()?; left = op(left, right); }\<close>.\<close>

fun chain ::
  "nat \<Rightarrow> char \<Rightarrow> (sel_expr \<Rightarrow> sel_expr \<Rightarrow> sel_expr) \<Rightarrow> (string \<Rightarrow> parsed) \<Rightarrow> sel_expr \<Rightarrow> string \<Rightarrow> parsed"
where
  "chain 0 token op sub left rest = None"
| "chain (Suc fuel) token op sub left rest =
     (case eat token rest of
        (False, rest') \<Rightarrow> Some (Ok (left, rest'))
      | (True, rest') \<Rightarrow>
          parse_then (sub rest') (\<lambda>right rest''. chain fuel token op sub (op left right) rest''))"

definition inter :: "(string \<Rightarrow> parsed) \<Rightarrow> string \<Rightarrow> parsed" where
  "inter prim rest =
     parse_then (prim rest) (\<lambda>left r. chain (Suc (length r)) (CHR ''&'') SelIntersect prim left r)"

definition diff :: "(string \<Rightarrow> parsed) \<Rightarrow> string \<Rightarrow> parsed" where
  "diff prim rest =
     parse_then (inter prim rest)
       (\<lambda>left r. chain (Suc (length r)) (CHR ''~'') SelDifference (inter prim) left r)"

definition expr :: "(string \<Rightarrow> parsed) \<Rightarrow> string \<Rightarrow> parsed" where
  "expr prim rest =
     parse_then (diff prim rest)
       (\<lambda>left r. chain (Suc (length r)) (CHR ''|'') SelUnion (diff prim) left r)"

definition name_char :: "char \<Rightarrow> bool" where
  "name_char c \<longleftrightarrow>
     (CHR ''a'' \<le> c \<and> c \<le> CHR ''z'') \<or> (CHR ''A'' \<le> c \<and> c \<le> CHR ''Z'')
     \<or> (CHR ''0'' \<le> c \<and> c \<le> CHR ''9'') \<or> c = CHR ''-'' \<or> c = CHR ''_''"

definition atom_of :: "string \<Rightarrow> string \<Rightarrow> (sel_atom, message) result" where
  "atom_of name arg =
     (if name = ''path'' then Ok (Path arg)
      else if name = ''by-effect'' then Ok (ByEffect arg)
      else if name = ''by-origin'' then Ok (ByOrigin arg)
      else if name = ''by'' then Ok (ByActor arg)
      else if name = ''intent'' then Ok (ByIntent arg)
      else if name = ''decl'' then Ok (Decl arg)
      else if name = ''in-branch'' then Ok (InBranch arg)
      else if name = ''change'' then Ok (Change arg)
      else if name = ''cut'' then Ok (Cut arg)
      else if name = ''since'' then Ok (Since arg)
      else if name = ''until'' then Ok (Until arg)
      else if name = ''region'' then Ok (Region arg)
      else Err (Format ''unknown selection atom `{}`'' [name]))"

text \<open>A closing parenthesis after a nested expression.\<close>

definition close :: "sel_expr \<Rightarrow> string \<Rightarrow> parsed" where
  "close e rest =
     (case eat (CHR '')'') rest of
        (True, rest') \<Rightarrow> Some (Ok (e, rest'))
      | (False, rest') \<Rightarrow> Some (Err (Format ''expected `)` at `{}`'' [rest'])))"

definition prim_inner :: "(string \<Rightarrow> parsed) \<Rightarrow> string \<Rightarrow> parsed" where
  "prim_inner sub rest =
     (case eat (CHR ''('') (skip_ws rest) of
        (True, r) \<Rightarrow> parse_then (sub r) close
      | (False, r) \<Rightarrow>
          let name = takeWhile name_char r; r1 = dropWhile name_char r
          in if name = [] then Some (Err (Format ''expected a selection atom at `{}`'' [r]))
             else case eat (CHR ''('') r1 of
               (False, _) \<Rightarrow> Some (Err (Format ''expected `(` after `{}`'' [name]))
             | (True, r2) \<Rightarrow>
                 if name = ''dependents-of'' then
                   parse_then (sub r2) (\<lambda>inner r3. close (Atom (DependentsOf inner)) r3)
                 else case split_once (CHR '')'') r2 of
                   None \<Rightarrow> Some (Err (Format ''unterminated `{}(`'' [name]))
                 | Some (arg, r3) \<Rightarrow>
                     (case atom_of name (trim arg) of
                        Inl m \<Rightarrow> Some (Err m)
                      | Inr a \<Rightarrow> Some (Ok (Atom a, r3))))"

definition MAX_SELECTION_DEPTH :: nat where
  "MAX_SELECTION_DEPTH = 256"

definition too_deep :: message where
  "too_deep = Format ''selection expression is nested too deeply (limit {})'' [show_nat MAX_SELECTION_DEPTH]"

text \<open>
  \<^verbatim>\<open>prim\<close> by the levels that remain below \<^verbatim>\<open>MAX_SELECTION_DEPTH\<close>: the depth counter of the code is
  the bound minus this number.
\<close>

primrec prim :: "nat \<Rightarrow> string \<Rightarrow> parsed" where
  "prim 0 = (\<lambda>rest. Some (Err too_deep))"
| "prim (Suc levels) = (\<lambda>rest. prim_inner (expr (prim levels)) rest)"

definition parse :: "string \<Rightarrow> (sel_expr, message) result option" where
  "parse input =
     (case expr (prim MAX_SELECTION_DEPTH) (trim input) of
        None \<Rightarrow> None
      | Some (Inl m) \<Rightarrow> Some (Err m)
      | Some (Inr (e, rest)) \<Rightarrow>
          if rest \<noteq> [] then Some (Err (Format ''unexpected trailing input: `{}`'' [rest]))
          else Some (Ok e))"

fun render :: "sel_expr \<Rightarrow> string" and render_atom :: "sel_atom \<Rightarrow> string" where
  "render (SelUnion a b) = ''('' @ render a @ '' | '' @ render b @ '')''"
| "render (SelIntersect a b) = ''('' @ render a @ '' & '' @ render b @ '')''"
| "render (SelDifference a b) = ''('' @ render a @ '' ~ '' @ render b @ '')''"
| "render (Atom a) = render_atom a"
| "render_atom (Path arg) = ''path('' @ arg @ '')''"
| "render_atom (ByEffect arg) = ''by-effect('' @ arg @ '')''"
| "render_atom (ByOrigin arg) = ''by-origin('' @ arg @ '')''"
| "render_atom (ByActor arg) = ''by('' @ arg @ '')''"
| "render_atom (ByIntent arg) = ''intent('' @ arg @ '')''"
| "render_atom (Decl arg) = ''decl('' @ arg @ '')''"
| "render_atom (InBranch arg) = ''in-branch('' @ arg @ '')''"
| "render_atom (Change arg) = ''change('' @ arg @ '')''"
| "render_atom (Cut arg) = ''cut('' @ arg @ '')''"
| "render_atom (Since arg) = ''since('' @ arg @ '')''"
| "render_atom (Until arg) = ''until('' @ arg @ '')''"
| "render_atom (Region arg) = ''region('' @ arg @ '')''"
| "render_atom (DependentsOf inner) = ''dependents-of('' @ render inner @ '')''"

section \<open>The parser returns\<close>

lemma trim_units_length: "length (trim_units us s) \<le> length s"
proof (induction us s rule: trim_units.induct)
  case (1 us s)
  show ?case
  proof (cases "strip_unit us s")
    case (Some r)
    then have "length (trim_units us r) \<le> length r" by (rule 1)
    moreover have "length r < length s" using Some by (rule strip_unit_shorter)
    ultimately show ?thesis using Some by (simp add: trim_units.simps [of us s])
  qed (simp add: trim_units_none)
qed

lemma skip_ws_length: "length (skip_ws s) \<le> length s"
  by (simp add: skip_ws_def trim_start_def trim_units_length)

lemma eat_length: "eat token rest = (b, rest') \<Longrightarrow> length rest' + (if b then 1 else 0) \<le> length rest"
proof (cases "skip_ws rest")
  case (Cons c s)
  have "length (c # s) \<le> length rest" using skip_ws_length [of rest] unfolding Cons .
  moreover assume "eat token rest = (b, rest')"
  ultimately show ?thesis using Cons by (auto simp: eat_def skip_ws_length split: if_splits)
qed (simp add: eat_def)

lemma parse_then_returns: "r \<noteq> None \<Longrightarrow> (\<And>e rest. f e rest \<noteq> None) \<Longrightarrow> parse_then r f \<noteq> None"
  by (auto simp: parse_then_def split: option.splits sum.splits)

text \<open>
  The contract of a level of the grammar: it returns, and it never gives back more than it was
  given.
\<close>

locale sub_parser =
  fixes sub :: "string \<Rightarrow> parsed"
  assumes returns: "sub rest \<noteq> None"
    and consumes: "sub rest = Some (Inr (e, rest')) \<Longrightarrow> length rest' \<le> length rest"
begin

lemma chain_returns:
  "length rest < fuel \<Longrightarrow> chain fuel token op sub left rest \<noteq> None"
proof (induction fuel arbitrary: left rest)
  case (Suc fuel)
  obtain b r where eat: "eat token rest = (b, r)" by force
  show ?case
  proof (cases b)
    case True
    then have "length r < length rest" using eat_length [OF eat] by simp
    then have "chain fuel token op sub left' rest' \<noteq> None"
      if "sub r = Some (Inr (e, rest'))" for left' e rest'
      using Suc consumes [OF that] by simp
    then show ?thesis
      using returns [of r] eat True by (auto simp: parse_then_def split: option.splits sum.splits)
  qed (use eat in simp)
qed simp

lemma chain_consumes:
  "chain fuel token op sub left rest = Some (Inr (e, rest')) \<Longrightarrow> length rest' \<le> length rest"
proof (induction fuel arbitrary: left rest)
  case (Suc fuel)
  obtain b r where eat: "eat token rest = (b, r)" by force
  show ?case
  proof (cases b)
    case True
    with Suc.prems eat obtain right r' where r': "sub r = Some (Inr (right, r'))"
        "chain fuel token op sub (op left right) r' = Some (Inr (e, rest'))"
      by (auto simp: parse_then_def split: option.splits sum.splits)
    then show ?thesis using Suc.IH consumes eat_length [OF eat] by fastforce
  next
    case False
    then show ?thesis using Suc.prems eat eat_length [OF eat] by auto
  qed
qed simp

text \<open>A level followed by its loop meets the contract again.\<close>

lemma level:
  assumes "\<And>rest. lvl rest =
    parse_then (sub rest) (\<lambda>left r. chain (Suc (length r)) token op sub left r)"
  shows "sub_parser lvl"
proof
  show "lvl rest \<noteq> None" for rest
    using returns [of rest] chain_returns
    by (auto simp: assms parse_then_def split: option.splits sum.splits simp del: chain.simps)
  show "length rest' \<le> length rest" if "lvl rest = Some (Inr (e, rest'))" for rest e rest'
    using that consumes chain_consumes
    by (fastforce simp: assms parse_then_def split: option.splits sum.splits simp del: chain.simps)
qed

end

lemma close_length:
  "close e rest = Some (Inr (e', rest')) \<Longrightarrow> length rest' \<le> length rest"
  using eat_length [of "CHR '')''" rest] by (auto simp: close_def split: prod.splits bool.splits)

lemma close_returns: "close e rest \<noteq> None"
  by (simp add: close_def split: prod.splits bool.splits)

lemma sub_parser_expr: "sub_parser sub \<Longrightarrow> sub_parser (expr sub)"
proof -
  assume sub: "sub_parser sub"
  have "sub_parser (inter sub)" by (rule sub_parser.level [OF sub inter_def])
  then have "sub_parser (diff sub)" by (rule sub_parser.level) (rule diff_def)
  then show ?thesis by (rule sub_parser.level) (rule expr_def)
qed

lemma sub_parser_prim_inner:
  assumes "sub_parser sub"
  shows "sub_parser (prim_inner sub)"
proof
  show "prim_inner sub rest \<noteq> None" for rest
    using parse_then_returns [OF sub_parser.returns [OF assms]] close_returns
    by (auto simp: prim_inner_def Let_def split: prod.splits bool.splits option.splits sum.splits)
  show "length rest' \<le> length rest" if "prim_inner sub rest = Some (Inr (e, rest'))" for rest e rest'
  proof -
    obtain b r where eat: "eat (CHR ''('') (skip_ws rest) = (b, r)" by force
    have r: "length r \<le> length rest"
      using eat_length [OF eat] skip_ws_length [of rest] by simp
    have drop: "length (dropWhile name_char r) \<le> length r" by (simp add: length_dropWhile_le)
    obtain c r2 where eat2: "eat (CHR ''('') (dropWhile name_char r) = (c, r2)" by force
    have r2: "length r2 \<le> length rest" using eat_length [OF eat2] drop r by simp
    from that have "(\<exists>inner s. sub r = Some (Inr (inner, s)) \<and> close inner s = Some (Inr (e, rest')))
      \<or> (\<exists>inner s. sub r2 = Some (Inr (inner, s)) \<and> close (Atom (DependentsOf inner)) s = Some (Inr (e, rest')))
      \<or> (\<exists>arg. split_once (CHR '')'') r2 = Some (arg, rest'))"
      by (auto simp: prim_inner_def eat eat2 Let_def parse_then_def
          split: bool.splits if_splits option.splits sum.splits prod.splits)
    then show ?thesis
      using r r2 close_length sub_parser.consumes [OF assms] by (fastforce simp: split_once_eq)
  qed
qed

lemma sub_parser_prim: "sub_parser (prim levels)"
proof (induction levels)
  case 0
  show ?case by unfold_locales simp_all
next
  case (Suc levels)
  then show ?case by (simp add: sub_parser_prim_inner sub_parser_expr)
qed

interpretation prim: sub_parser "prim levels" for levels
  by (rule sub_parser_prim)

interpretation expr: sub_parser "expr (prim levels)" for levels
  by (intro sub_parser_expr sub_parser_prim)

section \<open>White space\<close>

text \<open>A byte that starts no white-space character stops the skipping.\<close>

definition ws_heads :: "string" where
  "ws_heads = map hd ws_units"

lemma skip_ws_head: "c \<notin> set ws_heads \<Longrightarrow> skip_ws (c # s) = c # s"
proof -
  assume "c \<notin> set ws_heads"
  then have "strip_unit ws_units (c # s) = None"
    by (intro strip_unit_head) (auto simp: ws_heads_def ws_units_def)
  then show ?thesis by (simp add: skip_ws_def trim_start_def trim_units_none)
qed

lemma skip_ws_space [simp]: "skip_ws (CHR '' '' # s) = skip_ws s"
proof -
  have "strip_unit ws_units (CHR '' '' # s) = Some s" by (simp add: ws_units_def)
  then show ?thesis by (simp add: skip_ws_def trim_start_def trim_units.simps [of _ "CHR '' '' # s"])
qed

lemma skip_ws_token [simp]:
  "skip_ws (CHR ''('' # s) = CHR ''('' # s" "skip_ws (CHR '')'' # s) = CHR '')'' # s"
  "skip_ws (CHR ''|'' # s) = CHR ''|'' # s" "skip_ws (CHR ''&'' # s) = CHR ''&'' # s"
  "skip_ws (CHR ''~'' # s) = CHR ''~'' # s"
  by (rule skip_ws_head, simp add: ws_heads_def ws_units_def)+

lemma name_char_not_ws: "name_char c \<Longrightarrow> c \<notin> set ws_heads"
  by (auto simp: name_char_def ws_heads_def ws_units_def less_eq_char_def)

lemma skip_ws_name: "name_char c \<Longrightarrow> skip_ws (c # s) = c # s"
  by (rule skip_ws_head) (rule name_char_not_ws)

lemma eat_head [simp]:
  "skip_ws (c # s) = c # s \<Longrightarrow> eat token (c # s) = (if c = token then (True, s) else (False, c # s))"
  by (simp add: eat_def)

lemma eat_space [simp]: "eat token (CHR '' '' # s) = eat token s"
  by (simp add: eat_def)

lemma prim_space: "prim levels (CHR '' '' # s) = prim levels s"
  by (cases levels) (simp_all add: prim_inner_def)

section \<open>Rendering and parsing back\<close>

text \<open>The arguments a plain atom can carry: no closing parenthesis and no outer white space.\<close>

definition arg_ok :: "string \<Rightarrow> bool" where
  "arg_ok arg \<longleftrightarrow> CHR '')'' \<notin> set arg \<and> trim arg = arg"

fun args_ok :: "sel_expr \<Rightarrow> bool" and atom_args_ok :: "sel_atom \<Rightarrow> bool" where
  "args_ok (SelUnion a b) \<longleftrightarrow> args_ok a \<and> args_ok b"
| "args_ok (SelIntersect a b) \<longleftrightarrow> args_ok a \<and> args_ok b"
| "args_ok (SelDifference a b) \<longleftrightarrow> args_ok a \<and> args_ok b"
| "args_ok (Atom a) \<longleftrightarrow> atom_args_ok a"
| "atom_args_ok (DependentsOf inner) \<longleftrightarrow> args_ok inner"
| "atom_args_ok (Path arg) \<longleftrightarrow> arg_ok arg"
| "atom_args_ok (ByEffect arg) \<longleftrightarrow> arg_ok arg"
| "atom_args_ok (ByOrigin arg) \<longleftrightarrow> arg_ok arg"
| "atom_args_ok (ByActor arg) \<longleftrightarrow> arg_ok arg"
| "atom_args_ok (ByIntent arg) \<longleftrightarrow> arg_ok arg"
| "atom_args_ok (Decl arg) \<longleftrightarrow> arg_ok arg"
| "atom_args_ok (InBranch arg) \<longleftrightarrow> arg_ok arg"
| "atom_args_ok (Change arg) \<longleftrightarrow> arg_ok arg"
| "atom_args_ok (Cut arg) \<longleftrightarrow> arg_ok arg"
| "atom_args_ok (Since arg) \<longleftrightarrow> arg_ok arg"
| "atom_args_ok (Until arg) \<longleftrightarrow> arg_ok arg"
| "atom_args_ok (Region arg) \<longleftrightarrow> arg_ok arg"

text \<open>The nesting of the rendered text: how many levels of \<^verbatim>\<open>prim\<close> it takes to read it.\<close>

fun nesting :: "sel_expr \<Rightarrow> nat" and atom_nesting :: "sel_atom \<Rightarrow> nat" where
  "nesting (SelUnion a b) = Suc (max (nesting a) (nesting b))"
| "nesting (SelIntersect a b) = Suc (max (nesting a) (nesting b))"
| "nesting (SelDifference a b) = Suc (max (nesting a) (nesting b))"
| "nesting (Atom a) = atom_nesting a"
| "atom_nesting (DependentsOf inner) = Suc (nesting inner)"
| "atom_nesting _ = 1"

text \<open>Reading a plain atom whose name is a non-empty run of name characters.\<close>

lemma prim_inner_atom:
  assumes "name \<noteq> []" "list_all name_char name" "arg_ok arg" "name \<noteq> ''dependents-of''"
  shows "prim_inner sub (name @ CHR ''('' # arg @ CHR '')'' # t) =
    (case atom_of name arg of Inl m \<Rightarrow> Some (Err m) | Inr a \<Rightarrow> Some (Ok (Atom a, t)))"
proof -
  obtain c n where name: "name = c # n" and c: "name_char c" using assms(1,2) by (cases name) auto
  have ws: "skip_ws (name @ r) = name @ r" for r using skip_ws_name [OF c] by (simp add: name)
  have "c \<noteq> CHR ''(''" using c by (auto simp: name_char_def less_eq_char_def)
  then have eat: "eat (CHR ''('') (name @ r) = (False, name @ r)" for r
    using ws [of r] by (simp add: name)
  have paren: "\<not> name_char (CHR ''('')" by (simp add: name_char_def less_eq_char_def)
  have take: "takeWhile name_char (name @ CHR ''('' # r) = name"
    and drop: "dropWhile name_char (name @ CHR ''('' # r) = CHR ''('' # r" for r
    using assms(2) paren by (simp_all add: list_all_iff takeWhile_append dropWhile_append)
  have split: "split_once (CHR '')'') (arg @ CHR '')'' # t) = Some (arg, t)"
    using assms(3) by (simp add: split_once_eq arg_ok_def)
  show ?thesis
    using assms by (simp add: prim_inner_def ws eat take drop split Let_def arg_ok_def)
qed

lemma prim_inner_dependents:
  "prim_inner sub (''dependents-of('' @ s) = parse_then (sub s) (\<lambda>inner r. close (Atom (DependentsOf inner)) r)"
proof -
  have ws: "skip_ws (''dependents-of('' @ s) = ''dependents-of('' @ s"
    by (simp add: skip_ws_name name_char_def less_eq_char_def)
  show ?thesis
    using ws by (simp add: prim_inner_def Let_def name_char_def less_eq_char_def)
qed

lemma prim_inner_paren: "prim_inner sub (CHR ''('' # s) = parse_then (sub s) close"
  by (simp add: prim_inner_def)

lemma close_paren [simp]: "close e (CHR '')'' # t) = Some (Ok (e, t))"
  by (simp add: close_def)

text \<open>Loops that find no token, one token, or an error.\<close>

lemma chain_stop:
  "eat token r = (False, r') \<Longrightarrow> chain (Suc n) token op sub left r = Some (Ok (left, r'))"
  by simp

lemma chain_once:
  assumes "sub (CHR '' '' # s) = Some (Ok (b, CHR '')'' # t))" and "token \<noteq> CHR '')''"
    and "skip_ws (token # CHR '' '' # s) = token # CHR '' '' # s"
  shows "chain (Suc (length (token # CHR '' '' # s))) token op sub left (token # CHR '' '' # s)
    = Some (Ok (op left b, CHR '')'' # t))"
  using assms by (simp add: parse_then_def)

lemma chain_err:
  assumes "sub (CHR '' '' # s) = Some (Err m)"
    and "skip_ws (token # CHR '' '' # s) = token # CHR '' '' # s"
  shows "chain (Suc n) token op sub left (token # CHR '' '' # s) = Some (Err m)"
  using assms by (simp add: parse_then_def)

lemma level_Ok:
  assumes "p s = Some (Ok (e, c # t))" "skip_ws (c # t) = c # t"
  shows "c \<noteq> CHR ''&'' \<Longrightarrow> inter p s = Some (Ok (e, c # t))"
    and "c \<noteq> CHR ''&'' \<Longrightarrow> c \<noteq> CHR ''~'' \<Longrightarrow> diff p s = Some (Ok (e, c # t))"
    and "c \<noteq> CHR ''&'' \<Longrightarrow> c \<noteq> CHR ''~'' \<Longrightarrow> c \<noteq> CHR ''|'' \<Longrightarrow> expr p s = Some (Ok (e, c # t))"
  using assms by (simp_all add: inter_def diff_def expr_def parse_then_def)

lemma level_Ok_space:
  assumes "p s = Some (Ok (e, CHR '' '' # c # t))" "skip_ws (c # t) = c # t"
  shows "c \<noteq> CHR ''&'' \<Longrightarrow> inter p s = Some (Ok (e, c # t))"
    and "c \<noteq> CHR ''&'' \<Longrightarrow> c \<noteq> CHR ''~'' \<Longrightarrow> diff p s = Some (Ok (e, c # t))"
  using assms by (simp_all add: inter_def diff_def parse_then_def)

lemma level_Err:
  assumes "p s = Some (Err m)"
  shows "inter p s = Some (Err m)" "diff p s = Some (Err m)" "expr p s = Some (Err m)"
  using assms by (simp_all add: inter_def diff_def expr_def parse_then_def)

lemma expr_union:
  assumes "p s = Some (Ok (a, CHR '' '' # CHR ''|'' # CHR '' '' # s'))"
  shows "p (CHR '' '' # s') = Some (Ok (b, CHR '')'' # t)) \<Longrightarrow> expr p s = Some (Ok (SelUnion a b, CHR '')'' # t))"
    and "p (CHR '' '' # s') = Some (Err m) \<Longrightarrow> expr p s = Some (Err m)"
proof -
  have left: "diff p s = Some (Ok (a, CHR ''|'' # CHR '' '' # s'))"
    using assms by (rule level_Ok_space) simp_all
  show "expr p s = Some (Ok (SelUnion a b, CHR '')'' # t))"
    if "p (CHR '' '' # s') = Some (Ok (b, CHR '')'' # t))"
    using chain_once [of "diff p" s' b t "CHR ''|''" SelUnion a] level_Ok(2) [of p, OF that]
    by (simp add: expr_def left parse_then_def del: chain.simps)
  show "expr p s = Some (Err m)" if "p (CHR '' '' # s') = Some (Err m)"
    using chain_err [of "diff p" s' m "CHR ''|''"] level_Err(2) [of p, OF that]
    by (simp add: expr_def left parse_then_def del: chain.simps)
qed

lemma expr_difference:
  assumes "p s = Some (Ok (a, CHR '' '' # CHR ''~'' # CHR '' '' # s'))"
  shows "p (CHR '' '' # s') = Some (Ok (b, CHR '')'' # t)) \<Longrightarrow> expr p s = Some (Ok (SelDifference a b, CHR '')'' # t))"
    and "p (CHR '' '' # s') = Some (Err m) \<Longrightarrow> expr p s = Some (Err m)"
proof -
  have left: "inter p s = Some (Ok (a, CHR ''~'' # CHR '' '' # s'))"
    using assms by (rule level_Ok_space) simp_all
  show "expr p s = Some (Ok (SelDifference a b, CHR '')'' # t))"
    if "p (CHR '' '' # s') = Some (Ok (b, CHR '')'' # t))"
    using chain_once [of "inter p" s' b t "CHR ''~''" SelDifference a] level_Ok(1) [of p, OF that]
    by (simp add: expr_def diff_def left parse_then_def chain_stop del: chain.simps)
  show "expr p s = Some (Err m)" if "p (CHR '' '' # s') = Some (Err m)"
    using chain_err [of "inter p" s' m "CHR ''~''"] level_Err(1) [of p, OF that]
    by (simp add: expr_def diff_def left parse_then_def del: chain.simps)
qed

lemma expr_intersect:
  assumes left: "p s = Some (Ok (a, CHR '' '' # CHR ''&'' # CHR '' '' # s'))"
  shows "p (CHR '' '' # s') = Some (Ok (b, CHR '')'' # t)) \<Longrightarrow> expr p s = Some (Ok (SelIntersect a b, CHR '')'' # t))"
    and "p (CHR '' '' # s') = Some (Err m) \<Longrightarrow> expr p s = Some (Err m)"
proof -
  show "expr p s = Some (Ok (SelIntersect a b, CHR '')'' # t))"
    if "p (CHR '' '' # s') = Some (Ok (b, CHR '')'' # t))"
    using that left by (simp add: expr_def diff_def inter_def parse_then_def)
  show "expr p s = Some (Err m)" if "p (CHR '' '' # s') = Some (Err m)"
    using that left by (simp add: expr_def diff_def inter_def parse_then_def)
qed

lemma prim_atom:
  assumes "name \<noteq> []" "list_all name_char name" "name \<noteq> ''dependents-of''" "arg_ok arg"
  shows "prim (Suc l) (name @ ''('' @ arg @ '')'' @ t) =
    (case atom_of name arg of Inl m \<Rightarrow> Some (Err m) | Inr a \<Rightarrow> Some (Ok (Atom a, t)))"
  using prim_inner_atom [OF assms(1,2,4,3)] by simp

text \<open>
  A text reads as an expression at a nesting: at every level it is read back whole when enough
  levels remain, and refused as too deep otherwise.
\<close>

definition reads :: "sel_expr \<Rightarrow> string \<Rightarrow> nat \<Rightarrow> bool" where
  "reads e text n \<longleftrightarrow> (\<forall>levels t. prim levels (text @ t) =
     (if n \<le> levels then Some (Ok (e, t)) else Some (Err too_deep)))"

lemma readsD:
  "reads e text n \<Longrightarrow> prim levels (text @ t) = (if n \<le> levels then Some (Ok (e, t)) else Some (Err too_deep))"
  by (simp add: reads_def)

lemma readsI:
  assumes "\<And>l t. prim (Suc l) (text @ t) = (if n \<le> Suc l then Some (Ok (e, t)) else Some (Err too_deep))"
    and "0 < n"
  shows "reads e text n"
  unfolding reads_def
proof (intro allI)
  show "prim levels (text @ t) = (if n \<le> levels then Some (Ok (e, t)) else Some (Err too_deep))"
    for levels t using assms by (cases levels) simp_all
qed

lemma reads_union:
  assumes "reads a A m" and "reads b B n"
  shows "reads (SelUnion a b) (''('' @ A @ '' | '' @ B @ '')'') (Suc (max m n))"
proof (rule readsI)
  fix l t
  let ?s = "A @ '' | '' @ B @ '')'' @ t"
  have "prim l ?s = (if m \<le> l then Some (Ok (a, '' | '' @ B @ '')'' @ t)) else Some (Err too_deep))"
    using assms(1) by (simp add: reads_def)
  moreover have "prim l (CHR '' '' # B @ '')'' @ t) =
      (if n \<le> l then Some (Ok (b, '')'' @ t)) else Some (Err too_deep))"
    using assms(2) by (simp add: reads_def prim_space)
  ultimately show "prim (Suc l) ((''('' @ A @ '' | '' @ B @ '')'') @ t) =
      (if Suc (max m n) \<le> Suc l then Some (Ok (SelUnion a b, t)) else Some (Err too_deep))"
    using expr_union [of "prim l" ?s a "B @ '')'' @ t"] level_Err(3) [of "prim l" ?s]
    by (auto simp: prim_inner_paren parse_then_def split: if_splits)
qed simp

lemma reads_intersect:
  assumes "reads a A m" and "reads b B n"
  shows "reads (SelIntersect a b) (''('' @ A @ '' & '' @ B @ '')'') (Suc (max m n))"
proof (rule readsI)
  fix l t
  let ?s = "A @ '' & '' @ B @ '')'' @ t"
  have "prim l ?s = (if m \<le> l then Some (Ok (a, '' & '' @ B @ '')'' @ t)) else Some (Err too_deep))"
    using assms(1) by (simp add: reads_def)
  moreover have "prim l (CHR '' '' # B @ '')'' @ t) =
      (if n \<le> l then Some (Ok (b, '')'' @ t)) else Some (Err too_deep))"
    using assms(2) by (simp add: reads_def prim_space)
  ultimately show "prim (Suc l) ((''('' @ A @ '' & '' @ B @ '')'') @ t) =
      (if Suc (max m n) \<le> Suc l then Some (Ok (SelIntersect a b, t)) else Some (Err too_deep))"
    using expr_intersect [of "prim l" ?s a "B @ '')'' @ t"] level_Err(3) [of "prim l" ?s]
    by (auto simp: prim_inner_paren parse_then_def split: if_splits)
qed simp

lemma reads_difference:
  assumes "reads a A m" and "reads b B n"
  shows "reads (SelDifference a b) (''('' @ A @ '' ~ '' @ B @ '')'') (Suc (max m n))"
proof (rule readsI)
  fix l t
  let ?s = "A @ '' ~ '' @ B @ '')'' @ t"
  have "prim l ?s = (if m \<le> l then Some (Ok (a, '' ~ '' @ B @ '')'' @ t)) else Some (Err too_deep))"
    using assms(1) by (simp add: reads_def)
  moreover have "prim l (CHR '' '' # B @ '')'' @ t) =
      (if n \<le> l then Some (Ok (b, '')'' @ t)) else Some (Err too_deep))"
    using assms(2) by (simp add: reads_def prim_space)
  ultimately show "prim (Suc l) ((''('' @ A @ '' ~ '' @ B @ '')'') @ t) =
      (if Suc (max m n) \<le> Suc l then Some (Ok (SelDifference a b, t)) else Some (Err too_deep))"
    using expr_difference [of "prim l" ?s a "B @ '')'' @ t"] level_Err(3) [of "prim l" ?s]
    by (auto simp: prim_inner_paren parse_then_def split: if_splits)
qed simp

lemma reads_dependents:
  assumes "reads e E n"
  shows "reads (Atom (DependentsOf e)) (''dependents-of('' @ E @ '')'') (Suc n)"
proof (rule readsI)
  fix l t
  have "prim l (E @ '')'' @ t) = (if n \<le> l then Some (Ok (e, '')'' @ t)) else Some (Err too_deep))"
    using assms by (simp add: reads_def)
  then have "expr (prim l) (E @ '')'' @ t) =
      (if n \<le> l then Some (Ok (e, '')'' @ t)) else Some (Err too_deep))"
    using level_Ok(3) [of "prim l" "E @ '')'' @ t" e "CHR '')''" t]
      level_Err(3) [of "prim l" "E @ '')'' @ t"] by (auto split: if_splits)
  then show "prim (Suc l) ((''dependents-of('' @ E @ '')'') @ t) =
      (if Suc n \<le> Suc l then Some (Ok (Atom (DependentsOf e), t)) else Some (Err too_deep))"
    using prim_inner_dependents [of "expr (prim l)" "E @ '')'' @ t"] by (auto simp: parse_then_def)
qed simp

lemma reads_atom:
  assumes "arg_ok arg" and "name \<noteq> []" "list_all name_char name" "name \<noteq> ''dependents-of''"
    and "atom_of name arg = Inr a"
  shows "reads (Atom a) (name @ ''('' @ arg @ '')'') 1"
  by (rule readsI) (use prim_atom [OF assms(2,3,4,1)] assms(5) in simp_all)

lemma reads_render:
  "args_ok e \<Longrightarrow> reads e (render e) (nesting e)"
  "atom_args_ok a \<Longrightarrow> reads (Atom a) (render_atom a) (atom_nesting a)"
proof (induction e and a)
  case (Path arg)
  then show ?case using reads_atom [of arg "''path''"]
    by (simp add: name_char_def less_eq_char_def atom_of_def)
next
  case (ByEffect arg)
  then show ?case using reads_atom [of arg "''by-effect''"]
    by (simp add: name_char_def less_eq_char_def atom_of_def)
next
  case (ByOrigin arg)
  then show ?case using reads_atom [of arg "''by-origin''"]
    by (simp add: name_char_def less_eq_char_def atom_of_def)
next
  case (ByActor arg)
  then show ?case using reads_atom [of arg "''by''"]
    by (simp add: name_char_def less_eq_char_def atom_of_def)
next
  case (ByIntent arg)
  then show ?case using reads_atom [of arg "''intent''"]
    by (simp add: name_char_def less_eq_char_def atom_of_def)
next
  case (Decl arg)
  then show ?case using reads_atom [of arg "''decl''"]
    by (simp add: name_char_def less_eq_char_def atom_of_def)
next
  case (InBranch arg)
  then show ?case using reads_atom [of arg "''in-branch''"]
    by (simp add: name_char_def less_eq_char_def atom_of_def)
next
  case (Change arg)
  then show ?case using reads_atom [of arg "''change''"]
    by (simp add: name_char_def less_eq_char_def atom_of_def)
next
  case (Cut arg)
  then show ?case using reads_atom [of arg "''cut''"]
    by (simp add: name_char_def less_eq_char_def atom_of_def)
next
  case (Since arg)
  then show ?case using reads_atom [of arg "''since''"]
    by (simp add: name_char_def less_eq_char_def atom_of_def)
next
  case (Until arg)
  then show ?case using reads_atom [of arg "''until''"]
    by (simp add: name_char_def less_eq_char_def atom_of_def)
next
  case (Region arg)
  then show ?case using reads_atom [of arg "''region''"]
    by (simp add: name_char_def less_eq_char_def atom_of_def)
qed (simp_all only: args_ok.simps atom_args_ok.simps render.simps render_atom.simps nesting.simps
  atom_nesting.simps reads_union reads_intersect reads_difference reads_dependents)

lemma trim_delimited:
  assumes "c \<notin> set ws_heads"
  shows "trim (c # s @ '')'') = c # s @ '')''"
proof -
  have "strip_unit (map rev ws_units) (CHR '')'' # rev s @ [c]) = None"
    by (rule strip_unit_head) (auto simp: ws_units_def)
  then show ?thesis
    using skip_ws_head [OF assms, of "s @ '')''"]
    by (simp add: trim_def trim_end_def skip_ws_def trim_units_none)
qed

lemma render_delimited:
  "\<exists>c s. render e = c # s @ '')'' \<and> c \<notin> set ws_heads"
  "\<exists>c s. render_atom a = c # s @ '')'' \<and> c \<notin> set ws_heads"
  by (induction e and a) (auto simp: ws_heads_def ws_units_def)

lemma trim_render: "trim (render e) = render e"
  using render_delimited(1) [of e] trim_delimited by fastforce

section \<open>What the parser returns has clean arguments\<close>

lemma parse_then_Ok:
  "parse_then r f = Some (Inr x) \<longleftrightarrow> (\<exists>e rest. r = Some (Inr (e, rest)) \<and> f e rest = Some (Inr x))"
  by (auto simp: parse_then_def split: option.splits sum.splits)

definition clean :: "(string \<Rightarrow> parsed) \<Rightarrow> bool" where
  "clean sub \<longleftrightarrow> (\<forall>s e r. sub s = Some (Inr (e, r)) \<longrightarrow> args_ok e)"

lemma cleanD: "clean sub \<Longrightarrow> sub s = Some (Inr (e, r)) \<Longrightarrow> args_ok e"
  by (auto simp: clean_def)

lemma cleanI: "(\<And>s e r. sub s = Some (Inr (e, r)) \<Longrightarrow> args_ok e) \<Longrightarrow> clean sub"
  by (auto simp: clean_def)

lemma chain_clean:
  assumes "clean sub" "\<And>a b. args_ok a \<Longrightarrow> args_ok b \<Longrightarrow> args_ok (op a b)"
  shows "args_ok left \<Longrightarrow> chain fuel token op sub left s = Some (Inr (e, r)) \<Longrightarrow> args_ok e"
proof (induction fuel arbitrary: left s)
  case (Suc fuel)
  obtain b s' where "eat token s = (b, s')" by force
  moreover have "args_ok e" if "sub s' = Some (Inr (right, s''))"
      "chain fuel token op sub (op left right) s'' = Some (Inr (e, r))" for right s''
    using Suc.IH [OF _ that(2)] assms(2) Suc.prems(1) cleanD [OF assms(1) that(1)] by blast
  ultimately show ?case using Suc.prems by (cases b) (auto simp: parse_then_Ok)
qed simp

lemma expr_clean: "clean sub \<Longrightarrow> clean (expr sub)"
proof -
  assume sub: "clean sub"
  have inter: "clean (inter sub)"
    using sub chain_clean [OF sub, of SelIntersect]
    unfolding clean_def inter_def parse_then_Ok by (metis args_ok.simps(2))
  have diff: "clean (diff sub)"
    using inter chain_clean [OF inter, of SelDifference]
    unfolding clean_def diff_def parse_then_Ok by (metis args_ok.simps(3))
  then show ?thesis
    using chain_clean [OF diff, of SelUnion]
    unfolding clean_def expr_def parse_then_Ok by (metis args_ok.simps(1))
qed

lemma atom_of_clean: "atom_of name arg = Inr a \<Longrightarrow> arg_ok arg \<Longrightarrow> atom_args_ok a"
  by (auto simp: atom_of_def split: if_splits)

lemma close_Ok: "close e s = Some (Inr (e', r)) \<Longrightarrow> e' = e"
  by (auto simp: close_def split: prod.splits bool.splits)

lemma split_arg_ok: "split_once (CHR '')'') s = Some (arg, r) \<Longrightarrow> arg_ok (trim arg)"
  using trim_set [of arg] by (auto simp: split_once_eq arg_ok_def)

lemma prim_inner_clean: "clean sub \<Longrightarrow> clean (prim_inner sub)"
  unfolding prim_inner_def Let_def
  by (rule cleanI) (auto simp: parse_then_Ok split: prod.splits bool.splits if_splits option.splits
      sum.splits dest!: close_Ok dest: atom_of_clean split_arg_ok cleanD)

lemma prim_clean: "clean (prim levels)"
proof (induction levels)
  case 0
  show ?case by (simp add: clean_def)
next
  case (Suc levels)
  then show ?case by (simp add: prim_inner_clean expr_clean)
qed

lemma parse_clean: "parse s = Some (Inr e) \<Longrightarrow> args_ok e"
  using expr_clean [OF prim_clean]
  by (fastforce simp: parse_def clean_def split: option.splits sum.splits if_splits)

section \<open>A flat chain\<close>

text \<open>A text with no nesting at all, and the left-nested tree it reads as.\<close>

definition flat_rest :: "nat \<Rightarrow> string" where
  "flat_rest n = concat (replicate n ''|cut(a)'')"

fun left_nested :: "nat \<Rightarrow> sel_expr" where
  "left_nested 0 = Atom (Cut ''a'')"
| "left_nested (Suc n) = SelUnion (left_nested n) (Atom (Cut ''a''))"

lemma arg_a: "arg_ok ''a''"
  by (simp add: arg_ok_def trim_eval)

lemma prim_cut: "prim (Suc l) (''cut(a)'' @ t) = Some (Ok (Atom (Cut ''a''), t))"
  using prim_atom [of "''cut''" "''a''" l t] arg_a
  by (simp add: name_char_def less_eq_char_def atom_of_def)

lemma diff_cut: "diff (prim (Suc l)) (''cut(a)'' @ flat_rest n) = Some (Ok (Atom (Cut ''a''), flat_rest n))"
proof (cases n)
  case 0
  then show ?thesis
    using prim_cut [of l "[]"]
    by (simp add: flat_rest_def diff_def inter_def parse_then_def eat_def skip_ws_def trim_start_def)
next
  case (Suc k)
  have "prim (Suc l) (''cut(a)'' @ flat_rest n) =
      Some (Ok (Atom (Cut ''a''), CHR ''|'' # ''cut(a)'' @ flat_rest k))"
    unfolding prim_cut by (simp add: Suc flat_rest_def)
  from level_Ok(2) [of "prim (Suc l)", OF this] show ?thesis by (simp add: Suc flat_rest_def)
qed

lemma chain_flat:
  "length (flat_rest n) < fuel \<Longrightarrow>
   chain fuel (CHR ''|'') SelUnion (diff (prim (Suc l))) (left_nested k) (flat_rest n)
     = Some (Ok (left_nested (k + n), []))"
proof (induction n arbitrary: fuel k)
  case 0
  then show ?case by (cases fuel) (simp_all add: flat_rest_def eat_def skip_ws_def trim_start_def)
next
  case (Suc n)
  have rest: "flat_rest (Suc n) = CHR ''|'' # ''cut(a)'' @ flat_rest n" by (simp add: flat_rest_def)
  from Suc.prems obtain f where f: "fuel = Suc f" by (cases fuel) auto
  then have "length (flat_rest n) < f" using Suc.prems by (simp add: rest)
  with Suc.IH [of f "Suc k"] show ?case
    using diff_cut [of l n] unfolding f rest by (simp add: parse_then_def)
qed

lemma flat_trim: "trim (''cut(a)'' @ flat_rest n) = ''cut(a)'' @ flat_rest n"
proof -
  have "\<exists>s. ''cut(a)'' @ flat_rest n = CHR ''c'' # s @ '')''"
  proof (cases n)
    case 0
    then show ?thesis by (simp add: flat_rest_def)
  next
    case (Suc k)
    have "flat_rest (Suc k) = flat_rest k @ ''|cut(a)''"
      by (simp add: flat_rest_def replicate_append_same [symmetric])
    then show ?thesis by (simp add: Suc)
  qed
  moreover have "CHR ''c'' \<notin> set ws_heads" by (simp add: ws_heads_def ws_units_def)
  ultimately show ?thesis using trim_delimited by fastforce
qed

lemma parse_flat: "parse (''cut(a)'' @ flat_rest n) = Some (Ok (left_nested n))"
proof -
  have "chain (Suc (length (flat_rest n))) (CHR ''|'') SelUnion (diff (prim (Suc 255)))
      (left_nested 0) (flat_rest n) = Some (Ok (left_nested (0 + n), []))"
    by (rule chain_flat) simp
  then have "expr (prim (Suc 255)) (''cut(a)'' @ flat_rest n) = Some (Ok (left_nested n, []))"
    using diff_cut [of 255 n] unfolding expr_def by (simp add: parse_then_def del: chain.simps)
  then show ?thesis
    unfolding parse_def flat_trim by (simp add: MAX_SELECTION_DEPTH_def)
qed

lemma left_nested_nesting: "nesting (left_nested n) = Suc n"
  by (induction n) simp_all

section \<open>Theorems\<close>

text \<open>
  The parser returns on every input: the fuel of its loops is never used up.
\<close>

theorem parse_total: "\<exists>r. parse input = Some r"
  using expr.returns [of MAX_SELECTION_DEPTH "trim input"]
  by (auto simp: parse_def split: option.splits sum.splits)

text \<open>
  C34. Rendering and parsing: what the parser returned renders to a text that parses back to the
  identical expression, whatever precedence and spacing the input used, as long as the rendered
  nesting is within the parser's bound; beyond the bound the rendered text is refused as too deep.
\<close>

theorem parse_render_round_trip:
  assumes "parse input = Some (Ok e)"
  shows "parse (render e) = Some (if nesting e \<le> MAX_SELECTION_DEPTH then Ok e else Err too_deep)"
proof -
  have reads: "reads e (render e) (nesting e)"
    using parse_clean [OF assms] by (rule reads_render)
  then have "prim MAX_SELECTION_DEPTH (render e @ []) =
      (if nesting e \<le> MAX_SELECTION_DEPTH then Some (Ok (e, [])) else Some (Err too_deep))"
    unfolding reads_def by blast
  then show ?thesis
    using level_Err(3) [of "prim MAX_SELECTION_DEPTH" "render e"]
    by (auto simp: parse_def trim_render expr_def diff_def inter_def parse_then_def eat_def
        skip_ws_def trim_start_def split: if_splits)
qed

theorem parse_render_round_trip_witness:
  "parse (render (left_nested 1)) = Some (Ok (left_nested 1))"
  using parse_render_round_trip [OF parse_flat [of 1]]
  by (simp add: MAX_SELECTION_DEPTH_def)

text \<open>
  The rendered text of an expression the parser accepted need not parse: a flat chain of 257
  atoms has no nesting as written, but it reads as a left-nested tree whose fully parenthesised
  rendering exceeds the bound.
\<close>

theorem rendered_flat_chain_is_refused:
  "parse (''cut(a)'' @ flat_rest 256) = Some (Ok (left_nested 256))
    \<and> parse (render (left_nested 256)) = Some (Err too_deep)"
proof -
  have "args_ok (left_nested n)" for n by (induction n) (simp_all add: arg_a)
  then have "reads (left_nested 256) (render (left_nested 256)) (nesting (left_nested 256))"
    by (rule reads_render)
  from readsD [OF this, of 256 "[]"] have "prim 256 (render (left_nested 256)) = Some (Err too_deep)"
    by (simp add: left_nested_nesting del: left_nested.simps prim.simps)
  then have "prim MAX_SELECTION_DEPTH (render (left_nested 256)) = Some (Err too_deep)"
    by (simp only: MAX_SELECTION_DEPTH_def)
  from level_Err(3) [of "prim MAX_SELECTION_DEPTH", OF this] have "parse (render (left_nested 256)) = Some (Err too_deep)"
    by (simp add: parse_def trim_render)
  with parse_flat show ?thesis by blast
qed

end
