(* ===== verification/Freshness.thy ===== *)
theory Freshness
  imports Selection Ordered_Maps
begin

text \<open>
  Evidence freshness, \<^verbatim>\<open>crates/whipplescript-core/src/freshness.rs\<close>: a basis is resolved to a
  fingerprint of the content it depends on, and the fingerprint is evaluated at a later frontier.
  The lemmas show which bases resolve, that a fingerprint is fresh at its own frontier, that it is
  fresh exactly where its content entries match, and what a rename advisory tells.
\<close>

section \<open>The model\<close>

record frontier_content =
  decls :: "(string, string) bmap"
  decl_renames :: "(string, string) bmap"
  paths :: "(string, string) bmap"

definition DECL_PREFIX :: string where
  "DECL_PREFIX = ''decl:''"

definition PATH_PREFIX :: string where
  "PATH_PREFIX = ''path:''"

definition DECL_RENAME_PREFIX :: string where
  "DECL_RENAME_PREFIX = ''decl-rename:''"

type_synonym fingerprint = "(string, string) bmap"

fun atom_display :: "sel_atom \<Rightarrow> string" where
  "atom_display (Path _) = ''path''"
| "atom_display (Decl _) = ''decl''"
| "atom_display (ByEffect _) = ''by-effect''"
| "atom_display (ByOrigin _) = ''by-origin''"
| "atom_display (ByActor _) = ''by''"
| "atom_display (ByIntent _) = ''intent''"
| "atom_display (InBranch _) = ''in-branch''"
| "atom_display (Change _) = ''change''"
| "atom_display (Cut _) = ''cut''"
| "atom_display (Since _) = ''since''"
| "atom_display (Until _) = ''until''"
| "atom_display (Region _) = ''region''"
| "atom_display (DependentsOf _) = ''dependents-of''"

definition change_set_atom :: "string \<Rightarrow> message" where
  "change_set_atom name =
     Format ''a basis denotes a part of the artifact world; `{}` is a change-set atom'' [name]"

text \<open>The entries of a map whose key matches the glob, under a prefix.\<close>

definition matching_entries :: "string \<Rightarrow> string \<Rightarrow> (string, string) bmap \<Rightarrow> (string \<times> string) list" where
  "matching_entries pfx glob entries =
     map (\<lambda>(key, hash). (pfx @ key, hash)) (filter (\<lambda>(key, hash). glob_matches glob key) entries)"

fun resolve_basis :: "sel_expr \<Rightarrow> frontier_content \<Rightarrow> (fingerprint, message) result" where
  "resolve_basis (SelUnion a b) frontier =
     and_then (resolve_basis a frontier) (\<lambda>left.
       and_then (resolve_basis b frontier) (\<lambda>right.
         Ok (fold (\<lambda>(key, hash) m. bm_insert key hash m) right left)))"
| "resolve_basis (SelIntersect a b) frontier =
     and_then (resolve_basis a frontier) (\<lambda>left.
       and_then (resolve_basis b frontier) (\<lambda>right.
         Ok (filter (\<lambda>(key, _). bm_get right key \<noteq> None) left)))"
| "resolve_basis (SelDifference a b) frontier =
     and_then (resolve_basis a frontier) (\<lambda>left.
       and_then (resolve_basis b frontier) (\<lambda>right.
         Ok (filter (\<lambda>(key, _). bm_get right key = None) left)))"
| "resolve_basis (Atom (Decl glob)) frontier =
     Ok (fold (\<lambda>(key, hash) m. bm_insert key hash m)
       (matching_entries DECL_RENAME_PREFIX glob (decl_renames frontier))
       (bm_of_list (matching_entries DECL_PREFIX glob (decls frontier))))"
| "resolve_basis (Atom (Path glob)) frontier =
     Ok (bm_of_list (matching_entries PATH_PREFIX glob (paths frontier)))"
| "resolve_basis (Atom other) frontier = Err (change_set_atom (atom_display other))"

datatype freshness =
  Fresh
| Stale "string list" "(string \<times> string) list"
    \<comment> \<open>mismatched, moved\<close>

text \<open>The rename advisories of an absent declaration.\<close>

definition moved_to :: "fingerprint \<Rightarrow> frontier_content \<Rightarrow> string \<Rightarrow> (string \<times> string) list" where
  "moved_to fingerprint frontier ident =
     (case bm_get fingerprint (DECL_RENAME_PREFIX @ ident) of
        None \<Rightarrow> []
      | Some recorded_rename \<Rightarrow>
          map (\<lambda>(candidate, _). (ident, candidate))
            (filter (\<lambda>(candidate, rename_hash). rename_hash = recorded_rename
               \<and> bm_get (decls frontier) ident = None \<and> candidate \<noteq> ident)
             (decl_renames frontier)))"

text \<open>One iteration of the loop: what the entry adds to \<^verbatim>\<open>mismatched\<close> and to \<^verbatim>\<open>moved\<close>.\<close>

definition evaluate_entry ::
  "fingerprint \<Rightarrow> frontier_content \<Rightarrow> string \<times> string \<Rightarrow> string list \<times> (string \<times> string) list"
where
  "evaluate_entry fingerprint frontier entry =
     (case entry of (key, recorded) \<Rightarrow>
       case strip_prefix key DECL_RENAME_PREFIX of
         Some _ \<Rightarrow> ([], [])
       | None \<Rightarrow>
          (case strip_prefix key DECL_PREFIX of
             Some ident \<Rightarrow>
               (case bm_get (decls frontier) ident of
                  Some current \<Rightarrow> (if current = recorded then [] else [key], [])
                | None \<Rightarrow> ([key], moved_to fingerprint frontier ident))
           | None \<Rightarrow>
               (case strip_prefix key PATH_PREFIX of
                  Some p \<Rightarrow> (if bm_get (paths frontier) p \<noteq> Some recorded then [key] else [], [])
                | None \<Rightarrow> ([key], []))))"

definition evaluate :: "fingerprint \<Rightarrow> frontier_content \<Rightarrow> freshness" where
  "evaluate fingerprint frontier =
     (let results = map (evaluate_entry fingerprint frontier) fingerprint;
          mismatched = concat (map fst results); moved = concat (map snd results)
      in if mismatched = [] then Fresh else Stale mismatched moved)"

section \<open>Content of a frontier by fingerprint key\<close>

text \<open>
  What a frontier holds under a fingerprint key; \<open>None\<close> for a key no content has. Companion keys
  are not content.
\<close>

definition companion :: "string \<Rightarrow> bool" where
  "companion key \<longleftrightarrow> starts_with key DECL_RENAME_PREFIX"

definition content_at :: "frontier_content \<Rightarrow> string \<Rightarrow> string option" where
  "content_at frontier key =
     (case strip_prefix key DECL_PREFIX of
        Some ident \<Rightarrow> bm_get (decls frontier) ident
      | None \<Rightarrow>
          (case strip_prefix key PATH_PREFIX of
             Some p \<Rightarrow> bm_get (paths frontier) p
           | None \<Rightarrow> None))"

lemmas prefixes = DECL_PREFIX_def PATH_PREFIX_def DECL_RENAME_PREFIX_def

lemma entry_mismatched:
  "fst (evaluate_entry fp f (key, recorded)) =
     (if companion key \<or> content_at f key = Some recorded then [] else [key])"
  by (auto simp: evaluate_entry_def companion_def content_at_def starts_with_iff_strip
      split: option.splits)

lemma evaluate_fresh_iff:
  "evaluate fp f = Fresh \<longleftrightarrow>
     (\<forall>key recorded. (key, recorded) \<in> set fp \<longrightarrow> companion key \<or> content_at f key = Some recorded)"
proof -
  have "evaluate fp f = Fresh \<longleftrightarrow> (\<forall>entry. entry \<in> set fp \<longrightarrow> fst (evaluate_entry fp f entry) = [])"
    by (auto simp: evaluate_def Let_def)
  then show ?thesis by (auto simp: entry_mismatched)
qed

text \<open>The maps of a frontier are maps.\<close>

definition frontier_ok :: "frontier_content \<Rightarrow> bool" where
  "frontier_ok f \<longleftrightarrow> bmap_ok (decls f) \<and> bmap_ok (decl_renames f) \<and> bmap_ok (paths f)"

lemma fold_insert_set:
  "set (fold (\<lambda>(k, v) m. bm_insert k v m) kvs m) \<subseteq> set kvs \<union> set m"
proof (induction kvs arbitrary: m)
  case (Cons kv kvs)
  have "set (bm_insert k v m) \<subseteq> insert (k, v) (set m)" for k :: 'a and v :: 'b
    by (induction k v m rule: bm_insert.induct) auto
  then show ?case using Cons [of "case kv of (k, v) \<Rightarrow> bm_insert k v m"] by (cases kv) fastforce
qed simp

lemma bm_of_list_set: "set (bm_of_list kvs) \<subseteq> set kvs"
  using fold_insert_set [of kvs "[]"] by (simp add: bm_of_list_def)

lemma matching_entries_get:
  assumes "bmap_ok m" and "(key, hash) \<in> set (matching_entries pfx glob m)"
  shows "\<exists>k. key = pfx @ k \<and> bm_get m k = Some hash"
  using assms bmap_ok_distinct [OF assms(1)] by (auto simp: matching_entries_def)

lemma resolved_entries:
  assumes "frontier_ok f" and "resolve_basis e f = Ok fp" and "(key, recorded) \<in> set fp"
  shows "companion key \<or> content_at f key = Some recorded"
  using assms
proof (induction e f arbitrary: fp rule: resolve_basis.induct)
  case (4 glob f)
  have ok: "bmap_ok (decls f)" "bmap_ok (decl_renames f)" using "4.prems"(1) by (simp_all add: frontier_ok_def)
  consider "(key, recorded) \<in> set (matching_entries DECL_RENAME_PREFIX glob (decl_renames f))"
    | "(key, recorded) \<in> set (matching_entries DECL_PREFIX glob (decls f))"
    using 4 fold_insert_set bm_of_list_set by fastforce
  then show ?case
    by cases (auto dest!: matching_entries_get [OF ok(1)] matching_entries_get [OF ok(2)]
        simp: companion_def content_at_def starts_with_iff_strip)
next
  case (5 glob f)
  have ok: "bmap_ok (paths f)" using "5.prems"(1) by (simp add: frontier_ok_def)
  have "(key, recorded) \<in> set (matching_entries PATH_PREFIX glob (paths f))"
    using 5 bm_of_list_set by fastforce
  then show ?case
    by (auto dest!: matching_entries_get [OF ok] simp: content_at_def prefixes)
qed (use fold_insert_set in \<open>fastforce simp: res_simps\<close>)+

lemma resolve_basis_result:
  "resolve_basis e f = (case region_position_violations e of
       [] \<Rightarrow> Ok (the (case resolve_basis e f of Inl _ \<Rightarrow> None | Inr fp \<Rightarrow> Some fp))
     | name # _ \<Rightarrow> Err (change_set_atom name))"
  by (induction e f rule: resolve_basis.induct) (auto split: list.splits sum.splits simp: res_simps)

lemma stale_moved:
  assumes "evaluate fp f = Stale mismatched moved" and "(ident, candidate) \<in> set moved"
  shows "\<exists>recorded. (DECL_PREFIX @ ident, recorded) \<in> set fp
    \<and> (ident, candidate) \<in> set (moved_to fp f ident) \<and> bm_get (decls f) ident = None"
proof -
  from assms obtain key recorded where
    entry: "(key, recorded) \<in> set fp" "(ident, candidate) \<in> set (snd (evaluate_entry fp f (key, recorded)))"
    by (auto simp: evaluate_def Let_def split: if_splits)
  then obtain ident' where "key = DECL_PREFIX @ ident'" "bm_get (decls f) ident' = None"
      "(ident, candidate) \<in> set (moved_to fp f ident')"
    by (auto simp: evaluate_entry_def strip_prefix_eq_append split: option.splits)
  moreover from this(3) have "ident' = ident" by (auto simp: moved_to_def split: option.splits)
  ultimately show ?thesis using entry(1) by auto
qed

section \<open>Theorems\<close>

text \<open>
  A basis resolves exactly when it is a well-formed region: resolution fails exactly for the
  expressions the position check objects to, and the error names the first atom it objects to.
\<close>

theorem resolution_refuses_violations:
  "((\<exists>fp. resolve_basis e f = Ok fp) \<longleftrightarrow> region_position_violations e = [])
   \<and> (resolve_basis e f = Err m \<longleftrightarrow>
        (\<exists>name others. region_position_violations e = name # others \<and> m = change_set_atom name))"
  using resolve_basis_result [of e f]
  by (cases "region_position_violations e"; cases "resolve_basis e f") auto

text \<open>
  Evidence is fresh where it was attested: a basis resolved at a frontier evaluates as fresh
  at that frontier, and at every frontier with the same content under the resolved keys, however
  it was reached.
\<close>

theorem resolved_basis_is_fresh:
  assumes "frontier_ok f" and "resolve_basis e f = Ok fp"
    and "\<And>key. key \<in> set (bm_keys fp) \<Longrightarrow> content_at f' key = content_at f key"
  shows "evaluate fp f = Fresh \<and> evaluate fp f' = Fresh"
  using resolved_entries [OF assms(1,2)] assms(3) by (force simp: evaluate_fresh_iff)

text \<open>
  Staleness is exact and total: a fingerprint evaluates as fresh exactly when each of its
  content entries is the frontier's current content; otherwise the mismatched keys are exactly the
  content entries that differ, in the order of the fingerprint. Keys of an unknown kind never
  match.
\<close>

theorem staleness_is_exact:
  "case evaluate fp f of
     Fresh \<Rightarrow> (\<forall>key recorded. (key, recorded) \<in> set fp \<longrightarrow> companion key \<or> content_at f key = Some recorded)
   | Stale mismatched moved \<Rightarrow> mismatched \<noteq> [] \<and> mismatched =
       map fst (filter (\<lambda>(key, recorded). \<not> companion key \<and> content_at f key \<noteq> Some recorded) fp)"
proof -
  have "concat (map fst (map (evaluate_entry fp' f) fp)) =
      map fst (filter (\<lambda>(key, recorded). \<not> companion key \<and> content_at f key \<noteq> Some recorded) fp)" for fp'
    by (induction fp) (auto simp: entry_mismatched)
  then show ?thesis
    using evaluate_fresh_iff [of fp f] by (auto simp: evaluate_def Let_def)
qed

text \<open>
  A rename advisory is minted from hash equality only: the advised declaration was attested
  and is absent from the frontier, its entry stays mismatched, and the candidate is another
  declaration of the frontier whose name-neutral hash is the recorded one.
\<close>

theorem moved_advisory_sound:
  assumes "evaluate fp f = Stale mismatched moved" and "(ident, candidate) \<in> set moved"
    and "bmap_ok (decl_renames f)"
  shows "DECL_PREFIX @ ident \<in> set mismatched \<and> bm_get (decls f) ident = None \<and> candidate \<noteq> ident
    \<and> (\<exists>h. bm_get fp (DECL_RENAME_PREFIX @ ident) = Some h \<and> bm_get (decl_renames f) candidate = Some h)"
proof -
  from stale_moved [OF assms(1,2)] obtain recorded where
    entry: "(DECL_PREFIX @ ident, recorded) \<in> set fp" "bm_get (decls f) ident = None"
    and moved: "(ident, candidate) \<in> set (moved_to fp f ident)" by blast
  have "DECL_PREFIX @ ident \<in> set (fst (evaluate_entry fp f (DECL_PREFIX @ ident, recorded)))"
    using entry(2) by (simp add: entry_mismatched companion_def content_at_def prefixes)
  then have "DECL_PREFIX @ ident \<in> set mismatched"
    using assms(1) entry(1) by (force simp: evaluate_def Let_def split: if_splits)
  then show ?thesis
    using moved entry(2) bmap_ok_distinct [OF assms(3)]
    by (cases "bm_get fp (DECL_RENAME_PREFIX @ ident)") (auto simp: moved_to_def)
qed

section \<open>Witnesses\<close>

abbreviation frontier0 :: frontier_content where
  "frontier0 \<equiv> \<lparr>decls = [(''rule a'', ''h1'')], decl_renames = [(''rule a'', ''r1'')], paths = [(''x'', ''p1'')]\<rparr>"

abbreviation frontier1 :: frontier_content where
  "frontier1 \<equiv> \<lparr>decls = [(''rule b'', ''h2'')], decl_renames = [(''rule b'', ''r1'')], paths = [(''x'', ''p1'')]\<rparr>"

lemma resolve_rule_a:
  "resolve_basis (Atom (Decl ''rule a'')) frontier0 =
     Ok [(''decl-rename:rule a'', ''r1''), (''decl:rule a'', ''h1'')]"
  by code_simp

theorem resolved_basis_is_fresh_witness:
  "evaluate [(''decl-rename:rule a'', ''r1''), (''decl:rule a'', ''h1'')] frontier0 = Fresh"
  using resolved_basis_is_fresh [OF _ resolve_rule_a, of frontier0]
  by (simp add: frontier_ok_def bmap_ok_def)

theorem staleness_is_exact_witness: "content_at frontier0 ''decl:rule a'' = Some ''h1''"
proof -
  have "evaluate [(''decl:rule a'', ''h1'')] frontier0 = Fresh" by code_simp
  then show ?thesis
    using staleness_is_exact [of "[(''decl:rule a'', ''h1'')]" frontier0]
    by (simp add: companion_def DECL_RENAME_PREFIX_def)
qed

theorem moved_advisory_sound_witness:
  "''decl:rule a'' \<in> set [''decl:rule a''] \<and> ''rule b'' \<noteq> ''rule a''"
proof -
  have "evaluate [(''decl-rename:rule a'', ''r1''), (''decl:rule a'', ''h1'')] frontier1
      = Stale [''decl:rule a''] [(''rule a'', ''rule b'')]"
    by code_simp
  from moved_advisory_sound [OF this, of "''rule a''" "''rule b''"] show ?thesis
    by (simp add: bmap_ok_def DECL_PREFIX_def)
qed

end
