(* ===== verification/Evidence.thy ===== *)
theory Evidence
  imports Ordered_Maps
begin

text \<open>
  Report adequacy and bounded proofs, \<^verbatim>\<open>crates/whipplescript-core/src/norm_evidence.rs\<close>: a test report
  is judged against an independently installed contract. The lemmas say exactly when a report
  passes, that no failure observed under a valid exercise is dropped, and when a finite proof is
  established.

  The values of cases and observations are \<^verbatim>\<open>serde_json\<close> values, used only through equality: they are
  the type parameter \<open>'v\<close>. The trait \<^verbatim>\<open>ReportVerifier\<close> is implemented by the host and is a record of
  its two operations.
\<close>

section \<open>Data\<close>

record evidence_version =
  name :: string
  version :: string
  digest :: string

record evidence_subject =
  requirement :: evidence_version
  "method" :: evidence_version
  artifact :: string

record 'v required_case =
  case_id :: string
  assertion :: string
  expected :: 'v

record 'v report_contract =
  contract_subject :: evidence_subject
  cases :: "'v required_case list"

datatype artifact_provenance =
  Interpreted string string string
    \<comment> \<open>source frontier, interpreter, environment\<close>
| Built string string string string
    \<comment> \<open>source frontier, build, toolchain, environment\<close>

datatype report_completion = Complete | Truncated | Missing

datatype process_termination = Success | Failure | Crashed | Unknown

record 'v assertion_observation =
  observed_case :: string
  observed_assertion :: string
  actual :: 'v
  "witness" :: string

record 'v test_report =
  report_subject :: evidence_subject
  provenance :: "artifact_provenance option"
  completion :: report_completion
  "termination" :: process_termination
  observations :: "'v assertion_observation list"

record 'v report_verifier =
  verify_report_binding :: "'v test_report \<Rightarrow> bool"
  verify_assertion_exercise :: "'v test_report \<Rightarrow> 'v assertion_observation \<Rightarrow> bool"

datatype evidence_diagnostic =
  InvalidIdentity
| EmptyFamily
| InvalidCase string
| DuplicateRequiredCase string
| RequirementMismatch
| MethodMismatch
| ArtifactMismatch
| MissingProvenance
| UnboundReport
| MissingReport
| TruncatedReport
| UnknownCase string
| DuplicateObservation string
| AssertionMismatch string
| UnverifiedExercise string
| MissingCase string
| InconsistentTermination

record 'v counterexample =
  ce_case :: string
  ce_witness :: string
  ce_expected :: 'v
  ce_actual :: 'v

datatype test_outcome = Pass | Fail | HarnessFailed

record 'v test_judgment =
  subject :: evidence_subject
  reported_subject :: evidence_subject
  outcome :: test_outcome
  required :: "string set"
  exercised :: "string set"
  counterexamples :: "'v counterexample list"
  diagnostics :: "evidence_diagnostic set"

section \<open>Evaluation of a report\<close>

definition nonempty :: "string \<Rightarrow> bool" where
  "nonempty s \<longleftrightarrow> \<not> blank s"

definition valid_version :: "evidence_version \<Rightarrow> bool" where
  "valid_version v \<longleftrightarrow> nonempty (name v) \<and> nonempty (version v) \<and> nonempty (digest v)"

definition valid_subject :: "evidence_subject \<Rightarrow> bool" where
  "valid_subject s \<longleftrightarrow>
     nonempty (artifact s) \<and> valid_version (requirement s) \<and> valid_version (method s)"

text \<open>\<^verbatim>\<open>if cond { diagnostics.insert(d); }\<close>\<close>

definition note_if :: "bool \<Rightarrow> 'd \<Rightarrow> 'd set \<Rightarrow> 'd set" where
  "note_if cond d ds = (if cond then insert d ds else ds)"

text \<open>The loop over the required cases: the diagnostics, the map of cases, the ambiguous ids.\<close>

fun index_cases ::
  "'v required_case list \<Rightarrow> evidence_diagnostic set \<times> (string, 'v required_case) bmap \<times> string set
     \<Rightarrow> evidence_diagnostic set \<times> (string, 'v required_case) bmap \<times> string set"
where
  "index_cases [] acc = acc"
| "index_cases (c # cs) (ds, index, ambiguous) =
     (let invalid = \<not> nonempty (case_id c) \<or> \<not> nonempty (assertion c);
          repeated = bm_get index (case_id c) \<noteq> None;
          ds' = note_if repeated (DuplicateRequiredCase (case_id c))
                  (note_if invalid (InvalidCase (case_id c)) ds);
          ambiguous' = note_if (invalid \<or> repeated) (case_id c) ambiguous
      in index_cases cs (ds', bm_insert (case_id c) c index, ambiguous'))"

record 'v observation_state =
  obs_diagnostics :: "evidence_diagnostic set"
  seen :: "string set"
  obs_exercised :: "string set"
  obs_counterexamples :: "'v counterexample list"

text \<open>One iteration of the loop over the observations.\<close>

definition observe ::
  "'v report_verifier \<Rightarrow> 'v test_report \<Rightarrow> (string, 'v required_case) bmap \<Rightarrow> string set \<Rightarrow> bool
     \<Rightarrow> 'v assertion_observation \<Rightarrow> 'v observation_state \<Rightarrow> 'v observation_state"
where
  "observe verifier report index ambiguous bound ob st =
     (let c = observed_case ob;
          ds = note_if (c \<in> seen st) (DuplicateObservation c) (obs_diagnostics st);
          st = st\<lparr>seen := insert c (seen st)\<rparr>
      in case bm_get index c of
        None \<Rightarrow> st\<lparr>obs_diagnostics := insert (UnknownCase c) ds\<rparr>
      | Some required_case \<Rightarrow>
          let assertion_matches = (assertion required_case = observed_assertion ob);
              verified = (nonempty (witness ob) \<and> verify_assertion_exercise verifier report ob);
              ds = note_if (\<not> verified) (UnverifiedExercise c)
                     (note_if (\<not> assertion_matches) (AssertionMismatch c) ds);
              st = st\<lparr>obs_diagnostics := ds\<rparr>
          in if bound \<and> assertion_matches \<and> verified \<and> c \<notin> ambiguous then
               st\<lparr>obs_exercised := insert c (obs_exercised st),
                  obs_counterexamples := obs_counterexamples st @
                    (if actual ob \<noteq> expected required_case
                     then [\<lparr>ce_case = c, ce_witness = witness ob, ce_expected = expected required_case,
                            ce_actual = actual ob\<rparr>]
                     else [])\<rparr>
             else st)"

definition consistent_termination :: "process_termination \<Rightarrow> 'v counterexample list \<Rightarrow> bool" where
  "consistent_termination t ces =
     (case t of Success \<Rightarrow> ces = [] | Failure \<Rightarrow> ces \<noteq> [] | Crashed \<Rightarrow> False | Unknown \<Rightarrow> False)"

definition completion_diagnostics :: "report_completion \<Rightarrow> evidence_diagnostic set" where
  "completion_diagnostics c =
     (case c of Complete \<Rightarrow> {} | Truncated \<Rightarrow> {TruncatedReport} | Missing \<Rightarrow> {MissingReport})"

definition report_bound :: "'v report_contract \<Rightarrow> 'v test_report \<Rightarrow> 'v report_verifier \<Rightarrow> bool" where
  "report_bound contract report verifier \<longleftrightarrow>
     valid_subject (contract_subject contract) \<and> valid_subject (report_subject report)
     \<and> requirement (contract_subject contract) = requirement (report_subject report)
     \<and> method (contract_subject contract) = method (report_subject report)
     \<and> artifact (contract_subject contract) = artifact (report_subject report)
     \<and> provenance report \<noteq> None \<and> verify_report_binding verifier report"

definition binding_diagnostics ::
  "'v report_contract \<Rightarrow> 'v test_report \<Rightarrow> 'v report_verifier \<Rightarrow> evidence_diagnostic set \<Rightarrow> evidence_diagnostic set"
where
  "binding_diagnostics contract report verifier ds =
     (let c = contract_subject contract; r = report_subject report
      in note_if (\<not> verify_report_binding verifier report) UnboundReport
           (note_if (provenance report = None) MissingProvenance
             (note_if (artifact c \<noteq> artifact r) ArtifactMismatch
               (note_if (method c \<noteq> method r) MethodMismatch
                 (note_if (requirement c \<noteq> requirement r) RequirementMismatch ds)))))"

definition evaluate_report ::
  "'v report_contract \<Rightarrow> 'v test_report \<Rightarrow> 'v report_verifier \<Rightarrow> 'v test_judgment"
where
  "evaluate_report contract report verifier =
     (let ds0 = note_if (cases contract = []) EmptyFamily
            (note_if (\<not> (valid_subject (contract_subject contract) \<and> valid_subject (report_subject report)))
              InvalidIdentity {});
          (ds1, index, ambiguous) = index_cases (cases contract) (ds0, [], {});
          ds2 = binding_diagnostics contract report verifier ds1;
          bound = report_bound contract report verifier;
          ds3 = ds2 \<union> completion_diagnostics (completion report);
          st = fold (observe verifier report index ambiguous bound) (observations report)
            \<lparr>obs_diagnostics = ds3, seen = {}, obs_exercised = {}, obs_counterexamples = []\<rparr>;
          required_ids = set (bm_keys index);
          ces = obs_counterexamples st;
          ds4 = obs_diagnostics st \<union> MissingCase ` (required_ids - obs_exercised st);
          ds5 = note_if (\<not> consistent_termination (termination report) ces) InconsistentTermination ds4
      in \<lparr>subject = contract_subject contract, reported_subject = report_subject report,
          outcome = (if ds5 \<noteq> {} then HarnessFailed else if ces = [] then Pass else Fail),
          required = required_ids, exercised = obs_exercised st, counterexamples = ces,
          diagnostics = ds5\<rparr>)"

section \<open>Finite proofs\<close>

record finite_proof_judgment =
  admitted_interpretations :: "string set"
  countermodels :: "string set"
  unknown_interpretations :: "string set"
  established :: bool

definition evaluate_finite_proof :: "(string, bool) bmap \<Rightarrow> string set list \<Rightarrow> finite_proof_judgment" where
  "evaluate_finite_proof prop premises =
     (let universe = set (bm_keys prop);
          (admitted, unknown) = fold (\<lambda>premise (admitted, unknown).
            (admitted \<inter> premise, unknown \<union> (premise - universe))) premises (universe, {});
          countermodels = {world \<in> admitted. bm_get prop world = Some False}
      in \<lparr>admitted_interpretations = admitted, countermodels = countermodels,
          unknown_interpretations = unknown,
          established = (admitted \<noteq> {} \<and> unknown = {} \<and> countermodels = {})\<rparr>)"

section \<open>The index of the required cases\<close>

lemma note_if_iff [simp]: "x \<in> note_if b d ds \<longleftrightarrow> b \<and> x = d \<or> x \<in> ds"
  by (simp add: note_if_def)

lemma note_if_empty [simp]: "note_if b d ds = {} \<longleftrightarrow> \<not> b \<and> ds = {}"
  by (auto simp: note_if_def)

definition with_id :: "'v required_case list \<Rightarrow> string \<Rightarrow> 'v required_case list" where
  "with_id cs i = filter (\<lambda>c. case_id c = i) cs"

definition valid_case :: "'v required_case \<Rightarrow> bool" where
  "valid_case c \<longleftrightarrow> nonempty (case_id c) \<and> nonempty (assertion c)"

lemma index_cases_append: "index_cases (xs @ ys) acc = index_cases ys (index_cases xs acc)"
  by (induction xs acc rule: index_cases.induct) (simp_all add: Let_def)

lemma index_cases_result:
  assumes "index_cases cs (ds0, [], {}) = (ds, index, ambiguous)"
  shows "bm_get index i = (if with_id cs i = [] then None else Some (last (with_id cs i)))
    \<and> (i \<in> ambiguous \<longleftrightarrow> \<not> list_all valid_case (with_id cs i) \<or> 1 < length (with_id cs i))
    \<and> (d \<in> ds \<longleftrightarrow> d \<in> ds0 \<or> (\<exists>j. d = InvalidCase j \<and> \<not> list_all valid_case (with_id cs j)
          \<or> d = DuplicateRequiredCase j \<and> 1 < length (with_id cs j)))"
  using assms
proof (induction cs arbitrary: ds index ambiguous i d rule: rev_induct)
  case Nil
  then show ?case by (simp add: with_id_def)
next
  case (snoc c cs)
  obtain ds1 index1 amb1 where pre: "index_cases cs (ds0, [], {}) = (ds1, index1, amb1)"
    by (metis prod_cases3)
  have eqs: "index = bm_insert (case_id c) c index1"
    "ambiguous = note_if (\<not> valid_case c \<or> with_id cs (case_id c) \<noteq> []) (case_id c) amb1"
    "ds = note_if (with_id cs (case_id c) \<noteq> []) (DuplicateRequiredCase (case_id c))
            (note_if (\<not> valid_case c) (InvalidCase (case_id c)) ds1)"
    using snoc.prems snoc.IH [OF pre]
    by (auto simp: index_cases_append pre Let_def valid_case_def split: if_splits)
  note IH = snoc.IH [OF pre]
  have app: "with_id (cs @ [c]) j = with_id cs j @ (if case_id c = j then [c] else [])" for j
    by (simp add: with_id_def)
  have "1 < length (with_id cs j @ [c]) \<longleftrightarrow> with_id cs j \<noteq> []" for j by simp
  then show ?case
    using IH by (auto simp: eqs app)
qed

section \<open>The loop over the observations\<close>

text \<open>The observation names a known case, asserts what the case asserts, and its exercise is verified.\<close>

definition exercises ::
  "'v report_verifier \<Rightarrow> 'v test_report \<Rightarrow> 'v assertion_observation \<Rightarrow> 'v required_case \<Rightarrow> bool"
where
  "exercises verifier report ob c \<longleftrightarrow>
     assertion c = observed_assertion ob \<and> nonempty (witness ob) \<and> verify_assertion_exercise verifier report ob"

definition counterexample_of :: "'v assertion_observation \<Rightarrow> 'v required_case \<Rightarrow> 'v counterexample" where
  "counterexample_of ob c =
     \<lparr>ce_case = observed_case ob, ce_witness = witness ob, ce_expected = expected c, ce_actual = actual ob\<rparr>"

lemma observe_fields:
  assumes "st' = observe verifier report index ambiguous bound ob st"
  shows "seen st' = insert (observed_case ob) (seen st)"
    and "obs_diagnostics st' = {} \<longleftrightarrow> obs_diagnostics st = {} \<and> observed_case ob \<notin> seen st
      \<and> (\<exists>c. bm_get index (observed_case ob) = Some c \<and> exercises verifier report ob c)"
    and "x \<in> obs_exercised st' \<longleftrightarrow> x \<in> obs_exercised st \<or> x = observed_case ob \<and> bound \<and> x \<notin> ambiguous
      \<and> (\<exists>c. bm_get index x = Some c \<and> exercises verifier report ob c)"
    and "ce \<in> set (obs_counterexamples st') \<longleftrightarrow> ce \<in> set (obs_counterexamples st)
      \<or> bound \<and> observed_case ob \<notin> ambiguous
        \<and> (\<exists>c. bm_get index (observed_case ob) = Some c \<and> exercises verifier report ob c
             \<and> actual ob \<noteq> expected c \<and> ce = counterexample_of ob c)"
  unfolding assms
  by (cases "bm_get index (observed_case ob)"; auto simp: observe_def Let_def exercises_def counterexample_of_def)+

text \<open>What the loop over all observations leaves, from the state it starts in.\<close>

lemma observations_result:
  assumes "st = fold (observe verifier report index ambiguous bound) obs
      \<lparr>obs_diagnostics = ds, seen = {}, obs_exercised = {}, obs_counterexamples = []\<rparr>"
  shows "seen st = set (map observed_case obs)"
    and "obs_diagnostics st = {} \<longleftrightarrow> ds = {} \<and> distinct (map observed_case obs)
      \<and> (\<forall>ob. ob \<in> set obs \<longrightarrow>
            (\<exists>c. bm_get index (observed_case ob) = Some c \<and> exercises verifier report ob c))"
    and "x \<in> obs_exercised st \<longleftrightarrow> bound \<and> x \<notin> ambiguous \<and> (\<exists>ob c. ob \<in> set obs \<and> observed_case ob = x
      \<and> bm_get index x = Some c \<and> exercises verifier report ob c)"
    and "ce \<in> set (obs_counterexamples st) \<longleftrightarrow> bound \<and> (\<exists>ob c. ob \<in> set obs
      \<and> observed_case ob \<notin> ambiguous \<and> bm_get index (observed_case ob) = Some c
      \<and> exercises verifier report ob c \<and> actual ob \<noteq> expected c \<and> ce = counterexample_of ob c)"
proof -
  have "seen st = set (map observed_case obs)
    \<and> (obs_diagnostics st = {} \<longleftrightarrow> ds = {} \<and> distinct (map observed_case obs)
      \<and> (\<forall>ob. ob \<in> set obs \<longrightarrow>
            (\<exists>c. bm_get index (observed_case ob) = Some c \<and> exercises verifier report ob c)))"
    unfolding assms
  proof (induction obs rule: rev_induct)
    case (snoc ob obs)
    then show ?case by (simp add: observe_fields(1,2) [OF refl]) blast
  qed simp
  then show "seen st = set (map observed_case obs)"
    and "obs_diagnostics st = {} \<longleftrightarrow> ds = {} \<and> distinct (map observed_case obs)
      \<and> (\<forall>ob. ob \<in> set obs \<longrightarrow>
            (\<exists>c. bm_get index (observed_case ob) = Some c \<and> exercises verifier report ob c))"
    by blast+
  show "x \<in> obs_exercised st \<longleftrightarrow> bound \<and> x \<notin> ambiguous \<and> (\<exists>ob c. ob \<in> set obs \<and> observed_case ob = x
      \<and> bm_get index x = Some c \<and> exercises verifier report ob c)"
    unfolding assms
  proof (induction obs rule: rev_induct)
    case (snoc ob obs)
    then show ?case by (simp add: observe_fields(3) [OF refl]) blast
  qed simp
  show "ce \<in> set (obs_counterexamples st) \<longleftrightarrow> bound \<and> (\<exists>ob c. ob \<in> set obs
      \<and> observed_case ob \<notin> ambiguous \<and> bm_get index (observed_case ob) = Some c
      \<and> exercises verifier report ob c \<and> actual ob \<noteq> expected c \<and> ce = counterexample_of ob c)"
    unfolding assms
  proof (induction obs rule: rev_induct)
    case (snoc ob obs)
    then show ?case by (simp add: observe_fields(4) [OF refl]) blast
  qed simp
qed

section \<open>Judgments\<close>

lemma distinct_ids_iff: "distinct (map case_id cs) \<longleftrightarrow> (\<forall>j. length (with_id cs j) \<le> 1)"
proof (induction cs)
  case (Cons c cs)
  have "length (with_id (c # cs) j) \<le> 1 \<longleftrightarrow> length (with_id cs j) \<le> 1 \<and> (case_id c = j \<longrightarrow> with_id cs j = [])" for j
    by (auto simp: with_id_def)
  moreover have "with_id cs (case_id c) = [] \<longleftrightarrow> case_id c \<notin> set (map case_id cs)"
    by (auto simp: with_id_def filter_empty_conv image_iff)
  ultimately show ?case using Cons by auto
qed (simp add: with_id_def)

lemma valid_ids_iff: "list_all valid_case cs \<longleftrightarrow> (\<forall>j. list_all valid_case (with_id cs j))"
  by (auto simp: with_id_def list_all_iff)

lemma with_id_unique:
  assumes "distinct (map case_id cs)"
  shows "with_id cs i \<noteq> [] \<and> last (with_id cs i) = c \<longleftrightarrow> c \<in> set cs \<and> case_id c = i"
proof -
  have "length (with_id cs i) \<le> 1" using assms by (simp add: distinct_ids_iff)
  then have "with_id cs i = [] \<or> (\<exists>d. with_id cs i = [d])"
    by (cases "with_id cs i") (auto simp: length_Suc_conv)
  moreover have "c \<in> set cs \<and> case_id c = i \<longleftrightarrow> c \<in> set (with_id cs i)" by (auto simp: with_id_def)
  ultimately show ?thesis by auto
qed

text \<open>The pieces of a judgment, with the index and the final state of the loops named.\<close>

lemma evaluate_report_parts:
  assumes "index_cases (cases contract) (note_if (cases contract = []) EmptyFamily
      (note_if (\<not> (valid_subject (contract_subject contract) \<and> valid_subject (report_subject report)))
        InvalidIdentity {}), [], {}) = (ds, index, ambiguous)"
    and "st = fold (observe verifier report index ambiguous (report_bound contract report verifier))
      (observations report)
      \<lparr>obs_diagnostics = binding_diagnostics contract report verifier ds
          \<union> completion_diagnostics (completion report),
        seen = {}, obs_exercised = {}, obs_counterexamples = []\<rparr>"
    and "j = evaluate_report contract report verifier"
  shows "counterexamples j = obs_counterexamples st" "exercised j = obs_exercised st"
    "required j = set (bm_keys index)"
    "diagnostics j = {} \<longleftrightarrow> obs_diagnostics st = {} \<and> set (bm_keys index) \<subseteq> obs_exercised st
       \<and> consistent_termination (termination report) (obs_counterexamples st)"
    "outcome j = (if diagnostics j \<noteq> {} then HarnessFailed else if counterexamples j = [] then Pass else Fail)"
  using assms by (auto simp: evaluate_report_def Let_def)

lemma binding_diagnostics_empty:
  assumes "ds = {} \<Longrightarrow> valid_subject (contract_subject contract) \<and> valid_subject (report_subject report)"
  shows "binding_diagnostics contract report verifier ds = {} \<longleftrightarrow> ds = {} \<and> report_bound contract report verifier"
  using assms
  by (auto simp: binding_diagnostics_def report_bound_def Let_def)

text \<open>A judgment without diagnostics: everything but the values is as the contract asks.\<close>

definition adequate :: "'v report_contract \<Rightarrow> 'v test_report \<Rightarrow> 'v report_verifier \<Rightarrow> bool" where
  "adequate contract report verifier \<longleftrightarrow>
     report_bound contract report verifier \<and> completion report = Complete
     \<and> cases contract \<noteq> [] \<and> distinct (map case_id (cases contract)) \<and> list_all valid_case (cases contract)
     \<and> distinct (map observed_case (observations report))
     \<and> set (map observed_case (observations report)) = set (map case_id (cases contract))
     \<and> (\<forall>ob c. ob \<in> set (observations report) \<longrightarrow> c \<in> set (cases contract) \<longrightarrow>
          observed_case ob = case_id c \<longrightarrow> exercises verifier report ob c)"

lemmas index_cases_get = index_cases_result [THEN conjunct1]
  and index_cases_ambiguous = index_cases_result [THEN conjunct2, THEN conjunct1]
  and index_cases_diagnostics = index_cases_result [THEN conjunct2, THEN conjunct2]

lemma index_cases_clean:
  assumes ix: "index_cases cs (ds0, [], {}) = (ds, index, ambiguous)"
  shows "ds = {} \<longleftrightarrow> ds0 = {} \<and> distinct (map case_id cs) \<and> list_all valid_case cs"
proof -
  note diag = index_cases_diagnostics [OF ix]
  have "InvalidCase j \<in> ds" if "\<not> list_all valid_case (with_id cs j)" for j
    using that by (simp add: diag)
  moreover have "DuplicateRequiredCase j \<in> ds" if "\<not> length (with_id cs j) \<le> 1" for j
    using that by (simp add: diag)
  moreover have "d \<in> ds" if "d \<in> ds0" for d using that by (simp add: diag)
  moreover have "d \<in> ds0 \<or> (\<exists>j. \<not> list_all valid_case (with_id cs j)) \<or> (\<exists>j. \<not> length (with_id cs j) \<le> 1)"
    if "d \<in> ds" for d
    using that by (auto simp: diag not_le)
  ultimately show ?thesis
    unfolding distinct_ids_iff valid_ids_iff [of cs] by (metis empty_iff equals0I)
qed

lemma index_cases_lookup:
  assumes ix: "index_cases cs (ds0, [], {}) = (ds, index, ambiguous)"
    and ok: "distinct (map case_id cs)" "list_all valid_case cs"
  shows "bm_get index i = Some c \<longleftrightarrow> c \<in> set cs \<and> case_id c = i" and "i \<notin> ambiguous"
    and "set (bm_keys index) = case_id ` set cs"
proof -
  have "\<not> 1 < length (with_id cs i)" "list_all valid_case (with_id cs i)"
    using ok unfolding distinct_ids_iff valid_ids_iff [of cs] not_less by blast+
  then show "i \<notin> ambiguous" by (simp add: index_cases_ambiguous [OF ix])
  have get: "bm_get index k = Some c \<longleftrightarrow> c \<in> set cs \<and> case_id c = k" for k c
    using with_id_unique [OF ok(1), of k c] by (auto simp: index_cases_get [OF ix])
  then show "bm_get index i = Some c \<longleftrightarrow> c \<in> set cs \<and> case_id c = i" .
  have "k \<in> set (bm_keys index) \<longleftrightarrow> (\<exists>c. bm_get index k = Some c)" for k
    using bm.keys_get [of k index] by blast
  then show "set (bm_keys index) = case_id ` set cs" unfolding get by (intro set_eqI) auto
qed

lemma completion_empty [simp]: "completion_diagnostics c = {} \<longleftrightarrow> c = Complete"
  by (cases c) (simp_all add: completion_diagnostics_def)

text \<open>Two readings of "each case is observed and each observation fits its case".\<close>

lemma observed_exactly:
  assumes inj: "inj_on case_id (set cs)"
  shows "(\<forall>ob. ob \<in> set obs \<longrightarrow> (\<exists>c. (c \<in> set cs \<and> case_id c = observed_case ob) \<and> E ob c))
      \<and> (\<forall>x. x \<in> case_id ` set cs \<longrightarrow> (\<exists>ob c. ob \<in> set obs \<and> observed_case ob = x
            \<and> (c \<in> set cs \<and> case_id c = x) \<and> E ob c))
    \<longleftrightarrow> set (map observed_case obs) = set (map case_id cs)
      \<and> (\<forall>ob c. ob \<in> set obs \<longrightarrow> c \<in> set cs \<longrightarrow> observed_case ob = case_id c \<longrightarrow> E ob c)"
    (is "?known \<and> ?covered \<longleftrightarrow> ?same \<and> ?all")
proof -
  have same: "?same \<longleftrightarrow> (\<forall>ob. ob \<in> set obs \<longrightarrow> (\<exists>c. c \<in> set cs \<and> case_id c = observed_case ob))
      \<and> (\<forall>c. c \<in> set cs \<longrightarrow> (\<exists>ob. ob \<in> set obs \<and> observed_case ob = case_id c))"
    unfolding set_map set_eq_subset image_subset_iff image_iff Ball_def Bex_def by metis
  have "?all" if k: ?known
  proof (intro allI impI)
    fix ob c
    assume "ob \<in> set obs" "c \<in> set cs" "observed_case ob = case_id c"
    moreover from this(1) k obtain c' where "c' \<in> set cs" "case_id c' = observed_case ob" "E ob c'"
      by blast
    ultimately show "E ob c" using inj by (metis inj_onD)
  qed
  moreover have ?same if ?known ?covered unfolding same using that by blast
  moreover have ?known if s: ?same and a: ?all
  proof (intro allI impI)
    fix ob assume ob: "ob \<in> set obs"
    then obtain c where "c \<in> set cs" "case_id c = observed_case ob" using s [unfolded same] by blast
    then show "\<exists>c. (c \<in> set cs \<and> case_id c = observed_case ob) \<and> E ob c" using a ob by auto
  qed
  moreover have ?covered if s: ?same and a: ?all
  proof (intro allI impI)
    fix x assume "x \<in> case_id ` set cs"
    then obtain c where c: "c \<in> set cs" "x = case_id c" by blast
    moreover obtain ob where "ob \<in> set obs" "observed_case ob = case_id c"
      using s [unfolded same] c(1) by blast
    ultimately show "\<exists>ob c. ob \<in> set obs \<and> observed_case ob = x \<and> (c \<in> set cs \<and> case_id c = x) \<and> E ob c"
      using a by blast
  qed
  ultimately show ?thesis by blast
qed

text \<open>A judgment is without diagnostics exactly for an adequate report with a consistent termination.\<close>

lemma judgment_clean:
  assumes j: "j = evaluate_report contract report verifier"
  shows "diagnostics j = {} \<longleftrightarrow> adequate contract report verifier
      \<and> consistent_termination (termination report) (counterexamples j)"
proof -
  let ?cs = "cases contract" and ?obs = "observations report"
  obtain ds index ambiguous where ix: "index_cases ?cs (note_if (?cs = []) EmptyFamily
      (note_if (\<not> (valid_subject (contract_subject contract) \<and> valid_subject (report_subject report)))
        InvalidIdentity {}), [], {}) = (ds, index, ambiguous)"
    by (metis prod_cases3)
  note parts = evaluate_report_parts [OF ix refl j]
  note obs = observations_result [OF refl, where index = index and ambiguous = ambiguous]
  define known where "known \<longleftrightarrow> (\<forall>ob. ob \<in> set ?obs \<longrightarrow>
    (\<exists>c. bm_get index (observed_case ob) = Some c \<and> exercises verifier report ob c))"
  define covered where "covered \<longleftrightarrow> (\<forall>x. x \<in> set (bm_keys index) \<longrightarrow>
    report_bound contract report verifier \<and> x \<notin> ambiguous
    \<and> (\<exists>ob c. ob \<in> set ?obs \<and> observed_case ob = x \<and> bm_get index x = Some c \<and> exercises verifier report ob c))"
  have ds: "ds = {} \<longleftrightarrow> ?cs \<noteq> [] \<and> valid_subject (contract_subject contract)
      \<and> valid_subject (report_subject report) \<and> distinct (map case_id ?cs) \<and> list_all valid_case ?cs"
    unfolding index_cases_clean [OF ix] by auto
  have "diagnostics j = {} \<longleftrightarrow> binding_diagnostics contract report verifier ds = {}
      \<and> completion report = Complete \<and> distinct (map observed_case ?obs) \<and> known \<and> covered
      \<and> consistent_termination (termination report) (counterexamples j)"
    unfolding parts(4) parts(1) obs(2) subset_iff obs(3) known_def covered_def by auto
  moreover have "binding_diagnostics contract report verifier ds = {} \<longleftrightarrow> ds = {} \<and> report_bound contract report verifier"
    by (rule binding_diagnostics_empty) (simp add: ds)
  moreover have "known \<and> covered \<longleftrightarrow> set (map observed_case ?obs) = set (map case_id ?cs)
      \<and> (\<forall>ob c. ob \<in> set ?obs \<longrightarrow> c \<in> set ?cs \<longrightarrow> observed_case ob = case_id c \<longrightarrow> exercises verifier report ob c)"
    if "distinct (map case_id ?cs)" "list_all valid_case ?cs" "report_bound contract report verifier"
  proof -
    note look = index_cases_lookup [OF ix that(1,2)]
    have inj: "inj_on case_id (set ?cs)" using that(1) by (simp add: distinct_map)
    show ?thesis
      unfolding observed_exactly [OF inj, of ?obs "exercises verifier report", symmetric]
        known_def covered_def look(1,3) using look(2) that(3) by blast
  qed
  ultimately show ?thesis
    unfolding adequate_def ds by (auto simp: report_bound_def)
qed

lemma judgment_outcome:
  assumes "j = evaluate_report contract report verifier"
  shows "outcome j = (if diagnostics j \<noteq> {} then HarnessFailed else if counterexamples j = [] then Pass else Fail)"
  unfolding assms by (simp add: evaluate_report_def Let_def split: prod.splits)

text \<open>The counterexamples of any judgment, and those of an adequate report.\<close>

lemma judgment_counterexamples:
  "ce \<in> set (counterexamples (evaluate_report contract report verifier)) \<longleftrightarrow>
     report_bound contract report verifier
     \<and> (\<exists>ob c. ob \<in> set (observations report) \<and> with_id (cases contract) (observed_case ob) = [c]
          \<and> valid_case c \<and> exercises verifier report ob c \<and> actual ob \<noteq> expected c
          \<and> ce = counterexample_of ob c)"
proof -
  let ?cs = "cases contract"
  obtain ds index ambiguous where ix: "index_cases ?cs (note_if (?cs = []) EmptyFamily
      (note_if (\<not> (valid_subject (contract_subject contract) \<and> valid_subject (report_subject report)))
        InvalidIdentity {}), [], {}) = (ds, index, ambiguous)"
    by (metis prod_cases3)
  have "i \<notin> ambiguous \<and> bm_get index i = Some c \<longleftrightarrow> with_id ?cs i = [c] \<and> valid_case c" for i c
    unfolding index_cases_ambiguous [OF ix] index_cases_get [OF ix]
    by (cases "with_id ?cs i"; cases "tl (with_id ?cs i)") auto
  then show ?thesis
    unfolding evaluate_report_parts(1) [OF ix refl refl] observations_result(4) [OF refl] by metis
qed

lemma adequate_counterexamples:
  assumes "adequate contract report verifier"
  shows "ce \<in> set (counterexamples (evaluate_report contract report verifier)) \<longleftrightarrow>
    (\<exists>ob c. ob \<in> set (observations report) \<and> c \<in> set (cases contract) \<and> observed_case ob = case_id c
       \<and> actual ob \<noteq> expected c \<and> ce = counterexample_of ob c)"
proof -
  have ok: "distinct (map case_id (cases contract))" "list_all valid_case (cases contract)"
      "report_bound contract report verifier"
    using assms by (simp_all add: adequate_def)
  have "with_id (cases contract) i = [c] \<and> valid_case c \<longleftrightarrow> c \<in> set (cases contract) \<and> case_id c = i" for i c
  proof -
    have "length (with_id (cases contract) i) \<le> 1" using ok(1) by (simp add: distinct_ids_iff)
    then have "with_id (cases contract) i = [c] \<longleftrightarrow> with_id (cases contract) i \<noteq> [] \<and> last (with_id (cases contract) i) = c"
      by (cases "with_id (cases contract) i") auto
    then show ?thesis using with_id_unique [OF ok(1), of i c] ok(2) by (auto simp: list_all_iff)
  qed
  then show ?thesis
    unfolding judgment_counterexamples using assms ok(3) unfolding adequate_def by metis
qed

section \<open>Theorems\<close>

text \<open>
  A report passes exactly when it is adequate: it is bound to the contract's valid subject,
  with provenance and a verified binding; it is complete and the process succeeded; the contract
  has cases with distinct ids and non-empty ids and assertions; the report observes each of them
  exactly once and nothing else; and every observation has the case's assertion, a verified
  exercise and the expected value.
\<close>

theorem pass_iff_adequate:
  "outcome (evaluate_report contract report verifier) = Pass \<longleftrightarrow>
     report_bound contract report verifier \<and> completion report = Complete \<and> termination report = Success
     \<and> cases contract \<noteq> [] \<and> distinct (map case_id (cases contract)) \<and> list_all valid_case (cases contract)
     \<and> distinct (map observed_case (observations report))
     \<and> set (map observed_case (observations report)) = set (map case_id (cases contract))
     \<and> (\<forall>ob c. ob \<in> set (observations report) \<longrightarrow> c \<in> set (cases contract) \<longrightarrow>
          observed_case ob = case_id c \<longrightarrow> exercises verifier report ob c \<and> actual ob = expected c)"
proof -
  let ?j = "evaluate_report contract report verifier" and ?cs = "cases contract" and ?obs = "observations report"
  have "outcome ?j = Pass \<longleftrightarrow> diagnostics ?j = {} \<and> counterexamples ?j = []"
    by (simp add: judgment_outcome [OF refl])
  also have "\<dots> \<longleftrightarrow> adequate contract report verifier \<and> termination report = Success \<and> counterexamples ?j = []"
    unfolding judgment_clean [OF refl] by (auto simp: consistent_termination_def split: process_termination.splits)
  also have "\<dots> \<longleftrightarrow> adequate contract report verifier \<and> termination report = Success \<and>
      (\<forall>ob c. ob \<in> set ?obs \<longrightarrow> c \<in> set ?cs \<longrightarrow> observed_case ob = case_id c \<longrightarrow> actual ob = expected c)"
    using adequate_counterexamples [of contract report verifier] by (metis last_in_set empty_iff list.set(1))
  finally show ?thesis unfolding adequate_def by blast
qed

text \<open>A concrete contract of one case, and a report for it whose value is the given one.\<close>

definition sample_version :: evidence_version where
  "sample_version = \<lparr>name = ''n'', version = ''1'', digest = ''d''\<rparr>"

definition sample_subject :: evidence_subject where
  "sample_subject = \<lparr>requirement = sample_version, method = sample_version, artifact = ''a''\<rparr>"

definition sample_contract :: "nat report_contract" where
  "sample_contract = \<lparr>contract_subject = sample_subject,
     cases = [\<lparr>case_id = ''c'', assertion = ''eq'', expected = 1\<rparr>]\<rparr>"

definition sample_report :: "process_termination \<Rightarrow> nat \<Rightarrow> nat test_report" where
  "sample_report t v = \<lparr>report_subject = sample_subject,
     provenance = Some (Interpreted ''f'' ''i'' ''e''), completion = Complete, termination = t,
     observations = [\<lparr>observed_case = ''c'', observed_assertion = ''eq'', actual = v, witness = ''w''\<rparr>]\<rparr>"

definition sample_verifier :: "nat report_verifier" where
  "sample_verifier = \<lparr>verify_report_binding = (\<lambda>_. True), verify_assertion_exercise = (\<lambda>_ _. True)\<rparr>"

lemmas sample_defs = sample_version_def sample_subject_def sample_contract_def sample_report_def
  sample_verifier_def

lemma sample_bound: "report_bound sample_contract (sample_report t v) sample_verifier"
  by (simp add: sample_defs report_bound_def valid_subject_def valid_version_def nonempty_def str_simps)

lemma sample_exercises:
  "exercises sample_verifier (sample_report t v)
     \<lparr>observed_case = ''c'', observed_assertion = ''eq'', actual = v, witness = ''w''\<rparr>
     \<lparr>case_id = ''c'', assertion = ''eq'', expected = 1\<rparr>"
  by (simp add: exercises_def sample_defs nonempty_def str_simps)

lemma sample_valid_case: "valid_case \<lparr>case_id = ''c'', assertion = ''eq'', expected = v\<rparr>"
  by (simp add: valid_case_def nonempty_def str_simps)

lemma sample_adequate: "adequate sample_contract (sample_report t v) sample_verifier"
  using sample_bound sample_exercises sample_valid_case
  by (simp add: adequate_def sample_contract_def sample_report_def)

lemma sample_judgment:
  assumes "j = evaluate_report sample_contract (sample_report Success 1) sample_verifier"
  shows "counterexamples j = []" and "outcome j = Pass"
proof -
  have "ce \<notin> set (counterexamples j)" for ce
    unfolding assms adequate_counterexamples [OF sample_adequate]
    by (simp add: sample_contract_def sample_report_def)
  then show none: "counterexamples j = []" by (metis last_in_set)
  have "termination (sample_report Success 1) = Success" by (simp add: sample_report_def)
  then have "diagnostics j = {}"
    unfolding judgment_clean [OF assms] using sample_adequate none by (simp add: consistent_termination_def)
  then show "outcome j = Pass" using none by (simp add: judgment_outcome [OF assms])
qed

theorem pass_iff_adequate_witness:
  "outcome (evaluate_report sample_contract (sample_report Success 1) sample_verifier) = Pass"
  unfolding pass_iff_adequate using sample_bound sample_exercises sample_valid_case
  by (simp add: sample_contract_def sample_report_def)

text \<open>
  No observed failure is dropped and none is invented: whatever else is wrong with a report,
  the counterexamples of its judgment are exactly the bound, verified observations of an
  unambiguous, valid case whose actual value differs from the expected one.
\<close>

theorem counterexamples_exact:
  "set (counterexamples (evaluate_report contract report verifier)) =
     {counterexample_of ob c | ob c. report_bound contract report verifier
        \<and> ob \<in> set (observations report) \<and> with_id (cases contract) (observed_case ob) = [c]
        \<and> valid_case c \<and> exercises verifier report ob c \<and> actual ob \<noteq> expected c}"
  unfolding set_eq_iff judgment_counterexamples by blast

text \<open>
  A report is a failure (and not a broken harness) exactly when it is adequate, the process
  reported a failure, and some observation of a case differs from what the case expects.
\<close>

theorem fail_iff_observed_failure:
  "outcome (evaluate_report contract report verifier) = Fail \<longleftrightarrow>
     adequate contract report verifier \<and> termination report = Failure
     \<and> (\<exists>ob c. ob \<in> set (observations report) \<and> c \<in> set (cases contract)
          \<and> observed_case ob = case_id c \<and> actual ob \<noteq> expected c)"
proof -
  let ?j = "evaluate_report contract report verifier"
  have "outcome ?j = Fail \<longleftrightarrow> diagnostics ?j = {} \<and> counterexamples ?j \<noteq> []"
    by (simp add: judgment_outcome [OF refl])
  also have "\<dots> \<longleftrightarrow> adequate contract report verifier \<and> termination report = Failure \<and> counterexamples ?j \<noteq> []"
    unfolding judgment_clean [OF refl] by (auto simp: consistent_termination_def split: process_termination.splits)
  finally show ?thesis
    using adequate_counterexamples [of contract report verifier] by (metis last_in_set empty_iff list.set(1))
qed

text \<open>
  A finite proof is established exactly when some interpretation of the universe satisfies
  all premises, no premise mentions an interpretation outside it, and the proposition holds in
  every interpretation that satisfies all premises.
\<close>

theorem finite_proof_established_iff:
  "established (evaluate_finite_proof prop premises) \<longleftrightarrow>
     (\<exists>w. bm_get prop w \<noteq> None \<and> (\<forall>p. p \<in> set premises \<longrightarrow> w \<in> p))
     \<and> (\<forall>p w. p \<in> set premises \<longrightarrow> w \<in> p \<longrightarrow> bm_get prop w \<noteq> None)
     \<and> (\<forall>w. (\<forall>p. p \<in> set premises \<longrightarrow> w \<in> p) \<longrightarrow> bm_get prop w \<noteq> Some False)"
proof -
  let ?u = "set (bm_keys prop)"
  have loop: "fold (\<lambda>premise (admitted, unknown). (admitted \<inter> premise, unknown \<union> (premise - ?u))) ps (a, n)
      = (a \<inter> \<Inter> (set ps), n \<union> (\<Union> (set ps) - ?u))" for ps a n
    by (induction ps arbitrary: a n) auto
  have u: "w \<in> ?u \<longleftrightarrow> bm_get prop w \<noteq> None" for w by (rule bm.keys_get)
  have "?u \<inter> \<Inter> (set premises) \<noteq> {} \<longleftrightarrow> (\<exists>w. bm_get prop w \<noteq> None \<and> (\<forall>p. p \<in> set premises \<longrightarrow> w \<in> p))"
    unfolding ex_in_conv [symmetric] Int_iff Inter_iff u by blast
  moreover have "\<Union> (set premises) - ?u = {}
      \<longleftrightarrow> (\<forall>p w. p \<in> set premises \<longrightarrow> w \<in> p \<longrightarrow> bm_get prop w \<noteq> None)"
    unfolding all_not_in_conv [symmetric] Diff_iff Union_iff u by blast
  moreover have "{w \<in> ?u \<inter> \<Inter> (set premises). bm_get prop w = Some False} = {}
      \<longleftrightarrow> (\<forall>w. (\<forall>p. p \<in> set premises \<longrightarrow> w \<in> p) \<longrightarrow> bm_get prop w \<noteq> Some False)"
    unfolding all_not_in_conv [symmetric] mem_Collect_eq Int_iff Inter_iff u by (metis option.discI)
  ultimately show ?thesis
    by (simp only: evaluate_finite_proof_def Let_def loop finite_proof_judgment.select_convs prod.case
        Un_empty_left)
qed

theorem finite_proof_established_iff_witness:
  "established (evaluate_finite_proof [(''a'', True), (''b'', False)] [{''a''}])"
  unfolding finite_proof_established_iff by auto

end
