(* ===== verification/Preservation.thy ===== *)
theory Preservation
  imports Evidence
begin

text \<open>
  Deterministic preservation, \<^verbatim>\<open>crates/whipplescript-core/src/norm_preservation.rs\<close>: whether evidence
  about one artifact may be used for another, judged from the observations of both. The lemmas say
  exactly when the judgment is positive. The trait \<^verbatim>\<open>PreservationVerifier\<close> is implemented by the host
  and is a function argument.
\<close>

section \<open>Data\<close>

record preservation_context =
  pc_requirement :: evidence_version
  pc_method :: evidence_version
  pc_policy :: evidence_version
  source_artifact :: string
  target_artifact :: string
  boundary :: evidence_version

datatype observation_aspect = Content | Metadata | Presence | Membership

datatype observation_key = ObservationKey (resource: string) (aspect: observation_aspect)

datatype observation_value = Absent | Present string

record dependency_observation =
  obs_key :: observation_key
  obs_value :: observation_value

datatype preservation_basis = CompleteExact | EnforcedCeiling | PartialTrace | UnknownBasis

datatype preservation_mode = Deterministic | Sampled | UnknownMode

record preservation_witness =
  witness_id :: string
  witness_context :: preservation_context
  basis :: preservation_basis
  mode :: preservation_mode
  source_obs :: "dependency_observation list"
  target_obs :: "dependency_observation list"
  gaps :: "string set"

datatype preservation_diagnostic =
  InvalidPreservationIdentity
| ContextMismatch
| UnverifiedBasis
| IncompleteBasis
| Nondeterministic
| Gap string
| InvalidObservation observation_key
| DuplicateSource observation_key
| DuplicateTarget observation_key
| MissingTarget observation_key
| UnexpectedTarget observation_key
| Changed observation_key

record preservation_judgment =
  pj_context :: preservation_context
  pj_witness :: string
  preserved :: bool
  pj_diagnostics :: "preservation_diagnostic set"

text \<open>The derived orders: the constructors in the order of their declaration, the fields in theirs.\<close>

instantiation observation_aspect :: linorder
begin

fun aspect_rank :: "observation_aspect \<Rightarrow> nat" where
  "aspect_rank Content = 0"
| "aspect_rank Metadata = 1"
| "aspect_rank Presence = 2"
| "aspect_rank Membership = 3"

definition less_eq_observation_aspect :: "observation_aspect \<Rightarrow> observation_aspect \<Rightarrow> bool" where
  "less_eq_observation_aspect a b \<longleftrightarrow> aspect_rank a \<le> aspect_rank b"

definition less_observation_aspect :: "observation_aspect \<Rightarrow> observation_aspect \<Rightarrow> bool" where
  "less_observation_aspect a b \<longleftrightarrow> aspect_rank a < aspect_rank b"

instance
proof
  fix x y z :: observation_aspect
  show "x = y" if "x \<le> y" "y \<le> x"
    using that by (cases x; cases y) (simp_all add: less_eq_observation_aspect_def)
qed (auto simp: less_eq_observation_aspect_def less_observation_aspect_def)

end

instantiation observation_key :: linorder
begin

definition less_eq_observation_key :: "observation_key \<Rightarrow> observation_key \<Rightarrow> bool" where
  "less_eq_observation_key a b \<longleftrightarrow> (resource a, aspect a) \<le> (resource b, aspect b)"

definition less_observation_key :: "observation_key \<Rightarrow> observation_key \<Rightarrow> bool" where
  "less_observation_key a b \<longleftrightarrow> (resource a, aspect a) < (resource b, aspect b)"

instance
proof
  fix x y z :: observation_key
  show "x = y" if "x \<le> y" "y \<le> x"
    using that by (auto simp: less_eq_observation_key_def intro: observation_key.expand)
qed (auto simp: less_eq_observation_key_def less_observation_key_def less_le_not_le)

end

section \<open>Evaluation\<close>

definition named :: "evidence_version \<Rightarrow> bool" where
  "named v \<longleftrightarrow> list_all (\<lambda>s. \<not> blank s) [name v, version v, digest v]"

definition valid_context :: "preservation_context \<Rightarrow> bool" where
  "valid_context c \<longleftrightarrow>
     list_all named [pc_requirement c, pc_method c, pc_policy c, boundary c]
     \<and> \<not> blank (source_artifact c) \<and> \<not> blank (target_artifact c)"

definition valid_observation :: "dependency_observation \<Rightarrow> bool" where
  "valid_observation item \<longleftrightarrow>
     \<not> blank (resource (obs_key item))
     \<and> \<not> (case obs_value item of Present d \<Rightarrow> blank d | Absent \<Rightarrow> False)"

text \<open>The loop of \<^verbatim>\<open>observations\<close>: the diagnostics and the map from keys to values.\<close>

definition observe_item ::
  "bool \<Rightarrow> dependency_observation
     \<Rightarrow> preservation_diagnostic set \<times> (observation_key, observation_value) bmap
     \<Rightarrow> preservation_diagnostic set \<times> (observation_key, observation_value) bmap"
where
  "observe_item source item = (\<lambda>(ds, m).
     (note_if (bm_get m (obs_key item) \<noteq> None)
        (if source then DuplicateSource (obs_key item) else DuplicateTarget (obs_key item))
        (note_if (\<not> valid_observation item) (InvalidObservation (obs_key item)) ds),
      bm_insert (obs_key item) (obs_value item) m))"

definition observations_of ::
  "dependency_observation list \<Rightarrow> bool \<Rightarrow> preservation_diagnostic set
     \<Rightarrow> preservation_diagnostic set \<times> (observation_key, observation_value) bmap"
where
  "observations_of items source ds = fold (observe_item source) items (ds, [])"

text \<open>One entry of the source map against the target map.\<close>

definition compare_entry ::
  "(observation_key, observation_value) bmap \<Rightarrow> observation_key \<times> observation_value
     \<Rightarrow> preservation_diagnostic set \<Rightarrow> preservation_diagnostic set"
where
  "compare_entry target entry ds =
     (case bm_get target (fst entry) of
        None \<Rightarrow> insert (MissingTarget (fst entry)) ds
      | Some current \<Rightarrow> note_if (current \<noteq> snd entry) (Changed (fst entry)) ds)"

definition context_diagnostics ::
  "preservation_context \<Rightarrow> preservation_witness \<Rightarrow> (preservation_witness \<Rightarrow> bool)
     \<Rightarrow> preservation_diagnostic set"
where
  "context_diagnostics wanted w verify =
     note_if (mode w \<noteq> Deterministic) Nondeterministic
       (note_if (basis w \<notin> {CompleteExact, EnforcedCeiling}) IncompleteBasis
         (note_if (\<not> verify w) UnverifiedBasis
           (note_if (witness_context w \<noteq> wanted) ContextMismatch
             (note_if (\<not> valid_context wanted \<or> \<not> valid_context (witness_context w) \<or> blank (witness_id w))
               InvalidPreservationIdentity {}))))"

definition evaluate_preservation ::
  "preservation_context \<Rightarrow> preservation_witness \<Rightarrow> (preservation_witness \<Rightarrow> bool) \<Rightarrow> preservation_judgment"
where
  "evaluate_preservation wanted w verify =
     (let ds0 = context_diagnostics wanted w verify \<union> Gap ` gaps w;
          (ds1, source) = observations_of (source_obs w) True ds0;
          (ds2, target) = observations_of (target_obs w) False ds1;
          ds3 = fold (compare_entry target) source ds2;
          ds4 = ds3 \<union> UnexpectedTarget ` set (filter (\<lambda>k. bm_get source k = None) (bm_keys target))
      in \<lparr>pj_context = wanted, pj_witness = witness_id w, preserved = (ds4 = {}), pj_diagnostics = ds4\<rparr>)"

section \<open>The maps of observations\<close>

definition entry :: "dependency_observation \<Rightarrow> observation_key \<times> observation_value" where
  "entry item = (obs_key item, obs_value item)"

lemma inj_entry: "inj entry"
  by (rule injI) (simp add: entry_def)

lemma observations_of_result:
  assumes "observations_of items source ds = (ds', m)"
  shows "bmap_ok m" and "set (bm_keys m) = obs_key ` set items"
    and "ds' = {} \<longleftrightarrow> ds = {} \<and> list_all valid_observation items \<and> distinct (map obs_key items)"
    and "distinct (map obs_key items) \<Longrightarrow> set m = entry ` set items"
proof -
  have "bmap_ok m \<and> set (bm_keys m) = obs_key ` set items
    \<and> (ds' = {} \<longleftrightarrow> ds = {} \<and> list_all valid_observation items \<and> distinct (map obs_key items))
    \<and> (distinct (map obs_key items) \<longrightarrow> set m = entry ` set items)"
    using assms
  proof (induction items arbitrary: ds' m rule: rev_induct)
    case Nil
    then show ?case by (simp add: observations_of_def)
  next
    case (snoc item items)
    obtain ds1 m1 where pre: "observations_of items source ds = (ds1, m1)" by (metis prod.exhaust)
    note IH = snoc.IH [OF pre]
    have res: "ds' = note_if (obs_key item \<in> obs_key ` set items)
          (if source then DuplicateSource (obs_key item) else DuplicateTarget (obs_key item))
          (note_if (\<not> valid_observation item) (InvalidObservation (obs_key item)) ds1)"
        "m = bm_insert (obs_key item) (obs_value item) m1"
      using snoc.prems pre IH bm_get_None [of m1 "obs_key item"]
      by (auto simp: observations_of_def observe_item_def)
    have "set m = insert (entry item) (set m1)" if "obs_key item \<notin> obs_key ` set items"
      using that IH unfolding res(2) by (simp add: entry_def bm_insert_new)
    moreover have "set (bm_keys m) = insert (obs_key item) (set (bm_keys m1))"
      unfolding res(2) by (rule bm_keys_insert)
    moreover have "bmap_ok m" using IH unfolding res(2) by (simp add: bm_insert_ok)
    moreover have "ds' = {} \<longleftrightarrow> ds1 = {} \<and> valid_observation item \<and> obs_key item \<notin> obs_key ` set items"
      unfolding res(1) by auto
    ultimately show ?case using IH by (intro conjI; simp add: conj_ac)
  qed
  then show "bmap_ok m" and "set (bm_keys m) = obs_key ` set items"
    and "ds' = {} \<longleftrightarrow> ds = {} \<and> list_all valid_observation items \<and> distinct (map obs_key items)"
    and "distinct (map obs_key items) \<Longrightarrow> set m = entry ` set items"
    by simp_all
qed

lemma compare_entries_empty:
  "fold (compare_entry target) entries ds = {} \<longleftrightarrow>
     ds = {} \<and> (\<forall>k v. (k, v) \<in> set entries \<longrightarrow> bm_get target k = Some v)"
proof (induction entries arbitrary: ds)
  case (Cons e entries)
  obtain k v where e: "e = (k, v)" by (cases e)
  have "compare_entry target e ds = {} \<longleftrightarrow> ds = {} \<and> bm_get target k = Some v"
    by (cases "bm_get target k") (auto simp: e compare_entry_def)
  then show ?case by (auto simp: Cons e)
qed simp

lemma context_diagnostics_empty:
  "context_diagnostics wanted w verify = {} \<longleftrightarrow>
     valid_context wanted \<and> witness_context w = wanted \<and> \<not> blank (witness_id w) \<and> verify w
     \<and> basis w \<in> {CompleteExact, EnforcedCeiling} \<and> mode w = Deterministic"
  by (auto simp: context_diagnostics_def)

section \<open>Theorems\<close>

text \<open>
  Evidence is preserved exactly under a verified, complete and deterministic basis for the
  expected, fully named context, without gaps, when the observations of the source and of the
  target are well-formed, name no key twice and are the same: nothing changed, nothing is missing
  and nothing is new.
\<close>

theorem preserved_iff:
  "preserved (evaluate_preservation wanted w verify) \<longleftrightarrow>
     valid_context wanted \<and> witness_context w = wanted \<and> \<not> blank (witness_id w) \<and> verify w
     \<and> basis w \<in> {CompleteExact, EnforcedCeiling} \<and> mode w = Deterministic \<and> gaps w = {}
     \<and> list_all valid_observation (source_obs w) \<and> list_all valid_observation (target_obs w)
     \<and> distinct (map obs_key (source_obs w)) \<and> distinct (map obs_key (target_obs w))
     \<and> set (source_obs w) = set (target_obs w)"
proof -
  let ?ds0 = "context_diagnostics wanted w verify \<union> Gap ` gaps w"
  obtain ds1 source where src: "observations_of (source_obs w) True ?ds0 = (ds1, source)"
    by (metis prod.exhaust)
  obtain ds2 target where tgt: "observations_of (target_obs w) False ds1 = (ds2, target)"
    by (metis prod.exhaust)
  note s = observations_of_result [OF src] and t = observations_of_result [OF tgt]
  have "preserved (evaluate_preservation wanted w verify) \<longleftrightarrow>
      ds2 = {} \<and> (\<forall>k v. (k, v) \<in> set source \<longrightarrow> bm_get target k = Some v)
      \<and> set (bm_keys target) \<subseteq> set (bm_keys source)"
    by (auto simp: evaluate_preservation_def src tgt compare_entries_empty filter_empty_conv bm_get_None)
  moreover have "(\<forall>k v. (k, v) \<in> set source \<longrightarrow> bm_get target k = Some v)
      \<and> set (bm_keys target) \<subseteq> set (bm_keys source) \<longleftrightarrow> set source = set target"
    by (rule bmap_agree [OF s(1) t(1)])
  moreover have "set source = set target \<longleftrightarrow> set (source_obs w) = set (target_obs w)"
    if "distinct (map obs_key (source_obs w))" "distinct (map obs_key (target_obs w))"
    unfolding s(4) [OF that(1)] t(4) [OF that(2)] by (rule inj_image_eq_iff [OF inj_entry])
  ultimately show ?thesis
    unfolding t(3) s(3) Un_empty image_is_empty context_diagnostics_empty by blast
qed

end
