(* ===== verification/Evidence_Selection.thy ===== *)
theory Evidence_Selection
  imports Preservation "HOL-Library.Multiset"
begin

text \<open>
  Causal selection of test evidence, \<^verbatim>\<open>crates/whipplescript-core/src/norm_selection.rs\<close>: the events
  in the causal past of a frontier are collected, their reports judged, preservation acts and
  resolutions applied, and the conformance of the queried artifact derived. The lemmas say when a
  selection exists and what its history is, that neither the order of the events nor events
  outside the causal past matter, and what supports, contradicts and retires evidence.

  A \<^verbatim>\<open>BTreeSet\<close> the code iterates is the list of its elements in ascending order.
\<close>

section \<open>Data\<close>

record selection_query =
  q_requirement :: evidence_version
  q_artifact :: string
  q_policy :: evidence_version
  time_basis :: string
  frontier :: "string list"

record evidence_resolution =
  predecessor :: string
  replacement :: string
  res_requirement :: evidence_version
  res_artifact :: string
  reason :: string

datatype 'v selection_payload =
  Context
| Observation "'v report_contract" "'v test_report"
| Resolution evidence_resolution
| PreservationAct string preservation_witness

record 'v selection_event =
  event_id :: string
  parents :: "string list"
  payload :: "'v selection_payload"

text \<open>The host's policy: the two verifiers it extends and its own operations.\<close>

record 'v selection_verifier =
  report_checks :: "'v report_verifier"
  verify_preservation_basis :: "preservation_witness \<Rightarrow> bool"
  verify_event :: "'v selection_event \<Rightarrow> bool"
  accepts_contract :: "selection_query \<Rightarrow> 'v report_contract \<Rightarrow> bool"
  authorize_resolution :: "selection_query \<Rightarrow> 'v selection_event \<Rightarrow> bool"
  accepts_preservation :: "selection_query \<Rightarrow> preservation_witness \<Rightarrow> bool"

datatype conformance = Satisfied | Violated | Conflicted | StaleOnly | Unresolved

datatype reuse_diagnostic =
  UnknownObservation
| UnsupportedObservation
| WitnessIdentityMismatch
| MissingObservationAncestry
| PolicyRejected

record reuse_evaluation =
  reused_observation :: string
  preservation :: "preservation_judgment option"
  reuse_diagnostics :: "reuse_diagnostic set"
  applied :: bool

record 'v evidence_selection =
  query :: selection_query
  history :: "(string, 'v selection_event) bmap"
  judgments :: "(string, 'v test_judgment) bmap"
  positive :: "string set"
  counterevidence :: "string set"
  stale :: "string set"
  unresolved :: "string set"
  excluded :: "string set"
  retired_by :: "(string, string set) bmap"
  reused_by :: "(string, string set) bmap"
  reuse_evaluations :: "(string, reuse_evaluation) bmap"
  resolution_diagnostics :: "(string, message) bmap"
  conformance :: conformance

definition empty_selection :: "selection_query \<Rightarrow> 'v evidence_selection" where
  "empty_selection q =
     \<lparr>query = q, history = [], judgments = [], positive = {}, counterevidence = {}, stale = {},
      unresolved = {}, excluded = {}, retired_by = [], reused_by = [], reuse_evaluations = [],
      resolution_diagnostics = [], conformance = Unresolved\<rparr>"

section \<open>The causal history\<close>

definition version_named :: "evidence_version \<Rightarrow> bool" where
  "version_named v \<longleftrightarrow> list_all (\<lambda>s. \<not> blank s) [name v, version v, digest v]"

definition valid_query :: "selection_query \<Rightarrow> bool" where
  "valid_query q \<longleftrightarrow> version_named (q_requirement q) \<and> version_named (q_policy q)
     \<and> \<not> blank (q_artifact q) \<and> \<not> blank (time_basis q)"

fun index_events ::
  "'v selection_event list \<Rightarrow> (string, 'v selection_event) bmap
     \<Rightarrow> ((string, 'v selection_event) bmap, message) result"
where
  "index_events [] events = Ok events"
| "index_events (e # es) events =
     (if blank (event_id e) \<or> bm_get events (event_id e) \<noteq> None
      then Err (Format ''selection history has empty or duplicate event identities'' [])
      else index_events es (bm_insert (event_id e) e events))"

text \<open>
  The loop that pops \<^verbatim>\<open>pending\<close>. The vector is the list with its top first, so that \<^verbatim>\<open>extend\<close> puts
  the parents in front in reverse.
\<close>

function (sequential) collect_history ::
  "'v selection_verifier \<Rightarrow> (string, 'v selection_event) bmap \<Rightarrow> (string, 'v selection_event) bmap
     \<Rightarrow> string list \<Rightarrow> ((string, 'v selection_event) bmap, message) result"
where
  "collect_history verifier events past [] = Ok past"
| "collect_history verifier events past (i # pending) =
     (if bm_get past i \<noteq> None then collect_history verifier events past pending
      else case bm_get events i of
        None \<Rightarrow> Err (Format ''selection history is missing {id}'' [i])
      | Some event \<Rightarrow>
          if \<not> verify_event verifier event
          then Err (Format ''selection event {id} is unauthenticated'' [i])
          else collect_history verifier events (bm_insert i event past) (rev (parents event) @ pending))"
  by pat_completeness auto
termination
proof (relation "inv_image (less_than <*lex*> less_than) (\<lambda>(verifier, events, past, pending).
    (card (set (bm_keys events) - set (bm_keys past)), length pending))", goal_cases)
  case (3 verifier events past i pending event)
  have "i \<in> set (bm_keys events)" "i \<notin> set (bm_keys past)"
    using 3 bm_get_None [of events i] bm_get_None [of past i] by (simp_all del: set_map)
  then have "card (set (bm_keys events) - set (bm_keys (bm_insert i event past)))
      < card (set (bm_keys events) - set (bm_keys past))"
    unfolding bm_keys_insert by (intro psubset_card_mono) auto
  then show ?case by simp
qed auto

text \<open>The set a map holds at a key; a key without entry counts as the empty set.\<close>

definition set_at :: "(string, string set) bmap \<Rightarrow> string \<Rightarrow> string set" where
  "set_at ancestors i = (case bm_get ancestors i of Some past \<Rightarrow> past | None \<Rightarrow> {})"

text \<open>The events whose parents all have their ancestors, and one event's own ancestors.\<close>

definition ready_events ::
  "(string, 'v selection_event) bmap \<Rightarrow> (string, string set) bmap \<Rightarrow> 'v selection_event list"
where
  "ready_events past ancestors =
     filter (\<lambda>e. bm_get ancestors (event_id e) = None
               \<and> list_all (\<lambda>p. bm_get ancestors p \<noteq> None) (parents e)) (map snd past)"

definition add_ancestors ::
  "'v selection_event \<Rightarrow> (string, string set) bmap \<Rightarrow> (string, string set) bmap"
where
  "add_ancestors e ancestors =
     bm_insert (event_id e)
       (fold (\<lambda>p closure. closure \<union> set_at ancestors p) (parents e) (set (parents e))) ancestors"

fun ancestor_rounds ::
  "nat \<Rightarrow> (string, 'v selection_event) bmap \<Rightarrow> (string, string set) bmap \<Rightarrow> (string, string set) bmap"
where
  "ancestor_rounds 0 past ancestors = ancestors"
| "ancestor_rounds (Suc n) past ancestors =
     (let ready = ready_events past ancestors
      in if ready = [] then ancestors
         else ancestor_rounds n past (fold add_ancestors ready ancestors))"

section \<open>Judgments, reuse and resolutions\<close>

text \<open>One event of the loop that judges observations; the set holds the eligible ones.\<close>

definition judge_event ::
  "selection_query \<Rightarrow> 'v selection_verifier \<Rightarrow> 'v selection_event
     \<Rightarrow> string set \<times> 'v evidence_selection \<Rightarrow> string set \<times> 'v evidence_selection"
where
  "judge_event q verifier e = (\<lambda>(eligible, r).
     case payload e of
       Observation contract report \<Rightarrow>
         let i = event_id e;
             judgment = evaluate_report contract report (report_checks verifier);
             (eligible', r') =
               (if requirement (contract_subject contract) \<noteq> q_requirement q
                then (eligible, r\<lparr>excluded := insert i (excluded r)\<rparr>)
                else if \<not> accepts_contract verifier q contract
                then (eligible, r\<lparr>unresolved := insert i (unresolved r)\<rparr>)
                else
                  (let pos = (outcome judgment = Pass);
                       neg = (counterexamples judgment \<noteq> [])
                   in (insert i eligible,
                       if artifact (contract_subject contract) \<noteq> q_artifact q
                       then if pos \<or> neg then r\<lparr>stale := insert i (stale r)\<rparr>
                            else r\<lparr>unresolved := insert i (unresolved r)\<rparr>
                       else r\<lparr>positive := note_if pos i (positive r),
                              counterevidence := note_if neg i (counterevidence r),
                              unresolved := note_if (diagnostics judgment \<noteq> {}) i (unresolved r)\<rparr>)))
         in (eligible', r'\<lparr>judgments := bm_insert i judgment (judgments r')\<rparr>)
     | _ \<Rightarrow> (eligible, r))"

text \<open>The evaluation of one preservation act.\<close>

definition reuse_context ::
  "selection_query \<Rightarrow> 'v test_judgment \<Rightarrow> preservation_witness \<Rightarrow> preservation_context"
where
  "reuse_context q judgment w =
     \<lparr>pc_requirement = q_requirement q, pc_method = method (subject judgment), pc_policy = q_policy q,
      source_artifact = artifact (subject judgment), target_artifact = q_artifact q,
      boundary = boundary (witness_context w)\<rparr>"

definition evaluate_reuse ::
  "selection_query \<Rightarrow> 'v selection_verifier \<Rightarrow> (string, string set) bmap \<Rightarrow> string set
     \<Rightarrow> (string, 'v test_judgment) bmap \<Rightarrow> string \<Rightarrow> string \<Rightarrow> preservation_witness \<Rightarrow> reuse_evaluation"
where
  "evaluate_reuse q verifier ancestors eligible judged i observation w =
     (let ds = note_if (\<not> accepts_preservation verifier q w) PolicyRejected
            (note_if (observation \<notin> set_at ancestors i) MissingObservationAncestry
              (note_if (witness_id w \<noteq> i) WitnessIdentityMismatch {}));
          (kept, ds') =
            (case bm_get judged observation of
               Some judgment \<Rightarrow>
                 (Some (evaluate_preservation (reuse_context q judgment w) w (verify_preservation_basis verifier)),
                  note_if (observation \<notin> eligible
                      \<or> \<not> (outcome judgment = Pass \<or> counterexamples judgment \<noteq> []))
                    UnsupportedObservation ds)
             | None \<Rightarrow> (None, insert UnknownObservation ds))
      in \<lparr>reused_observation = observation, preservation = kept, reuse_diagnostics = ds',
          applied = (ds' = {} \<and> (case kept of Some p \<Rightarrow> preserved p | None \<Rightarrow> False))\<rparr>)"

definition entry_insert :: "string \<Rightarrow> string \<Rightarrow> (string, string set) bmap \<Rightarrow> (string, string set) bmap" where
  "entry_insert k i m = bm_insert k (insert i (set_at m k)) m"

definition reuse_event ::
  "selection_query \<Rightarrow> 'v selection_verifier \<Rightarrow> (string, string set) bmap \<Rightarrow> string set
     \<Rightarrow> 'v selection_event \<Rightarrow> 'v evidence_selection \<Rightarrow> 'v evidence_selection"
where
  "reuse_event q verifier ancestors eligible e r =
     (case payload e of
        PreservationAct observation w \<Rightarrow>
          let ev = evaluate_reuse q verifier ancestors eligible (judgments r) (event_id e) observation w;
              r' = (if applied ev then
                  (case bm_get (judgments r) observation of
                     Some judgment \<Rightarrow>
                       r\<lparr>positive := note_if (outcome judgment = Pass) observation (positive r),
                         counterevidence := note_if (counterexamples judgment \<noteq> []) observation (counterevidence r),
                         unresolved := note_if (diagnostics judgment \<noteq> {}) observation (unresolved r),
                         stale := stale r - {observation},
                         reused_by := entry_insert observation (event_id e) (reused_by r)\<rparr>
                   | None \<Rightarrow> r)
                else r)
          in r'\<lparr>reuse_evaluations := bm_insert (event_id e) ev (reuse_evaluations r')\<rparr>
      | _ \<Rightarrow> r)"

definition show_bool :: "bool \<Rightarrow> string" where
  "show_bool b = (if b then ''true'' else ''false'')"

text \<open>What an act of resolution needs: its scope, its causal place, its grounds and its authority.\<close>

definition scoped :: "selection_query \<Rightarrow> evidence_resolution \<Rightarrow> bool" where
  "scoped q res \<longleftrightarrow> res_requirement res = q_requirement q \<and> res_artifact res = q_artifact q"

definition support_precedes ::
  "selection_query \<Rightarrow> (string, string set) bmap \<Rightarrow> 'v evidence_selection \<Rightarrow> 'v selection_event \<Rightarrow> string \<Rightarrow> bool"
where
  "support_precedes q ancestors r e i \<longleftrightarrow>
     i \<in> set_at ancestors (event_id e)
     \<and> (case bm_get (judgments r) i of
          None \<Rightarrow> False
        | Some judgment \<Rightarrow> artifact (subject judgment) = q_artifact q
            \<or> (case bm_get (reused_by r) i of
                 None \<Rightarrow> False
               | Some witnesses \<Rightarrow> witnesses \<inter> set_at ancestors (event_id e) \<noteq> {}))"

definition grounded :: "'v evidence_selection \<Rightarrow> evidence_resolution \<Rightarrow> bool" where
  "grounded r res \<longleftrightarrow> predecessor res \<noteq> replacement res
     \<and> predecessor res \<in> positive r \<union> counterevidence r
     \<and> replacement res \<in> positive r \<union> counterevidence r \<and> \<not> blank (reason res)"

definition resolve_event ::
  "selection_query \<Rightarrow> 'v selection_verifier \<Rightarrow> (string, string set) bmap
     \<Rightarrow> 'v selection_event \<Rightarrow> 'v evidence_selection \<Rightarrow> 'v evidence_selection"
where
  "resolve_event q verifier ancestors e r =
     (case payload e of
        Resolution res \<Rightarrow>
          let causal = (support_precedes q ancestors r e (predecessor res)
                  \<and> support_precedes q ancestors r e (replacement res));
              authorized = authorize_resolution verifier q e
          in if scoped q res \<and> causal \<and> grounded r res \<and> authorized
             then r\<lparr>retired_by := entry_insert (predecessor res) (event_id e) (retired_by r)\<rparr>
             else r\<lparr>resolution_diagnostics := bm_insert (event_id e)
                 (Format ''resolution rejected: scope={scoped}, causal={causal}, grounded={grounded}, authorized={authorized}''
                    [show_bool (scoped q res), show_bool causal, show_bool (grounded r res), show_bool authorized])
                 (resolution_diagnostics r)\<rparr>
      | _ \<Rightarrow> r)"

definition derive_conformance :: "string set \<Rightarrow> string set \<Rightarrow> string set \<Rightarrow> conformance" where
  "derive_conformance pos neg old =
     (if pos \<noteq> {} \<and> neg \<noteq> {} then Conflicted
      else if pos \<noteq> {} then Satisfied
      else if neg \<noteq> {} then Violated
      else if old \<noteq> {} then StaleOnly
      else Unresolved)"

definition retire :: "'v evidence_selection \<Rightarrow> 'v evidence_selection" where
  "retire r =
     (let r' = r\<lparr>positive := positive r - set (bm_keys (retired_by r)),
                 counterevidence := counterevidence r - set (bm_keys (retired_by r))\<rparr>
      in r'\<lparr>conformance := derive_conformance (positive r') (counterevidence r') (stale r')\<rparr>)"

text \<open>The three loops over the history, and the verdict.\<close>

definition derive_selection ::
  "selection_query \<Rightarrow> 'v selection_verifier \<Rightarrow> (string, 'v selection_event) bmap \<Rightarrow> (string, string set) bmap
     \<Rightarrow> 'v evidence_selection"
where
  "derive_selection q verifier past ancestors =
     (let acts = map snd past;
          (eligible, r1) = fold (judge_event q verifier) acts ({}, (empty_selection q)\<lparr>history := past\<rparr>);
          r2 = fold (reuse_event q verifier ancestors eligible) acts r1;
          r3 = fold (resolve_event q verifier ancestors) acts r2
      in retire r3)"

definition select_evidence ::
  "selection_query \<Rightarrow> 'v selection_event list \<Rightarrow> 'v selection_verifier \<Rightarrow> ('v evidence_selection, message) result"
where
  "select_evidence q events verifier =
     (if \<not> valid_query q then Err (Format ''selection query has an empty identity'' [])
      else and_then (index_events events []) (\<lambda>all_events.
        and_then (collect_history verifier all_events [] (rev (frontier q))) (\<lambda>past.
          let ancestors = ancestor_rounds (length past) past []
          in if length ancestors \<noteq> length past
             then Err (Format ''selection history contains a causal cycle'' [])
             else Ok (derive_selection q verifier past ancestors))))"

section \<open>The history is the causal past\<close>

text \<open>The parent relation of a list of events, and the ids from which the frontier is reached.\<close>

definition parent_rel :: "'v selection_event list \<Rightarrow> (string \<times> string) set" where
  "parent_rel es = {(p, event_id e) | p e. e \<in> set es \<and> p \<in> set (parents e)}"

definition causal_past :: "'v selection_event list \<Rightarrow> string list \<Rightarrow> string set" where
  "causal_past es front = {x. \<exists>f. f \<in> set front \<and> (x, f) \<in> (parent_rel es)\<^sup>*}"

definition well_named :: "'v selection_event list \<Rightarrow> bool" where
  "well_named es \<longleftrightarrow> list_all (\<lambda>e. \<not> blank (event_id e)) es \<and> distinct (map event_id es)"

text \<open>A map of events keyed by their own ids.\<close>

definition indexed :: "(string, 'v selection_event) bmap \<Rightarrow> bool" where
  "indexed m \<longleftrightarrow> bmap_ok m \<and> (\<forall>k e. bm_get m k = Some e \<longrightarrow> event_id e = k)"

lemma indexed_insert: "indexed m \<Longrightarrow> event_id e = i \<Longrightarrow> indexed (bm_insert i e m)"
  by (simp add: indexed_def)

lemma indexed_acts:
  assumes "indexed m"
  shows "e \<in> set (map snd m) \<longleftrightarrow> bm_get m (event_id e) = Some e" and "distinct (map event_id (map snd m))"
proof -
  have ok: "bmap_ok m" and ids: "\<And>k e. (k, e) \<in> set m \<Longrightarrow> event_id e = k"
    using assms by (auto simp: indexed_def bm_get_iff)
  have "map event_id (map snd m) = bm_keys m" by (auto intro: ids)
  then show "distinct (map event_id (map snd m))" by (simp only: bmap_ok_distinct [OF ok])
  show "e \<in> set (map snd m) \<longleftrightarrow> bm_get m (event_id e) = Some e"
    unfolding bm_get_iff [OF ok] set_map image_iff by (metis ids prod.collapse snd_conv)
qed

lemma parent_rel_indexed:
  "indexed m \<Longrightarrow> (p, c) \<in> parent_rel (map snd m) \<longleftrightarrow> (\<exists>e. bm_get m c = Some e \<and> p \<in> set (parents e))"
  unfolding parent_rel_def mem_Collect_eq indexed_acts(1) by (auto simp: indexed_def)

lemma index_events_eq:
  "index_events es m =
     (if well_named es \<and> set (map event_id es) \<inter> set (bm_keys m) = {}
      then Ok (fold (\<lambda>e. bm_insert (event_id e) e) es m)
      else Err (Format ''selection history has empty or duplicate event identities'' []))"
proof (induction es arbitrary: m)
  case (Cons e es)
  have keys: "bm_get m (event_id e) \<noteq> None \<longleftrightarrow> event_id e \<in> set (bm_keys m)"
    by (simp add: bm_get_None del: set_map)
  show ?case
    unfolding index_events.simps keys Cons.IH bm_keys_insert by (auto simp: well_named_def)
qed (simp add: well_named_def)

lemma index_events_get:
  assumes "well_named es"
  shows "indexed (fold (\<lambda>e. bm_insert (event_id e) e) es [])"
    and "bm_get (fold (\<lambda>e. bm_insert (event_id e) e) es []) k = Some e \<longleftrightarrow> e \<in> set es \<and> event_id e = k"
proof -
  have "indexed (fold (\<lambda>e. bm_insert (event_id e) e) es [])
    \<and> (\<forall>k e. bm_get (fold (\<lambda>e. bm_insert (event_id e) e) es []) k = Some e \<longleftrightarrow> e \<in> set es \<and> event_id e = k)"
    using assms
  proof (induction es rule: rev_induct)
    case (snoc e es)
    then have "well_named es" "event_id e \<notin> event_id ` set es" by (auto simp: well_named_def)
    then show ?case using snoc.IH by (auto intro: indexed_insert simp: image_iff)
  qed (simp add: indexed_def)
  then show "indexed (fold (\<lambda>e. bm_insert (event_id e) e) es [])"
    and "bm_get (fold (\<lambda>e. bm_insert (event_id e) e) es []) k = Some e \<longleftrightarrow> e \<in> set es \<and> event_id e = k"
    by blast+
qed

text \<open>What a successful collection returns: it grows, covers what was pending, and is closed.\<close>

definition newly_collected ::
  "'v selection_verifier \<Rightarrow> (string, 'v selection_event) bmap \<Rightarrow> string list
     \<Rightarrow> (string, 'v selection_event) bmap \<Rightarrow> string \<Rightarrow> 'v selection_event \<Rightarrow> bool"
where
  "newly_collected v A pend h' k e \<longleftrightarrow>
     bm_get A k = Some e \<and> verify_event v e \<and> (\<forall>p. p \<in> set (parents e) \<longrightarrow> bm_get h' p \<noteq> None)
     \<and> (\<exists>p. p \<in> set pend \<and> (k, p) \<in> (parent_rel (map snd A))\<^sup>*)"

lemma newly_collected_weaken:
  assumes "newly_collected v A pend h' k e"
    and "\<And>p. p \<in> set pend \<Longrightarrow> (k, p) \<in> (parent_rel (map snd A))\<^sup>* \<Longrightarrow>
      \<exists>p'. p' \<in> set pend' \<and> (k, p') \<in> (parent_rel (map snd A))\<^sup>*"
  shows "newly_collected v A pend' h' k e"
  using assms unfolding newly_collected_def by blast

lemma collect_history_Ok:
  assumes "collect_history v A h pend = Ok h'" and "indexed A" and "indexed h"
  shows "indexed h' \<and> (\<forall>k e. bm_get h k = Some e \<longrightarrow> bm_get h' k = Some e)
    \<and> (\<forall>p. p \<in> set pend \<longrightarrow> bm_get h' p \<noteq> None)
    \<and> (\<forall>k e. bm_get h' k = Some e \<longrightarrow> bm_get h k = Some e \<or> newly_collected v A pend h' k e)"
  using assms
proof (induction v A h pend rule: collect_history.induct)
  case (2 v A h i pend)
  show ?case
  proof (cases "bm_get h i")
    case (Some e)
    then have "collect_history v A h pend = Ok h'" using "2.prems"(1) by simp
    note IH = "2.IH"(1) [OF _ this "2.prems"(2,3)]
    have "newly_collected v A (i # pend) h' k e'" if "newly_collected v A pend h' k e'" for k e'
      by (rule newly_collected_weaken [OF that]) auto
    then show ?thesis using IH Some by (simp; blast)
  next
    case None
    then obtain e where e: "bm_get A i = Some e" "verify_event v e"
        "collect_history v A (bm_insert i e h) (rev (parents e) @ pend) = Ok h'"
      using "2.prems"(1) by (auto split: option.splits if_splits)
    have ide: "event_id e = i" using e(1) "2.prems"(2) by (simp add: indexed_def)
    have IH: "indexed h'" "\<And>k e'. bm_get (bm_insert i e h) k = Some e' \<Longrightarrow> bm_get h' k = Some e'"
        "\<And>p. p \<in> set (parents e) \<union> set pend \<Longrightarrow> bm_get h' p \<noteq> None"
        "\<And>k e'. bm_get h' k = Some e' \<Longrightarrow> bm_get (bm_insert i e h) k = Some e'
          \<or> newly_collected v A (rev (parents e) @ pend) h' k e'"
      using "2.IH"(2) [OF _ e(1) _ e(3) "2.prems"(2) indexed_insert [OF "2.prems"(3) ide]] None e(2) by auto
    have new: "newly_collected v A (i # pend) h' k e'" if "newly_collected v A (rev (parents e) @ pend) h' k e'" for k e'
    proof (rule newly_collected_weaken [OF that])
      fix p assume p: "p \<in> set (rev (parents e) @ pend)" "(k, p) \<in> (parent_rel (map snd A))\<^sup>*"
      have "(p, i) \<in> parent_rel (map snd A)" if "p \<in> set (parents e)"
        using that e(1) by (simp only: parent_rel_indexed [OF "2.prems"(2)]) blast
      then show "\<exists>p'. p' \<in> set (i # pend) \<and> (k, p') \<in> (parent_rel (map snd A))\<^sup>*"
        using p by (auto intro: rtrancl_into_rtrancl)
    qed
    have "newly_collected v A (i # pend) h' i e"
      using e(1,2) IH(3) unfolding newly_collected_def by auto
    moreover have "bm_get h' i = Some e" using IH(2) [of i e] by simp
    moreover have "bm_get h' k = Some e'" if "bm_get h k = Some e'" for k e'
      using IH(2) [of k e'] that None by (cases "k = i") simp_all
    moreover have "bm_get h k = Some e' \<or> newly_collected v A (i # pend) h' k e'" if "bm_get h' k = Some e'" for k e'
      using IH(4) [OF that] new calculation(1) by (cases "k = i") auto
    ultimately show ?thesis using IH(1,3) by simp
  qed
qed simp

text \<open>A failed collection has met an id of the causal past without an authentic event.\<close>

definition authentic :: "'v selection_verifier \<Rightarrow> (string, 'v selection_event) bmap \<Rightarrow> string \<Rightarrow> bool" where
  "authentic v A k \<longleftrightarrow> (\<exists>e. bm_get A k = Some e \<and> verify_event v e)"

lemma collect_history_Err:
  assumes "collect_history v A h pend = Err m" and "indexed A"
  shows "\<exists>k p. p \<in> set pend \<and> (k, p) \<in> (parent_rel (map snd A))\<^sup>* \<and> \<not> authentic v A k"
  using assms
proof (induction v A h pend rule: collect_history.induct)
  case (2 v A h i pend)
  show ?case
  proof (cases "authentic v A i")
    case True
    then obtain e where e: "bm_get A i = Some e" "verify_event v e" by (auto simp: authentic_def)
    have up: "(p, i) \<in> parent_rel (map snd A)" if "p \<in> set (parents e)" for p
      using that e(1) by (simp only: parent_rel_indexed [OF "2.prems"(2)]) blast
    show ?thesis
    proof (cases "bm_get h i")
      case (Some _)
      then have "collect_history v A h pend = Err m" using "2.prems"(1) by simp
      from "2.IH"(1) [OF _ this "2.prems"(2)] Some show ?thesis by auto
    next
      case None
      then have "collect_history v A (bm_insert i e h) (rev (parents e) @ pend) = Err m"
        using "2.prems"(1) e by simp
      from "2.IH"(2) [OF _ e(1) _ this "2.prems"(2)] None e(2)
      obtain k p where "p \<in> set (parents e) \<or> p \<in> set pend" "(k, p) \<in> (parent_rel (map snd A))\<^sup>*"
          "\<not> authentic v A k" by auto
      then show ?thesis using up by (auto intro: rtrancl_into_rtrancl)
    qed
  qed (auto intro: exI [of _ i])
qed simp

lemma collect_history_more:
  assumes "collect_history v A h pend = Ok h'" and "\<And>k e. bm_get A k = Some e \<Longrightarrow> bm_get A' k = Some e"
  shows "collect_history v A' h pend = Ok h'"
  using assms
proof (induction v A h pend rule: collect_history.induct)
  case (2 v A h i pend)
  then show ?case
    by (cases "bm_get h i"; cases "bm_get A i") (auto split: if_splits)
qed simp

text \<open>The history from an empty start: the authentic causal past, closed under parents.\<close>

definition closed :: "(string, 'v selection_event) bmap \<Rightarrow> bool" where
  "closed m \<longleftrightarrow> (\<forall>k e p. bm_get m k = Some e \<longrightarrow> p \<in> set (parents e) \<longrightarrow> bm_get m p \<noteq> None)"

lemma collect_history_closed:
  assumes "collect_history v A [] (rev front) = Ok h" and "indexed A"
  shows "indexed h" and "closed h"
    and "bm_get h k = Some e \<longleftrightarrow> bm_get A k = Some e \<and> k \<in> causal_past (map snd A) front"
    and "k \<in> causal_past (map snd A) front \<Longrightarrow> authentic v A k"
proof -
  have "indexed ([] :: (string, 'a selection_event) bmap)" by (simp add: indexed_def)
  note c = collect_history_Ok [OF assms this]
  from c show "indexed h" by blast
  have new: "newly_collected v A (rev front) h k e" if "bm_get h k = Some e" for k e using c that by simp
  then show cl: "closed h" unfolding closed_def newly_collected_def by blast
  have past: "bm_get h k \<noteq> None" if "(k, p) \<in> (parent_rel (map snd A))\<^sup>*" "p \<in> set front" for k p
    using that
  proof (induction rule: converse_rtrancl_induct)
    case base
    then show ?case using c by simp
  next
    case (step x y)
    then obtain e where e: "bm_get h y = Some e" by blast
    with new have "bm_get A y = Some e" by (auto simp: newly_collected_def)
    moreover from step(1) obtain e' where "bm_get A y = Some e'" "x \<in> set (parents e')"
      by (simp only: parent_rel_indexed [OF assms(2)]) blast
    ultimately show ?case using cl e unfolding closed_def by (metis option.inject)
  qed
  show "bm_get h k = Some e \<longleftrightarrow> bm_get A k = Some e \<and> k \<in> causal_past (map snd A) front"
  proof
    assume "bm_get h k = Some e"
    from new [OF this] show "bm_get A k = Some e \<and> k \<in> causal_past (map snd A) front"
      unfolding newly_collected_def causal_past_def by auto
  next
    assume k: "bm_get A k = Some e \<and> k \<in> causal_past (map snd A) front"
    then obtain e' where "bm_get h k = Some e'" using past unfolding causal_past_def by blast
    then show "bm_get h k = Some e" using new k by (auto simp: newly_collected_def)
  qed
  show "authentic v A k" if "k \<in> causal_past (map snd A) front"
    using that past new unfolding causal_past_def authentic_def newly_collected_def by blast
qed

section \<open>Ancestors and causal cycles\<close>

text \<open>
  Sound ancestors of a history: the events that have them are closed under parents, each set is
  the transitive closure of the parent relation, and no such event is its own ancestor.
\<close>

definition sound_ancestors ::
  "(string, 'v selection_event) bmap \<Rightarrow> (string, string set) bmap \<Rightarrow> bool"
where
  "sound_ancestors H anc \<longleftrightarrow> bmap_ok anc \<and> (\<forall>k s. bm_get anc k = Some s \<longrightarrow>
     bm_get H k \<noteq> None \<and> (\<forall>p. (p, k) \<in> parent_rel (map snd H) \<longrightarrow> bm_get anc p \<noteq> None)
     \<and> s = {x. (x, k) \<in> (parent_rel (map snd H))\<^sup>+} \<and> (k, k) \<notin> (parent_rel (map snd H))\<^sup>+)"

lemma sound_ancestorsD:
  assumes "sound_ancestors H anc" and "bm_get anc k = Some s"
  shows "bm_get H k \<noteq> None" and "(p, k) \<in> parent_rel (map snd H) \<Longrightarrow> bm_get anc p \<noteq> None"
    and "s = {x. (x, k) \<in> (parent_rel (map snd H))\<^sup>+}" and "(k, k) \<notin> (parent_rel (map snd H))\<^sup>+"
  using assms unfolding sound_ancestors_def by blast+

lemma ancestors_down:
  assumes "sound_ancestors H anc" and "(x, k) \<in> (parent_rel (map snd H))\<^sup>+" and "bm_get anc k \<noteq> None"
  shows "bm_get anc x \<noteq> None"
  using assms(2,3)
proof (induction rule: trancl_induct)
  case (base y)
  then show ?case using sound_ancestorsD(2) [OF assms(1)] by blast
next
  case (step y z)
  then show ?case using sound_ancestorsD(2) [OF assms(1)] by blast
qed

lemma fold_union: "fold (\<lambda>p c. c \<union> f p) ps s = s \<union> (\<Union>p\<in>set ps. f p)"
  by (induction ps arbitrary: s) auto

lemma trancl_parents:
  assumes "indexed H" and "bm_get H k = Some e"
  shows "(x, k) \<in> (parent_rel (map snd H))\<^sup>+ \<longleftrightarrow>
    x \<in> set (parents e) \<or> (\<exists>p. p \<in> set (parents e) \<and> (x, p) \<in> (parent_rel (map snd H))\<^sup>+)"
proof -
  have "(p, k) \<in> parent_rel (map snd H) \<longleftrightarrow> p \<in> set (parents e)" for p
    unfolding parent_rel_indexed [OF assms(1)] by (simp add: assms(2))
  then show ?thesis by (subst trancl_unfold) (auto simp: relcomp_unfold)
qed

text \<open>An event is ready when it has no ancestors yet and all its parents do.\<close>

definition ready :: "(string, 'v selection_event) bmap \<Rightarrow> (string, string set) bmap \<Rightarrow> 'v selection_event \<Rightarrow> bool" where
  "ready H anc e \<longleftrightarrow> bm_get H (event_id e) = Some e \<and> bm_get anc (event_id e) = None
     \<and> (\<forall>p. p \<in> set (parents e) \<longrightarrow> bm_get anc p \<noteq> None)"

lemma ready_events_iff:
  assumes "indexed H"
  shows "e \<in> set (ready_events H anc) \<longleftrightarrow> ready H anc e" and "distinct (map event_id (ready_events H anc))"
  using indexed_acts [OF assms]
  by (auto simp: ready_events_def ready_def list_all_iff distinct_map_filter simp del: set_map map_map)

lemma add_ancestors_sound:
  assumes H: "indexed H" and anc: "sound_ancestors H anc" and e: "ready H anc e"
  shows "sound_ancestors H (add_ancestors e anc)"
    and "bm_get (add_ancestors e anc) k \<noteq> None \<longleftrightarrow> bm_get anc k \<noteq> None \<or> k = event_id e"
    and "length (add_ancestors e anc) = Suc (length anc)"
proof -
  let ?P = "parent_rel (map snd H)" and ?i = "event_id e"
  have get: "bm_get H ?i = Some e" and fresh: "bm_get anc ?i = None" and
    parents: "\<And>p. p \<in> set (parents e) \<Longrightarrow> bm_get anc p \<noteq> None"
    using e by (auto simp: ready_def)
  have at: "set_at anc p = {x. (x, p) \<in> ?P\<^sup>+}" if "p \<in> set (parents e)" for p
    using parents [OF that] sound_ancestorsD(3) [OF anc] by (force simp: set_at_def)
  have closure: "fold (\<lambda>p closure. closure \<union> set_at anc p) (parents e) (set (parents e)) = {x. (x, ?i) \<in> ?P\<^sup>+}"
    unfolding fold_union trancl_parents [OF H get] using at by auto
  have self: "(?i, ?i) \<notin> ?P\<^sup>+"
    unfolding trancl_parents [OF H get] using parents fresh ancestors_down [OF anc] by blast
  have up: "(p, ?i) \<in> ?P \<longleftrightarrow> p \<in> set (parents e)" for p
    unfolding parent_rel_indexed [OF H] by (simp add: get)
  show "sound_ancestors H (add_ancestors e anc)"
    unfolding sound_ancestors_def add_ancestors_def closure
    using anc get self parents up by (auto simp: sound_ancestors_def)
  show "bm_get (add_ancestors e anc) k \<noteq> None \<longleftrightarrow> bm_get anc k \<noteq> None \<or> k = ?i"
    by (simp add: add_ancestors_def)
  show "length (add_ancestors e anc) = Suc (length anc)"
    using fresh by (simp add: add_ancestors_def bm_insert_length bm_get_None del: set_map)
qed

lemma add_all_sound:
  assumes "indexed H" and "sound_ancestors H anc"
    and "\<And>e. e \<in> set es \<Longrightarrow> ready H anc e" and "distinct (map event_id es)"
  shows "sound_ancestors H (fold add_ancestors es anc)
    \<and> length (fold add_ancestors es anc) = length es + length anc"
  using assms(2-)
proof (induction es arbitrary: anc)
  case (Cons e es)
  note step = add_ancestors_sound [OF assms(1) Cons.prems(1) Cons.prems(2) [OF list.set_intros(1)]]
  have "ready H (add_ancestors e anc) e'" if "e' \<in> set es" for e'
  proof -
    have "event_id e' \<noteq> event_id e" using that Cons.prems(3) by (auto simp: image_iff)
    then show ?thesis using Cons.prems(2) [OF list.set_intros(2) [OF that]] step(2) unfolding ready_def by metis
  qed
  then show ?case using Cons.IH [OF step(1)] step(3) Cons.prems(3) by simp
qed simp

lemma sound_ancestors_keys:
  assumes "indexed H" and "sound_ancestors H anc"
  shows "set (bm_keys anc) \<subseteq> set (bm_keys H)" and "length anc \<le> length H"
    and "length anc = length H \<longleftrightarrow> set (bm_keys anc) = set (bm_keys H)"
proof -
  show sub: "set (bm_keys anc) \<subseteq> set (bm_keys H)"
    using sound_ancestorsD(1) [OF assms(2)] bm.keys_get [of _ anc] bm.keys_get [of _ H] by blast
  have len: "length m = card (set (bm_keys m))" if "bmap_ok m" for m :: "(string, 'b) bmap"
    using distinct_card [OF bmap_ok_distinct [OF that]] by simp
  have ok: "bmap_ok anc" "bmap_ok H" using assms by (auto simp: sound_ancestors_def indexed_def)
  show "length anc \<le> length H"
    unfolding len [OF ok(2)] by (metis len [OF ok(1)] sub card_mono finite_set)
  show "length anc = length H \<longleftrightarrow> set (bm_keys anc) = set (bm_keys H)"
    using card_subset_eq [OF finite_set sub] len [OF ok(2)] distinct_card [OF bmap_ok_distinct [OF ok(1)]]
    by (metis length_map)
qed

text \<open>The rounds stop with nothing ready: one round per event of the history is enough.\<close>

lemma ancestor_rounds_result:
  assumes "indexed H" and "sound_ancestors H anc" and "length H \<le> n + length anc"
  shows "sound_ancestors H (ancestor_rounds n H anc) \<and> ready_events H (ancestor_rounds n H anc) = []"
  using assms(2,3)
proof (induction n arbitrary: anc)
  case 0
  then have "set (bm_keys anc) = set (bm_keys H)"
    using sound_ancestors_keys(2,3) [OF assms(1)] by force
  then have "\<not> ready H anc e" for e
    unfolding ready_def using bm.keys_get [of "event_id e" anc] bm.keys_get [of "event_id e" H] by auto
  then have "e \<notin> set (ready_events H anc)" for e unfolding ready_events_iff [OF assms(1)] .
  then have "ready_events H anc = []" by (metis last_in_set)
  then show ?case using 0 by simp
next
  case (Suc n)
  show ?case
  proof (cases "ready_events H anc = []")
    case False
    have step: "sound_ancestors H (fold add_ancestors (ready_events H anc) anc)
        \<and> length (fold add_ancestors (ready_events H anc) anc) = length (ready_events H anc) + length anc"
      by (rule add_all_sound [OF assms(1) Suc.prems(1)]) (simp_all add: ready_events_iff [OF assms(1)])
    then have "length H \<le> n + length (fold add_ancestors (ready_events H anc) anc)"
      using Suc.prems(2) False by (cases "ready_events H anc") simp_all
    then show ?thesis using Suc.IH step False by (simp add: Let_def)
  qed (use Suc in simp)
qed

text \<open>All events get their ancestors exactly when the parent relation has no cycle.\<close>

lemma ancestors_complete:
  assumes "indexed H" and "closed H" and anc: "anc = ancestor_rounds (length H) H []"
  shows "length anc = length H \<longleftrightarrow> acyclic (parent_rel (map snd H))"
    and "acyclic (parent_rel (map snd H)) \<Longrightarrow> bm_get H k \<noteq> None \<Longrightarrow>
      bm_get anc k = Some {x. (x, k) \<in> (parent_rel (map snd H))\<^sup>+}"
proof -
  let ?P = "parent_rel (map snd H)"
  have "sound_ancestors H []" by (simp add: sound_ancestors_def)
  from ancestor_rounds_result [OF assms(1) this, of "length H"]
  have s: "sound_ancestors H anc" and stuck: "ready_events H anc = []" by (simp_all add: anc)
  note keys = sound_ancestors_keys [OF assms(1) s]
  have fin: "?P \<subseteq> set (bm_keys H) \<times> set (bm_keys H)"
    using assms(2) unfolding subset_iff by (auto simp: parent_rel_indexed [OF assms(1)] closed_def bm.keys_get simp del: set_map)
  have "acyclic ?P" if len: "length anc = length H"
  proof (rule acyclicI, rule allI, rule notI)
    fix x assume x: "(x, x) \<in> ?P\<^sup>+"
    then have "x \<in> set (bm_keys H)" using fin trancl_subset_Sigma by blast
    then obtain t where "bm_get anc x = Some t" using len keys(3) bm.keys_get [of x anc] by blast
    then show False using sound_ancestorsD(4) [OF s] x by blast
  qed
  moreover have all: "set (bm_keys anc) = set (bm_keys H)" if "acyclic ?P"
  proof (rule ccontr)
    assume "\<not> ?thesis"
    then obtain k where k: "k \<in> set (bm_keys H) - set (bm_keys anc)" using keys(1) by blast
    have "finite ?P" by (rule finite_subset [OF fin]) simp
    then have "wf ?P" using that by (rule finite_acyclic_wf)
    from wfE_min [OF this k] obtain z where z: "z \<in> set (bm_keys H)" "z \<notin> set (bm_keys anc)"
      and least: "\<And>y. (y, z) \<in> ?P \<Longrightarrow> y \<notin> set (bm_keys H) - set (bm_keys anc)" by blast
    then obtain e where e: "bm_get H z = Some e" using bm.keys_get [of z H] by blast
    have "event_id e = z" using e assms(1) by (simp add: indexed_def)
    moreover have "bm_get anc z = None" using z(2) bm.keys_get [of z anc] by blast
    moreover have "bm_get anc p \<noteq> None" if p: "p \<in> set (parents e)" for p
    proof -
      have "(p, z) \<in> ?P" unfolding parent_rel_indexed [OF assms(1)] using e p by blast
      moreover have "p \<in> set (bm_keys H)" unfolding bm.keys_get using assms(2) e p unfolding closed_def by blast
      ultimately show ?thesis using least bm.keys_get [of p anc] by blast
    qed
    ultimately have "ready H anc e" using e by (simp add: ready_def)
    then show False using ready_events_iff(1) [OF assms(1)] stuck by (metis list.set(1) empty_iff)
  qed
  ultimately show "length anc = length H \<longleftrightarrow> acyclic ?P" using keys(3) by blast
  show "bm_get anc k = Some {x. (x, k) \<in> ?P\<^sup>+}" if ac: "acyclic ?P" and k: "bm_get H k \<noteq> None"
  proof -
    obtain t where "bm_get anc k = Some t"
      using all [OF ac] k bm.keys_get [of k anc] bm.keys_get [of k H] by blast
    then show ?thesis using sound_ancestorsD(3) [OF s] by simp
  qed
qed

section \<open>When a selection exists\<close>

definition event_index :: "'v selection_event list \<Rightarrow> (string, 'v selection_event) bmap" where
  "event_index es = fold (\<lambda>e. bm_insert (event_id e) e) es []"

lemma parent_rel_cong: "set es = set es' \<Longrightarrow> parent_rel es = parent_rel es'"
  by (simp add: parent_rel_def)

lemma event_index:
  assumes "well_named es"
  shows "indexed (event_index es)" and "bm_get (event_index es) k = Some e \<longleftrightarrow> e \<in> set es \<and> event_id e = k"
    and "parent_rel (map snd (event_index es)) = parent_rel es"
    and "causal_past (map snd (event_index es)) front = causal_past es front"
proof -
  show ix: "indexed (event_index es)" and get: "bm_get (event_index es) k = Some e \<longleftrightarrow> e \<in> set es \<and> event_id e = k" for k e
    using index_events_get [OF assms] unfolding event_index_def by blast+
  have "set (map snd (event_index es)) = set es"
    unfolding set_eq_iff indexed_acts(1) [OF ix] get by simp
  then show rel: "parent_rel (map snd (event_index es)) = parent_rel es" by (rule parent_rel_cong)
  show "causal_past (map snd (event_index es)) front = causal_past es front"
    unfolding causal_past_def rel ..
qed

text \<open>Inside the causal past the parent relation of the history is the one of all events.\<close>

lemma past_trancl:
  assumes "indexed A" and h: "\<And>k e. bm_get h k = Some e \<longleftrightarrow> bm_get A k = Some e \<and> k \<in> causal_past (map snd A) front"
    and "indexed h" and "k \<in> causal_past (map snd A) front"
  shows "(x, k) \<in> (parent_rel (map snd h))\<^sup>+ \<longleftrightarrow> (x, k) \<in> (parent_rel (map snd A))\<^sup>+"
proof
  have "parent_rel (map snd h) \<subseteq> parent_rel (map snd A)"
    unfolding subset_iff by (auto simp: parent_rel_indexed [OF assms(1)] parent_rel_indexed [OF assms(3)] h simp del: set_map)
  then show "(x, k) \<in> (parent_rel (map snd h))\<^sup>+ \<Longrightarrow> (x, k) \<in> (parent_rel (map snd A))\<^sup>+"
    by (blast intro: trancl_mono)
  assume "(x, k) \<in> (parent_rel (map snd A))\<^sup>+"
  then show "(x, k) \<in> (parent_rel (map snd h))\<^sup>+" using assms(4)
  proof (induction rule: trancl_induct)
    case (base y)
    then show ?case
      by (auto simp: parent_rel_indexed [OF assms(1)] parent_rel_indexed [OF assms(3)] h simp del: set_map)
  next
    case (step y z)
    then have "y \<in> causal_past (map snd A) front"
      unfolding causal_past_def by (blast intro: converse_rtrancl_into_rtrancl)
    with step.IH have "(x, y) \<in> (parent_rel (map snd h))\<^sup>+" .
    moreover have "(y, z) \<in> parent_rel (map snd h)"
      using step(2,4) by (auto simp: parent_rel_indexed [OF assms(1)] parent_rel_indexed [OF assms(3)] h simp del: set_map)
    ultimately show ?case by (rule trancl_into_trancl)
  qed
qed

text \<open>The history and the ancestors of a successful selection.\<close>

definition is_history :: "'v selection_event list \<Rightarrow> string list \<Rightarrow> (string, 'v selection_event) bmap \<Rightarrow> bool" where
  "is_history es front h \<longleftrightarrow> indexed h \<and> closed h
     \<and> (\<forall>k e. bm_get h k = Some e \<longleftrightarrow> e \<in> set es \<and> event_id e = k \<and> k \<in> causal_past es front)"

definition is_ancestry :: "'v selection_event list \<Rightarrow> (string, 'v selection_event) bmap \<Rightarrow> (string, string set) bmap \<Rightarrow> bool" where
  "is_ancestry es h anc \<longleftrightarrow> (\<forall>k. bm_get h k \<noteq> None \<longrightarrow> set_at anc k = {x. (x, k) \<in> (parent_rel es)\<^sup>+})"

lemma collected_history:
  assumes "well_named es" and "collect_history v (event_index es) [] (rev front) = Ok h"
  shows "is_history es front h"
    and "acyclic (parent_rel (map snd h)) \<longleftrightarrow> \<not> (\<exists>x. x \<in> causal_past es front \<and> (x, x) \<in> (parent_rel es)\<^sup>+)"
    and "acyclic (parent_rel (map snd h)) \<Longrightarrow> is_ancestry es h (ancestor_rounds (length h) h [])"
proof -
  note ix = event_index [OF assms(1)]
  note c = collect_history_closed [OF assms(2) ix(1)]
  from c show hist: "is_history es front h" unfolding is_history_def ix(2) ix(4) by blast
  have keys: "bm_get h k \<noteq> None \<longleftrightarrow> k \<in> causal_past es front" for k
    using c(3,4) unfolding ix(4) authentic_def by blast
  have tr: "(x, k) \<in> (parent_rel (map snd h))\<^sup>+ \<longleftrightarrow> (x, k) \<in> (parent_rel es)\<^sup>+" if "k \<in> causal_past es front" for x k
    using past_trancl [OF ix(1) c(3) c(1), of k x] that unfolding ix(3,4) by blast
  have "x \<in> causal_past es front" if "(y, x) \<in> (parent_rel (map snd h))\<^sup>+" for x y
    using that keys by (cases rule: trancl.cases) (auto simp: parent_rel_indexed [OF c(1)] simp del: set_map)
  then show "acyclic (parent_rel (map snd h)) \<longleftrightarrow> \<not> (\<exists>x. x \<in> causal_past es front \<and> (x, x) \<in> (parent_rel es)\<^sup>+)"
    unfolding acyclic_def using tr by blast
  show "is_ancestry es h (ancestor_rounds (length h) h [])" if "acyclic (parent_rel (map snd h))"
    unfolding is_ancestry_def set_at_def
    using ancestors_complete(2) [OF c(1,2) refl that] keys tr by auto
qed

lemma select_evidence_Ok:
  "select_evidence q es v = Ok r \<longleftrightarrow> valid_query q \<and> well_named es
     \<and> (\<exists>h. collect_history v (event_index es) [] (rev (frontier q)) = Ok h \<and> acyclic (parent_rel (map snd h))
          \<and> r = derive_selection q v h (ancestor_rounds (length h) h []))"
proof -
  have "length (ancestor_rounds (length h) h []) = length h \<longleftrightarrow> acyclic (parent_rel (map snd h))"
    if "well_named es" "collect_history v (event_index es) [] (rev (frontier q)) = Ok h" for h
    by (rule ancestors_complete(1) [OF _ _ refl]) (rule collect_history_closed [OF that(2) event_index(1) [OF that(1)]])+
  then show ?thesis
    by (auto simp: select_evidence_def index_events_eq event_index_def [symmetric] res_simps Let_def)
qed

lemma collect_history_succeeds:
  assumes "well_named es"
  shows "(\<exists>h. collect_history v (event_index es) [] (rev front) = Ok h) \<longleftrightarrow>
    causal_past es front \<subseteq> event_id ` {e \<in> set es. verify_event v e}"
proof -
  note ix = event_index [OF assms]
  have auth: "authentic v (event_index es) k \<longleftrightarrow> k \<in> event_id ` {e \<in> set es. verify_event v e}" for k
    unfolding authentic_def ix(2) by auto
  show ?thesis
  proof (cases "collect_history v (event_index es) [] (rev front)")
    case (Inl m)
    from collect_history_Err [OF this ix(1)] show ?thesis
      unfolding auth ix(3) using Inl by (auto simp: causal_past_def)
  next
    case (Inr h)
    from collect_history_closed(4) [OF this ix(1)] show ?thesis
      unfolding auth ix(4) using Inr by blast
  qed
qed

section \<open>The observations of a selection\<close>

text \<open>The judgment of an event that is an observation, and whether the query admits it.\<close>

definition judgment_of :: "'v selection_verifier \<Rightarrow> 'v selection_event \<Rightarrow> 'v test_judgment option" where
  "judgment_of v e = (case payload e of
     Observation contract report \<Rightarrow> Some (evaluate_report contract report (report_checks v)) | _ \<Rightarrow> None)"

definition admitted :: "selection_query \<Rightarrow> 'v selection_verifier \<Rightarrow> 'v selection_event \<Rightarrow> bool" where
  "admitted q v e \<longleftrightarrow> (case payload e of
     Observation contract _ \<Rightarrow> requirement (contract_subject contract) = q_requirement q \<and> accepts_contract v q contract
   | _ \<Rightarrow> False)"

definition passes :: "'v selection_verifier \<Rightarrow> 'v selection_event \<Rightarrow> bool" where
  "passes v e \<longleftrightarrow> (case judgment_of v e of Some j \<Rightarrow> outcome j = Pass | None \<Rightarrow> False)"

definition fails :: "'v selection_verifier \<Rightarrow> 'v selection_event \<Rightarrow> bool" where
  "fails v e \<longleftrightarrow> (case judgment_of v e of Some j \<Rightarrow> counterexamples j \<noteq> [] | None \<Rightarrow> False)"

definition about :: "selection_query \<Rightarrow> 'v selection_verifier \<Rightarrow> 'v selection_event \<Rightarrow> bool" where
  "about q v e \<longleftrightarrow> (case judgment_of v e of Some j \<Rightarrow> artifact (subject j) = q_artifact q | None \<Rightarrow> False)"

lemma subject_evaluate_report [simp]: "subject (evaluate_report c rep v) = contract_subject c"
  by (simp add: evaluate_report_def Let_def split: prod.splits)

lemma judge_event_fields:
  assumes "judge_event q v e (el, r) = (el', r')"
  shows "x \<in> el' \<longleftrightarrow> x \<in> el \<or> x = event_id e \<and> admitted q v e"
    and "x \<in> positive r' \<longleftrightarrow> x \<in> positive r \<or> x = event_id e \<and> admitted q v e \<and> passes v e \<and> about q v e"
    and "x \<in> counterevidence r' \<longleftrightarrow> x \<in> counterevidence r \<or> x = event_id e \<and> admitted q v e \<and> fails v e \<and> about q v e"
    and "bm_get (judgments r') x = (if x = event_id e \<and> judgment_of v e \<noteq> None then judgment_of v e else bm_get (judgments r) x)"
    and "history r' = history r" "retired_by r' = retired_by r" "reused_by r' = reused_by r" "query r' = query r"
  using assms
  by (cases "payload e"; auto simp: judge_event_def Let_def admitted_def passes_def fails_def about_def judgment_of_def
      split: if_splits)+

text \<open>The loop over a list of events with different ids.\<close>

lemma judge_all:
  assumes "fold (judge_event q v) acts ({}, (empty_selection q)\<lparr>history := h\<rparr>) = (el, r)"
    and "distinct (map event_id acts)"
  shows "(x \<in> el \<longleftrightarrow> (\<exists>e. e \<in> set acts \<and> event_id e = x \<and> admitted q v e))
    \<and> (x \<in> positive r \<longleftrightarrow> (\<exists>e. e \<in> set acts \<and> event_id e = x \<and> admitted q v e \<and> passes v e \<and> about q v e))
    \<and> (x \<in> counterevidence r \<longleftrightarrow> (\<exists>e. e \<in> set acts \<and> event_id e = x \<and> admitted q v e \<and> fails v e \<and> about q v e))
    \<and> (bm_get (judgments r) x = Some j \<longleftrightarrow> (\<exists>e. e \<in> set acts \<and> event_id e = x \<and> judgment_of v e = Some j))
    \<and> history r = h \<and> retired_by r = [] \<and> reused_by r = []"
  using assms
proof (induction acts arbitrary: el r rule: rev_induct)
  case Nil
  then show ?case by (auto simp: empty_selection_def)
next
  case (snoc e acts)
  obtain el1 r1 where pre: "fold (judge_event q v) acts ({}, (empty_selection q)\<lparr>history := h\<rparr>) = (el1, r1)"
    by (metis prod.exhaust)
  then have step: "judge_event q v e (el1, r1) = (el, r)" using snoc.prems(1) by simp
  have new: "event_id a \<noteq> event_id e" if "a \<in> set acts" for a
    using snoc.prems(2) that by (auto simp: image_iff)
  have IH: "x \<in> el1 \<longleftrightarrow> (\<exists>e. e \<in> set acts \<and> event_id e = x \<and> admitted q v e)"
      "x \<in> positive r1 \<longleftrightarrow> (\<exists>e. e \<in> set acts \<and> event_id e = x \<and> admitted q v e \<and> passes v e \<and> about q v e)"
      "x \<in> counterevidence r1 \<longleftrightarrow> (\<exists>e. e \<in> set acts \<and> event_id e = x \<and> admitted q v e \<and> fails v e \<and> about q v e)"
      "bm_get (judgments r1) x = Some j \<longleftrightarrow> (\<exists>e. e \<in> set acts \<and> event_id e = x \<and> judgment_of v e = Some j)"
      "history r1 = h" "retired_by r1 = []" "reused_by r1 = []"
    using snoc.IH [OF pre] snoc.prems(2) by simp_all
  note f = judge_event_fields [OF step]
  have "bm_get (judgments r) x = Some j \<longleftrightarrow> (\<exists>a. a \<in> set (acts @ [e]) \<and> event_id a = x \<and> judgment_of v a = Some j)"
    using IH(4) new unfolding f(4) by auto
  moreover have "x \<in> el \<longleftrightarrow> (\<exists>a. a \<in> set (acts @ [e]) \<and> event_id a = x \<and> admitted q v a)"
    unfolding f(1) IH(1) by auto
  moreover have "x \<in> positive r \<longleftrightarrow>
      (\<exists>a. a \<in> set (acts @ [e]) \<and> event_id a = x \<and> admitted q v a \<and> passes v a \<and> about q v a)"
    unfolding f(2) IH(2) by auto
  moreover have "x \<in> counterevidence r \<longleftrightarrow>
      (\<exists>a. a \<in> set (acts @ [e]) \<and> event_id a = x \<and> admitted q v a \<and> fails v a \<and> about q v a)"
    unfolding f(3) IH(3) by auto
  ultimately show ?case using IH(5-7) f(5-7) by metis
qed

section \<open>Preservation acts and resolutions\<close>

lemma applied_iff:
  "applied (evaluate_reuse q v anc el J i ob w) \<longleftrightarrow>
     witness_id w = i \<and> ob \<in> set_at anc i \<and> accepts_preservation v q w \<and> ob \<in> el
     \<and> (\<exists>j. bm_get J ob = Some j \<and> (outcome j = Pass \<or> counterexamples j \<noteq> [])
          \<and> preserved (evaluate_preservation (reuse_context q j w) w (verify_preservation_basis v)))"
  by (cases "bm_get J ob") (auto simp: evaluate_reuse_def Let_def)

text \<open>The event is a preservation act that applies to the observation.\<close>

definition transports ::
  "selection_query \<Rightarrow> 'v selection_verifier \<Rightarrow> (string, string set) bmap \<Rightarrow> string set
     \<Rightarrow> (string, 'v test_judgment) bmap \<Rightarrow> 'v selection_event \<Rightarrow> string \<Rightarrow> bool"
where
  "transports q v anc el J e ob \<longleftrightarrow>
     (\<exists>w. payload e = PreservationAct ob w \<and> applied (evaluate_reuse q v anc el J (event_id e) ob w))"

lemma set_at_entry_insert: "set_at (entry_insert k i m) x = (if x = k then insert i (set_at m k) else set_at m x)"
  by (simp add: entry_insert_def set_at_def)

lemma reuse_event_fields:
  assumes "r' = reuse_event q v anc el e r"
  shows "judgments r' = judgments r" "history r' = history r" "retired_by r' = retired_by r"
    and "x \<in> positive r' \<longleftrightarrow> x \<in> positive r \<or> transports q v anc el (judgments r) e x
      \<and> (\<exists>j. bm_get (judgments r) x = Some j \<and> outcome j = Pass)"
    and "x \<in> counterevidence r' \<longleftrightarrow> x \<in> counterevidence r \<or> transports q v anc el (judgments r) e x
      \<and> (\<exists>j. bm_get (judgments r) x = Some j \<and> counterexamples j \<noteq> [])"
    and "y \<in> set_at (reused_by r') x \<longleftrightarrow> y \<in> set_at (reused_by r) x
      \<or> y = event_id e \<and> transports q v anc el (judgments r) e x"
proof -
  show "judgments r' = judgments r" "history r' = history r" "retired_by r' = retired_by r"
    unfolding assms by (cases "payload e"; simp add: reuse_event_def Let_def split: option.splits)+
  show "x \<in> positive r' \<longleftrightarrow> x \<in> positive r \<or> transports q v anc el (judgments r) e x
      \<and> (\<exists>j. bm_get (judgments r) x = Some j \<and> outcome j = Pass)"
    unfolding assms transports_def by (cases "payload e") (auto simp: reuse_event_def Let_def applied_iff)
  show "x \<in> counterevidence r' \<longleftrightarrow> x \<in> counterevidence r \<or> transports q v anc el (judgments r) e x
      \<and> (\<exists>j. bm_get (judgments r) x = Some j \<and> counterexamples j \<noteq> [])"
    unfolding assms transports_def by (cases "payload e") (auto simp: reuse_event_def Let_def applied_iff)
  show "y \<in> set_at (reused_by r') x \<longleftrightarrow> y \<in> set_at (reused_by r) x
      \<or> y = event_id e \<and> transports q v anc el (judgments r) e x"
  proof (cases "\<exists>ob w. payload e = PreservationAct ob w \<and> applied (evaluate_reuse q v anc el (judgments r) (event_id e) ob w)")
    case True
    then obtain ob w where ob: "payload e = PreservationAct ob w"
        "applied (evaluate_reuse q v anc el (judgments r) (event_id e) ob w)" by blast
    then obtain j where "bm_get (judgments r) ob = Some j" unfolding applied_iff by blast
    with ob have "reused_by r' = entry_insert ob (event_id e) (reused_by r)"
      unfolding assms by (simp add: reuse_event_def Let_def)
    moreover have "transports q v anc el (judgments r) e x \<longleftrightarrow> x = ob" using ob by (auto simp: transports_def)
    ultimately show ?thesis by (auto simp: set_at_entry_insert)
  next
    case False
    then have "reused_by r' = reused_by r"
      unfolding assms by (cases "payload e") (simp_all add: reuse_event_def Let_def)
    moreover have "\<not> transports q v anc el (judgments r) e x" using False unfolding transports_def by blast
    ultimately show ?thesis by simp
  qed
qed

lemma reuse_all:
  assumes "r' = fold (reuse_event q v anc el) acts r" and "reused_by r = []"
  shows "judgments r' = judgments r" "history r' = history r" "retired_by r' = retired_by r"
    and "x \<in> positive r' \<longleftrightarrow> x \<in> positive r \<or> (\<exists>e. e \<in> set acts \<and> transports q v anc el (judgments r) e x)
      \<and> (\<exists>j. bm_get (judgments r) x = Some j \<and> outcome j = Pass)"
    and "x \<in> counterevidence r' \<longleftrightarrow> x \<in> counterevidence r \<or> (\<exists>e. e \<in> set acts \<and> transports q v anc el (judgments r) e x)
      \<and> (\<exists>j. bm_get (judgments r) x = Some j \<and> counterexamples j \<noteq> [])"
    and "y \<in> set_at (reused_by r') x \<longleftrightarrow> (\<exists>e. e \<in> set acts \<and> event_id e = y \<and> transports q v anc el (judgments r) e x)"
proof -
  have fixed: "judgments (fold (reuse_event q v anc el) as r) = judgments r" for as
    by (induction as rule: rev_induct) (simp_all add: reuse_event_fields(1) [OF refl])
  show "judgments r' = judgments r" unfolding assms(1) by (rule fixed)
  show "history r' = history r" "retired_by r' = retired_by r"
    unfolding assms(1) by (induction acts rule: rev_induct) (simp_all add: reuse_event_fields(2,3) [OF refl])
  show "x \<in> positive r' \<longleftrightarrow> x \<in> positive r \<or> (\<exists>e. e \<in> set acts \<and> transports q v anc el (judgments r) e x)
      \<and> (\<exists>j. bm_get (judgments r) x = Some j \<and> outcome j = Pass)"
    unfolding assms(1) by (induction acts rule: rev_induct) (auto simp: reuse_event_fields(4) [OF refl] fixed)
  show "x \<in> counterevidence r' \<longleftrightarrow> x \<in> counterevidence r \<or> (\<exists>e. e \<in> set acts \<and> transports q v anc el (judgments r) e x)
      \<and> (\<exists>j. bm_get (judgments r) x = Some j \<and> counterexamples j \<noteq> [])"
    unfolding assms(1) by (induction acts rule: rev_induct) (auto simp: reuse_event_fields(5) [OF refl] fixed)
  show "y \<in> set_at (reused_by r') x \<longleftrightarrow> (\<exists>e. e \<in> set acts \<and> event_id e = y \<and> transports q v anc el (judgments r) e x)"
    unfolding assms(1) using assms(2)
    by (induction acts rule: rev_induct) (auto simp: reuse_event_fields(6) [OF refl] fixed set_at_def [of "[]"])
qed

text \<open>The event is an act of resolution that retires the id, judged in the given selection.\<close>

definition retires ::
  "selection_query \<Rightarrow> 'v selection_verifier \<Rightarrow> (string, string set) bmap \<Rightarrow> 'v evidence_selection
     \<Rightarrow> 'v selection_event \<Rightarrow> string \<Rightarrow> bool"
where
  "retires q v anc r e x \<longleftrightarrow>
     (\<exists>res. payload e = Resolution res \<and> predecessor res = x \<and> scoped q res \<and> grounded r res
        \<and> support_precedes q anc r e x \<and> support_precedes q anc r e (replacement res)
        \<and> authorize_resolution v q e)"

lemma resolve_event_fields:
  assumes "r' = resolve_event q v anc e r"
  shows "judgments r' = judgments r" "history r' = history r" "reused_by r' = reused_by r"
    "positive r' = positive r" "counterevidence r' = counterevidence r"
    and "bm_get (retired_by r') x \<noteq> None \<longleftrightarrow> bm_get (retired_by r) x \<noteq> None \<or> retires q v anc r e x"
  unfolding assms
  by (cases "payload e"; auto simp: resolve_event_def Let_def retires_def entry_insert_def)+

lemma retires_cong:
  assumes "judgments r' = judgments r" "reused_by r' = reused_by r" "positive r' = positive r"
    "counterevidence r' = counterevidence r"
  shows "retires q v anc r' e x \<longleftrightarrow> retires q v anc r e x"
  unfolding retires_def grounded_def support_precedes_def assms ..

lemma resolve_all:
  assumes "r' = fold (resolve_event q v anc) acts r" and "retired_by r = []"
  shows "judgments r' = judgments r" "history r' = history r" "reused_by r' = reused_by r"
    "positive r' = positive r" "counterevidence r' = counterevidence r"
    and "bm_get (retired_by r') x \<noteq> None \<longleftrightarrow> (\<exists>e. e \<in> set acts \<and> retires q v anc r e x)"
proof -
  let ?r = "\<lambda>as. fold (resolve_event q v anc) as r"
  have f: "judgments (?r as) = judgments r \<and> history (?r as) = history r \<and> reused_by (?r as) = reused_by r
    \<and> positive (?r as) = positive r \<and> counterevidence (?r as) = counterevidence r" for as
    by (induction as rule: rev_induct) (simp_all add: resolve_event_fields [OF refl])
  then show "judgments r' = judgments r" "history r' = history r" "reused_by r' = reused_by r"
    "positive r' = positive r" "counterevidence r' = counterevidence r" unfolding assms(1) by blast+
  show "bm_get (retired_by r') x \<noteq> None \<longleftrightarrow> (\<exists>e. e \<in> set acts \<and> retires q v anc r e x)"
    unfolding assms(1)
  proof (induction acts rule: rev_induct)
    case (snoc e acts)
    have "retires q v anc (?r acts) e x \<longleftrightarrow> retires q v anc r e x" by (rule retires_cong) (use f in blast)+
    then show ?case using snoc resolve_event_fields(6) [OF refl, of q v anc e "?r acts" x] by auto
  qed (simp add: assms(2))
qed

text \<open>
  What the selection promises, over the events and the causal order alone: an observation of the
  causal past applies to the query when it is admitted and is about the queried artifact, or some
  accepted preservation act of the causal past that follows it carries it over.
\<close>

definition past_events :: "selection_query \<Rightarrow> 'v selection_event list \<Rightarrow> 'v selection_event set" where
  "past_events q es = {e \<in> set es. event_id e \<in> causal_past es (frontier q)}"

definition carries ::
  "selection_query \<Rightarrow> 'v selection_verifier \<Rightarrow> 'v selection_event list \<Rightarrow> 'v selection_event \<Rightarrow> 'v selection_event \<Rightarrow> bool"
where
  "carries q v es act e \<longleftrightarrow> act \<in> past_events q es \<and> (event_id e, event_id act) \<in> (parent_rel es)\<^sup>+
     \<and> (\<exists>w j. payload act = PreservationAct (event_id e) w \<and> witness_id w = event_id act
          \<and> accepts_preservation v q w \<and> judgment_of v e = Some j
          \<and> preserved (evaluate_preservation (reuse_context q j w) w (verify_preservation_basis v)))"

definition applies ::
  "selection_query \<Rightarrow> 'v selection_verifier \<Rightarrow> 'v selection_event list \<Rightarrow> 'v selection_event \<Rightarrow> bool"
where
  "applies q v es e \<longleftrightarrow> e \<in> past_events q es \<and> admitted q v e \<and> (about q v e \<or> (\<exists>act. carries q v es act e))"

lemma admitted_judged: "admitted q v e \<Longrightarrow> judgment_of v e \<noteq> None"
  by (cases "payload e") (auto simp: admitted_def judgment_of_def)

lemma transports_iff:
  assumes "well_named es" and h: "is_history es (frontier q) h" and anc: "is_ancestry es h anc"
    and el: "\<And>x. x \<in> el \<longleftrightarrow> (\<exists>e. e \<in> set (map snd h) \<and> event_id e = x \<and> admitted q v e)"
    and J: "\<And>x j. bm_get J x = Some j \<longleftrightarrow> (\<exists>e. e \<in> set (map snd h) \<and> event_id e = x \<and> judgment_of v e = Some j)"
    and e: "e \<in> past_events q es" "passes v e \<or> fails v e" and act: "act \<in> set (map snd h)"
  shows "transports q v anc el J act (event_id e) \<longleftrightarrow> admitted q v e \<and> carries q v es act e"
proof -
  have ix: "indexed h" and mem: "a \<in> set (map snd h) \<longleftrightarrow> a \<in> past_events q es" for a
    using h unfolding is_history_def past_events_def by (auto simp: indexed_acts(1) simp del: set_map)
  have uniq: "a = e" if "a \<in> past_events q es" "event_id a = event_id e" for a
    using that e(1) assms(1) unfolding past_events_def well_named_def by (simp add: distinct_map inj_on_def)
  have "set_at anc (event_id act) = {x. (x, event_id act) \<in> (parent_rel es)\<^sup>+}"
    using anc act indexed_acts(1) [OF ix, of act] unfolding is_ancestry_def by simp
  moreover have "event_id e \<in> el \<longleftrightarrow> admitted q v e" unfolding el mem using e(1) uniq by blast
  moreover have "bm_get J (event_id e) = Some j \<longleftrightarrow> judgment_of v e = Some j" for j
    unfolding J mem using e(1) uniq by blast
  moreover have "outcome j = Pass \<or> counterexamples j \<noteq> []" if "judgment_of v e = Some j" for j
    using that e(2) by (auto simp: passes_def fails_def)
  ultimately show ?thesis
    unfolding transports_def applied_iff carries_def using act [unfolded mem] by auto
qed

text \<open>Evidence that stands before an act: the act follows it, and what made it apply.\<close>

definition stands_before ::
  "selection_query \<Rightarrow> 'v selection_verifier \<Rightarrow> 'v selection_event list \<Rightarrow> 'v selection_event \<Rightarrow> 'v selection_event \<Rightarrow> bool"
where
  "stands_before q v es act e \<longleftrightarrow> e \<in> past_events q es \<and> admitted q v e \<and> (passes v e \<or> fails v e)
     \<and> (event_id e, event_id act) \<in> (parent_rel es)\<^sup>+
     \<and> (about q v e \<or> (\<exists>c. carries q v es c e \<and> (event_id c, event_id act) \<in> (parent_rel es)\<^sup>+))"

text \<open>The act resolves the evidence in favour of another evidence.\<close>

definition settles ::
  "selection_query \<Rightarrow> 'v selection_verifier \<Rightarrow> 'v selection_event list \<Rightarrow> 'v selection_event \<Rightarrow> string \<Rightarrow> bool"
where
  "settles q v es act x \<longleftrightarrow> act \<in> past_events q es \<and> authorize_resolution v q act
     \<and> (\<exists>res. payload act = Resolution res \<and> predecessor res = x \<and> replacement res \<noteq> x
          \<and> scoped q res \<and> \<not> blank (reason res)
          \<and> (\<exists>e. event_id e = x \<and> stands_before q v es act e)
          \<and> (\<exists>e. event_id e = replacement res \<and> stands_before q v es act e))"

lemma support_precedes_iff:
  "support_precedes q anc r e i \<longleftrightarrow> i \<in> set_at anc (event_id e)
     \<and> (\<exists>j. bm_get (judgments r) i = Some j \<and> (artifact (subject j) = q_artifact q
          \<or> (\<exists>y. y \<in> set_at (reused_by r) i \<and> y \<in> set_at anc (event_id e))))"
  by (auto simp: support_precedes_def set_at_def split: option.splits)

text \<open>The selection before resolutions, as the two first loops leave it.\<close>

definition judged_state ::
  "selection_query \<Rightarrow> 'v selection_verifier \<Rightarrow> 'v selection_event list \<Rightarrow> 'v evidence_selection \<Rightarrow> bool"
where
  "judged_state q v es r \<longleftrightarrow>
     (\<forall>x. x \<in> positive r \<longleftrightarrow> (\<exists>e. event_id e = x \<and> applies q v es e \<and> passes v e))
     \<and> (\<forall>x. x \<in> counterevidence r \<longleftrightarrow> (\<exists>e. event_id e = x \<and> applies q v es e \<and> fails v e))
     \<and> (\<forall>x j. bm_get (judgments r) x = Some j \<longleftrightarrow> (\<exists>e. e \<in> past_events q es \<and> event_id e = x \<and> judgment_of v e = Some j))
     \<and> (\<forall>e y. e \<in> past_events q es \<longrightarrow> passes v e \<or> fails v e \<longrightarrow> y \<in> set_at (reused_by r) (event_id e)
          \<longleftrightarrow> (\<exists>c. event_id c = y \<and> admitted q v e \<and> carries q v es c e))"

lemma judged_stateD:
  assumes "judged_state q v es r"
  shows "x \<in> positive r \<longleftrightarrow> (\<exists>e. event_id e = x \<and> applies q v es e \<and> passes v e)"
    and "x \<in> counterevidence r \<longleftrightarrow> (\<exists>e. event_id e = x \<and> applies q v es e \<and> fails v e)"
    and "bm_get (judgments r) x = Some j \<longleftrightarrow> (\<exists>e. e \<in> past_events q es \<and> event_id e = x \<and> judgment_of v e = Some j)"
    and "e \<in> past_events q es \<Longrightarrow> passes v e \<or> fails v e \<Longrightarrow> y \<in> set_at (reused_by r) (event_id e)
          \<longleftrightarrow> (\<exists>c. event_id c = y \<and> admitted q v e \<and> carries q v es c e)"
  using assms unfolding judged_state_def by blast+

lemma past_event_unique:
  assumes "well_named es" and "a \<in> past_events q es" "b \<in> past_events q es" "event_id a = event_id b"
  shows "a = b"
  using assms unfolding past_events_def well_named_def by (simp add: distinct_map inj_on_def)

lemma precedes_stands:
  assumes wn: "well_named es" and r: "judged_state q v es r"
    and anc: "set_at anc (event_id act) = {x. (x, event_id act) \<in> (parent_rel es)\<^sup>+}"
  shows "x \<in> positive r \<union> counterevidence r \<and> support_precedes q anc r act x
    \<longleftrightarrow> (\<exists>e. event_id e = x \<and> stands_before q v es act e)"
proof -
  have here: "x \<in> positive r \<union> counterevidence r \<longleftrightarrow> (\<exists>e. event_id e = x \<and> applies q v es e \<and> (passes v e \<or> fails v e))"
    unfolding Un_iff judged_stateD [OF r] by blast
  have sp: "support_precedes q anc r act (event_id e) \<longleftrightarrow> (event_id e, event_id act) \<in> (parent_rel es)\<^sup>+
      \<and> (about q v e \<or> (\<exists>c. carries q v es c e \<and> (event_id c, event_id act) \<in> (parent_rel es)\<^sup>+))"
    if e: "e \<in> past_events q es" "passes v e \<or> fails v e" "admitted q v e" for e
  proof -
    have "bm_get (judgments r) (event_id e) = Some j \<longleftrightarrow> judgment_of v e = Some j" for j
      unfolding judged_stateD(3) [OF r] using past_event_unique [OF wn _ e(1)] e(1) by blast
    moreover obtain j where "judgment_of v e = Some j" using admitted_judged [OF e(3)] by blast
    moreover have "y \<in> set_at (reused_by r) (event_id e) \<longleftrightarrow> (\<exists>c. event_id c = y \<and> carries q v es c e)" for y
      unfolding judged_stateD(4) [OF r e(1,2)] using e(3) by blast
    ultimately show ?thesis unfolding support_precedes_iff anc by (auto simp: about_def)
  qed
  show ?thesis
    unfolding here stands_before_def applies_def using sp by blast
qed

lemma judged_after_reuse:
  assumes wn: "well_named es" and h: "is_history es (frontier q) h" and anc: "is_ancestry es h anc"
    and j: "fold (judge_event q v) (map snd h) ({}, (empty_selection q)\<lparr>history := h\<rparr>) = (el, r1)"
    and r2: "r2 = fold (reuse_event q v anc el) (map snd h) r1"
  shows "judged_state q v es r2" and "retired_by r2 = []" and "history r2 = h"
proof -
  have ix: "indexed h" using h by (simp add: is_history_def)
  have mem: "a \<in> set (map snd h) \<longleftrightarrow> a \<in> past_events q es" for a
    using h unfolding is_history_def past_events_def by (auto simp: indexed_acts(1) simp del: set_map)
  note one = judge_all [OF j indexed_acts(2) [OF ix]]
  have "reused_by r1 = []" using one by blast
  note two = reuse_all [OF r2 this]
  show "retired_by r2 = []" "history r2 = h" using two(2,3) one by metis+
  have el: "x \<in> el \<longleftrightarrow> (\<exists>e. e \<in> set (map snd h) \<and> event_id e = x \<and> admitted q v e)" for x using one by blast
  have J: "bm_get (judgments r1) x = Some k \<longleftrightarrow> (\<exists>e. e \<in> set (map snd h) \<and> event_id e = x \<and> judgment_of v e = Some k)" for x k
    using judge_all [OF j indexed_acts(2) [OF ix], of x k] by blast
  have tr: "(\<exists>c. c \<in> set (map snd h) \<and> event_id c = y \<and> transports q v anc el (judgments r1) c (event_id e))
      \<longleftrightarrow> (\<exists>c. event_id c = y \<and> admitted q v e \<and> carries q v es c e)"
    if "e \<in> past_events q es" "passes v e \<or> fails v e" for e y
    using transports_iff [OF wn h anc el J that] mem unfolding carries_def by blast
  have any: "(\<exists>c. c \<in> set (map snd h) \<and> transports q v anc el (judgments r1) c (event_id e))
      \<longleftrightarrow> admitted q v e \<and> (\<exists>c. carries q v es c e)" if "e \<in> past_events q es" "passes v e \<or> fails v e" for e
    using tr [OF that] by metis
  have pass: "(\<exists>j. bm_get (judgments r1) x = Some j \<and> outcome j = Pass) \<longleftrightarrow> (\<exists>e. e \<in> past_events q es \<and> event_id e = x \<and> passes v e)"
    and fail: "(\<exists>j. bm_get (judgments r1) x = Some j \<and> counterexamples j \<noteq> []) \<longleftrightarrow> (\<exists>e. e \<in> past_events q es \<and> event_id e = x \<and> fails v e)" for x
    unfolding J mem passes_def fails_def by (auto split: option.splits)
  have "x \<in> positive r2 \<longleftrightarrow> (\<exists>e. event_id e = x \<and> applies q v es e \<and> passes v e)" for x
  proof -
    have "x \<in> positive r1 \<longleftrightarrow> (\<exists>e. e \<in> past_events q es \<and> event_id e = x \<and> admitted q v e \<and> passes v e \<and> about q v e)"
      using one [of x] unfolding mem by blast
    then show ?thesis unfolding two(4) pass applies_def using any by blast
  qed
  moreover have "x \<in> counterevidence r2 \<longleftrightarrow> (\<exists>e. event_id e = x \<and> applies q v es e \<and> fails v e)" for x
  proof -
    have "x \<in> counterevidence r1 \<longleftrightarrow> (\<exists>e. e \<in> past_events q es \<and> event_id e = x \<and> admitted q v e \<and> fails v e \<and> about q v e)"
      using one [of x] unfolding mem by blast
    then show ?thesis unfolding two(5) fail applies_def using any by blast
  qed
  moreover have "bm_get (judgments r2) x = Some j \<longleftrightarrow> (\<exists>e. e \<in> past_events q es \<and> event_id e = x \<and> judgment_of v e = Some j)" for x j
    unfolding two(1) J mem ..
  ultimately show "judged_state q v es r2" unfolding judged_state_def two(6) using tr by blast
qed

lemma derive_selection_result:
  assumes wn: "well_named es" and h: "is_history es (frontier q) h" and anc: "is_ancestry es h anc"
    and r: "r = derive_selection q v h anc"
  shows "history r = h"
    and "x \<in> positive r \<longleftrightarrow> bm_get (retired_by r) x = None \<and> (\<exists>e. event_id e = x \<and> applies q v es e \<and> passes v e)"
    and "x \<in> counterevidence r \<longleftrightarrow> bm_get (retired_by r) x = None \<and> (\<exists>e. event_id e = x \<and> applies q v es e \<and> fails v e)"
    and "bm_get (retired_by r) x \<noteq> None \<longleftrightarrow> (\<exists>act. settles q v es act x)"
    and "conformance r = derive_conformance (positive r) (counterevidence r) (stale r)"
proof -
  obtain el r1 where j: "fold (judge_event q v) (map snd h) ({}, (empty_selection q)\<lparr>history := h\<rparr>) = (el, r1)"
    by (metis prod.exhaust)
  let ?r2 = "fold (reuse_event q v anc el) (map snd h) r1"
  let ?r3 = "fold (resolve_event q v anc) (map snd h) ?r2"
  have r3: "r = retire ?r3" by (simp add: r derive_selection_def Let_def j)
  note two = judged_after_reuse [OF wn h anc j refl]
  note three = resolve_all [OF refl two(2), where acts = "map snd h" and q = q and v = v and anc = anc]
  have eqs: "positive r = positive ?r2 - set (bm_keys (retired_by r))" "retired_by r = retired_by ?r3"
      "counterevidence r = counterevidence ?r2 - set (bm_keys (retired_by r))" "history r = h"
    using three two(3) unfolding r3 by (simp_all add: retire_def Let_def)
  show "history r = h" by (rule eqs)
  show "conformance r = derive_conformance (positive r) (counterevidence r) (stale r)"
    unfolding r3 by (simp add: retire_def Let_def)
  show "x \<in> positive r \<longleftrightarrow> bm_get (retired_by r) x = None \<and> (\<exists>e. event_id e = x \<and> applies q v es e \<and> passes v e)"
    unfolding eqs(1) Diff_iff judged_stateD(1) [OF two(1)] bm.keys_get by auto
  show "x \<in> counterevidence r \<longleftrightarrow> bm_get (retired_by r) x = None \<and> (\<exists>e. event_id e = x \<and> applies q v es e \<and> fails v e)"
    unfolding eqs(3) Diff_iff judged_stateD(2) [OF two(1)] bm.keys_get by auto
  have mem: "a \<in> set (map snd h) \<longleftrightarrow> a \<in> past_events q es" for a
    using h unfolding is_history_def past_events_def by (auto simp: indexed_acts(1) simp del: set_map)
  have "retires q v anc ?r2 act x \<longleftrightarrow> settles q v es act x" if act: "act \<in> past_events q es" for act
  proof -
    have "bm_get h (event_id act) \<noteq> None"
      using act h unfolding past_events_def is_history_def by auto
    then have "set_at anc (event_id act) = {x. (x, event_id act) \<in> (parent_rel es)\<^sup>+}"
      using anc unfolding is_ancestry_def by blast
    note ps = precedes_stands [OF wn two(1) this]
    have one: "grounded ?r2 res \<and> support_precedes q anc ?r2 act (predecessor res)
          \<and> support_precedes q anc ?r2 act (replacement res)
        \<longleftrightarrow> predecessor res \<noteq> replacement res \<and> \<not> blank (reason res)
          \<and> (\<exists>e. event_id e = predecessor res \<and> stands_before q v es act e)
          \<and> (\<exists>e. event_id e = replacement res \<and> stands_before q v es act e)" for res
      unfolding ps [symmetric] grounded_def by blast
    have "retires q v anc ?r2 act x \<longleftrightarrow> (\<exists>res. payload act = Resolution res \<and> predecessor res = x \<and> scoped q res
        \<and> authorize_resolution v q act \<and> grounded ?r2 res \<and> support_precedes q anc ?r2 act (predecessor res)
        \<and> support_precedes q anc ?r2 act (replacement res))"
      unfolding retires_def by auto
    also have "\<dots> \<longleftrightarrow> settles q v es act x" unfolding one settles_def using act by auto
    finally show ?thesis .
  qed
  moreover have "act \<in> past_events q es" if "settles q v es act x" for act using that by (simp add: settles_def)
  ultimately show "bm_get (retired_by r) x \<noteq> None \<longleftrightarrow> (\<exists>act. settles q v es act x)"
    unfolding eqs(2) three(6) mem by blast
qed

lemma select_evidence_result:
  assumes "select_evidence q es v = Ok r"
  obtains h anc where "well_named es" "is_history es (frontier q) h" "is_ancestry es h anc"
    "r = derive_selection q v h anc"
  using assms collected_history unfolding select_evidence_Ok by blast

lemma well_named_mset: "mset es = mset es' \<Longrightarrow> well_named es \<longleftrightarrow> well_named es'"
  unfolding well_named_def list_all_iff
  by (metis mset_eq_imp_distinct_iff mset_eq_setD mset_map)

lemma event_index_mset:
  assumes "mset es = mset es'" and "well_named es"
  shows "event_index es = event_index es'"
proof (rule bm_ext)
  have wn': "well_named es'" using assms well_named_mset by blast
  show "bmap_ok (event_index es)" "bmap_ok (event_index es')"
    using event_index(1) [OF assms(2)] event_index(1) [OF wn'] by (simp_all add: indexed_def)
  fix k
  have "bm_get (event_index es) k = Some e \<longleftrightarrow> bm_get (event_index es') k = Some e" for e
    unfolding event_index(2) [OF assms(2)] event_index(2) [OF wn'] using mset_eq_setD [OF assms(1)] by simp
  then show "bm_get (event_index es) k = bm_get (event_index es') k" by (metis option.exhaust)
qed

lemma select_evidence_mset:
  assumes "mset es = mset es'"
  shows "select_evidence q es v = select_evidence q es' v"
proof (cases "well_named es")
  case True
  then have "well_named es'" "event_index es = event_index es'"
    using well_named_mset [OF assms] event_index_mset [OF assms] by simp_all
  with True show ?thesis
    by (simp add: select_evidence_def index_events_eq flip: event_index_def)
next
  case False
  then have "\<not> well_named es'" using well_named_mset [OF assms] by simp
  with False show ?thesis by (simp add: select_evidence_def index_events_eq)
qed

section \<open>Theorems\<close>

text \<open>
  A selection exists exactly when the query is fully named, the events have distinct non-empty
  ids, every id in the causal past of the frontier belongs to an event the host authenticates, and
  no event of the causal past is its own ancestor.
\<close>

theorem selection_exists_iff:
  "(\<exists>r. select_evidence q es v = Ok r) \<longleftrightarrow>
     valid_query q \<and> well_named es
     \<and> causal_past es (frontier q) \<subseteq> event_id ` {e \<in> set es. verify_event v e}
     \<and> \<not> (\<exists>x. x \<in> causal_past es (frontier q) \<and> (x, x) \<in> (parent_rel es)\<^sup>+)"
  unfolding select_evidence_Ok
  using collect_history_succeeds [of es v "frontier q"] collected_history(2) [of es v "frontier q"] by blast

text \<open>
  Neither the order of the events nor events outside the causal past matter: a selection
  stays what it is when further well-named events are recorded and all are presented in another
  order, and reordering never changes the outcome, errors included.
\<close>

theorem selection_is_causal:
  assumes "mset es' = mset (es @ later)" and "well_named (es @ later)"
    and "select_evidence q es v = Ok r"
  shows "select_evidence q es' v = Ok r
    \<and> (mset es'' = mset es' \<longrightarrow> select_evidence q es'' v = select_evidence q es' v)"
proof -
  have "well_named es" using assms(2) by (simp add: well_named_def)
  then have more: "bm_get (event_index (es @ later)) k = Some e" if "bm_get (event_index es) k = Some e" for k e
    using that by (simp add: event_index(2) assms(2))
  have "select_evidence q (es @ later) v = Ok r"
    using assms(2,3) collect_history_more [OF _ more] unfolding select_evidence_Ok by blast
  then show ?thesis using select_evidence_mset [OF assms(1)] select_evidence_mset by metis
qed

text \<open>
  The evidence of a selection is exact: an id is positive evidence exactly when some passing
  observation with that id applies to the query and nothing retired it; it is counterevidence
  exactly when some failing observation with that id applies and nothing retired it; and it is
  retired exactly when an authorised, scoped and reasoned act of the causal past settles it in
  favour of other evidence, where the act follows both and whatever carried them over.
\<close>

theorem selection_evidence_exact:
  assumes "select_evidence q es v = Ok r"
  shows "(x \<in> positive r \<longleftrightarrow> bm_get (retired_by r) x = None \<and> (\<exists>e. event_id e = x \<and> applies q v es e \<and> passes v e))
    \<and> (x \<in> counterevidence r \<longleftrightarrow> bm_get (retired_by r) x = None \<and> (\<exists>e. event_id e = x \<and> applies q v es e \<and> fails v e))
    \<and> (bm_get (retired_by r) x \<noteq> None \<longleftrightarrow> (\<exists>act. settles q v es act x))
    \<and> (bm_get (history r) x = Some ev \<longleftrightarrow> ev \<in> past_events q es \<and> event_id ev = x)"
proof -
  from assms obtain h anc where h: "well_named es" "is_history es (frontier q) h" "is_ancestry es h anc"
      "r = derive_selection q v h anc" by (rule select_evidence_result)
  note d = derive_selection_result [OF this]
  have "bm_get (history r) x = Some ev \<longleftrightarrow> ev \<in> past_events q es \<and> event_id ev = x"
    using h(2) unfolding d(1) is_history_def past_events_def by auto
  then show ?thesis using d(2,3,4) by blast
qed

text \<open>
  C35. An artifact is reported as satisfying the requirement exactly when some applicable
  observation passes and is not settled, and every applicable observation that fails is settled:
  no failing observation is outvoted by passing ones.
\<close>

theorem satisfied_iff:
  assumes "select_evidence q es v = Ok r"
  shows "conformance r = Satisfied \<longleftrightarrow>
    (\<exists>e. applies q v es e \<and> passes v e \<and> \<not> (\<exists>act. settles q v es act (event_id e)))
    \<and> (\<forall>e. applies q v es e \<longrightarrow> fails v e \<longrightarrow> (\<exists>act. settles q v es act (event_id e)))"
proof -
  from assms obtain h anc where h: "well_named es" "is_history es (frontier q) h" "is_ancestry es h anc"
      "r = derive_selection q v h anc" by (rule select_evidence_result)
  note d = derive_selection_result [OF this]
  have retired: "bm_get (retired_by r) x = None \<longleftrightarrow> \<not> (\<exists>act. settles q v es act x)" for x
    using d(4) [of x] by blast
  have "conformance r = Satisfied \<longleftrightarrow> (\<exists>x. x \<in> positive r) \<and> (\<forall>x. x \<notin> counterevidence r)"
    unfolding d(5) by (auto simp: derive_conformance_def)
  then show ?thesis unfolding d(2) d(3) retired by blast
qed

section \<open>Witnesses\<close>

definition all_verifier :: "nat selection_verifier" where
  "all_verifier = \<lparr>report_checks = sample_verifier, verify_preservation_basis = (\<lambda>_. True), verify_event = (\<lambda>_. True),
     accepts_contract = (\<lambda>_ _. True), authorize_resolution = (\<lambda>_ _. True), accepts_preservation = (\<lambda>_ _. True)\<rparr>"

definition sample_query :: selection_query where
  "sample_query = \<lparr>q_requirement = sample_version, q_artifact = ''a'', q_policy = sample_version,
     time_basis = ''t'', frontier = [''o'']\<rparr>"

definition sample_event :: "nat selection_event" where
  "sample_event = \<lparr>event_id = ''o'', parents = [], payload = Observation sample_contract (sample_report Success 1)\<rparr>"

definition later_event :: "nat selection_event" where
  "later_event = \<lparr>event_id = ''z'', parents = [''o''], payload = Context\<rparr>"

lemmas selection_samples = all_verifier_def sample_query_def sample_event_def later_event_def

lemma sample_valid_query: "valid_query sample_query"
  by (simp add: valid_query_def version_named_def sample_query_def sample_version_def str_simps)

lemma sample_well_named: "well_named [sample_event, later_event]" "well_named [sample_event]"
  by (simp_all add: well_named_def selection_samples str_simps)

lemma sample_past: "parent_rel [sample_event] = {}" "causal_past [sample_event] (frontier sample_query) = {''o''}"
proof -
  show rel: "parent_rel [sample_event] = {}" by (simp add: parent_rel_def sample_event_def)
  show "causal_past [sample_event] (frontier sample_query) = {''o''}"
    unfolding causal_past_def rel by (auto simp: sample_query_def)
qed

lemma sample_selected: "\<exists>r. select_evidence sample_query [sample_event] all_verifier = Ok r"
proof -
  obtain h where "collect_history all_verifier (event_index [sample_event]) [] (rev (frontier sample_query)) = Ok h"
    using collect_history_succeeds [OF sample_well_named(2), of all_verifier "frontier sample_query"]
    unfolding sample_past by (auto simp: selection_samples)
  then show ?thesis
    using collected_history(2) [OF sample_well_named(2), of all_verifier "frontier sample_query" h]
      sample_valid_query sample_well_named(2)
    unfolding sample_past select_evidence_Ok by auto
qed

lemma sample_event_passes: "passes all_verifier sample_event" "\<not> fails all_verifier sample_event"
  using sample_judgment [OF refl]
  by (simp_all add: passes_def fails_def judgment_of_def sample_event_def all_verifier_def)

lemma sample_event_applies: "applies sample_query all_verifier [sample_event] sample_event"
  unfolding applies_def past_events_def sample_past
  by (simp add: admitted_def about_def judgment_of_def selection_samples sample_contract_def sample_subject_def)

lemma sample_unsettled: "\<not> settles sample_query all_verifier [sample_event] act x"
  unfolding settles_def past_events_def by (auto simp: sample_event_def)

theorem selection_is_causal_witness:
  "\<exists>r. select_evidence sample_query [sample_event] all_verifier = Ok r
     \<and> select_evidence sample_query [later_event, sample_event] all_verifier = Ok r"
proof -
  obtain r where r: "select_evidence sample_query [sample_event] all_verifier = Ok r"
    using sample_selected by blast
  have "mset [later_event, sample_event] = mset ([sample_event] @ [later_event])" by simp
  moreover have "well_named ([sample_event] @ [later_event])" using sample_well_named(1) by simp
  ultimately show ?thesis using selection_is_causal [OF _ _ r] r by blast
qed

theorem selection_evidence_exact_witness:
  "\<exists>r. select_evidence sample_query [sample_event] all_verifier = Ok r \<and> ''o'' \<in> positive r"
proof -
  obtain r where r: "select_evidence sample_query [sample_event] all_verifier = Ok r"
    using sample_selected by blast
  have "event_id sample_event = ''o''" by (simp add: sample_event_def)
  then show ?thesis
    using selection_evidence_exact [OF r, of "''o''"] r sample_event_applies sample_event_passes(1) sample_unsettled
    by blast
qed

theorem satisfied_iff_witness:
  "\<exists>r. select_evidence sample_query [sample_event] all_verifier = Ok r \<and> conformance r = Satisfied"
proof -
  obtain r where r: "select_evidence sample_query [sample_event] all_verifier = Ok r"
    using sample_selected by blast
  have "e = sample_event" if "applies sample_query all_verifier [sample_event] e" for e
    using that by (simp add: applies_def past_events_def)
  then show ?thesis
    using satisfied_iff [OF r] r sample_event_applies sample_event_passes sample_unsettled by metis
qed

end
