(* ===== verification/Compatibility.thy ===== *)
theory Compatibility
  imports Ordered_Maps "HOL-Library.Code_Target_Nat"
begin

text \<open>
  Typed norm compatibility, \<^verbatim>\<open>crates/whipplescript-core/src/norm_compatibility.rs\<close>: norms over finite
  domains are grouped by shared variables, and each group is decided by a bounded enumeration. The
  lemmas say that the groups are the connected components, that the enumeration is sound and
  complete within its budget, and that the reported inconsistent core is minimal.

  A panic of the code (indexing a map without the key, or an empty domain) is \<open>None\<close>. The values of
  \<^verbatim>\<open>i64\<close> are integers: the code only compares them, and computes sizes in \<^verbatim>\<open>i128\<close>.
\<close>

section \<open>Data\<close>

datatype domain = Boolean | Enum "string list" | Integer int int

datatype val = ValBool bool | ValInt int | ValText string

datatype comparison = Eq | Ne | Lt | Le | Gt | Ge

datatype operand = Variable string | Literal val

record atom =
  left :: string
  comparison :: comparison
  right :: operand

record typed_norm =
  "variables" :: "(string, domain) bmap"
  atoms :: "atom list"

datatype compat_outcome =
  Compatible "(string, val) bmap"
| Incompatible "string list"
| Undecided message

record component =
  norms :: "string list"
  component_variables :: "string list"
  compat :: compat_outcome

text \<open>The derived order of values: by constructor, then by content.\<close>

fun val_key :: "val \<Rightarrow> nat \<times> bool \<times> int \<times> string" where
  "val_key (ValBool b) = (0, b, 0, [])"
| "val_key (ValInt i) = (1, False, i, [])"
| "val_key (ValText s) = (2, False, 0, s)"

lemma val_key_inj [simp]: "val_key a = val_key b \<longleftrightarrow> a = b"
  by (cases a; cases b) auto

instantiation val :: linorder
begin

definition less_eq_val :: "val \<Rightarrow> val \<Rightarrow> bool" where
  "less_eq_val a b \<longleftrightarrow> val_key a \<le> val_key b"

definition less_val :: "val \<Rightarrow> val \<Rightarrow> bool" where
  "less_val a b \<longleftrightarrow> val_key a < val_key b"

instance
proof
  fix x y z :: val
  show "x < y \<longleftrightarrow> x \<le> y \<and> \<not> y \<le> x" unfolding less_eq_val_def less_val_def by (rule less_le_not_le)
  show "x = y" if "x \<le> y" "y \<le> x" using that antisym unfolding less_eq_val_def by fastforce
  show "x \<le> y \<or> y \<le> x" unfolding less_eq_val_def by (rule linear)
qed (auto simp: less_eq_val_def)

end

section \<open>Domains and atoms\<close>

fun domain_values :: "domain \<Rightarrow> val list" where
  "domain_values Boolean = [ValBool False, ValBool True]"
| "domain_values (Enum vs) = map ValText vs"
| "domain_values (Integer lo hi) = map ValInt [lo..hi]"

fun domain_size :: "domain \<Rightarrow> nat" where
  "domain_size Boolean = 2"
| "domain_size (Enum vs) = length vs"
| "domain_size (Integer lo hi) = nat (max (hi - lo + 1) 0)"

definition compare :: "comparison \<Rightarrow> val \<Rightarrow> val \<Rightarrow> bool" where
  "compare c l r = (case c of Eq \<Rightarrow> l = r | Ne \<Rightarrow> l \<noteq> r | Lt \<Rightarrow> l < r | Le \<Rightarrow> l \<le> r | Gt \<Rightarrow> l > r | Ge \<Rightarrow> l \<ge> r)"

fun operand_value :: "operand \<Rightarrow> (string, val) bmap \<Rightarrow> val option" where
  "operand_value (Variable x) a = bm_get a x"
| "operand_value (Literal v) a = Some v"

text \<open>\<^verbatim>\<open>all\<close> over the atoms stops at the first that does not hold.\<close>

fun holds_atoms :: "atom list \<Rightarrow> (string, val) bmap \<Rightarrow> bool option" where
  "holds_atoms [] a = Some True"
| "holds_atoms (x # xs) a =
     (case bm_get a (left x) of
        None \<Rightarrow> None
      | Some l \<Rightarrow>
          (case operand_value (right x) a of
             None \<Rightarrow> None
           | Some r \<Rightarrow> if compare (comparison x) l r then holds_atoms xs a else Some False))"

definition holds :: "typed_norm \<Rightarrow> (string, val) bmap \<Rightarrow> bool option" where
  "holds norm a = holds_atoms (atoms norm) a"

fun all_hold :: "typed_norm list \<Rightarrow> (string, val) bmap \<Rightarrow> bool option" where
  "all_hold [] a = Some True"
| "all_hold (n # ns) a =
     (case holds n a of None \<Rightarrow> None | Some False \<Rightarrow> Some False | Some True \<Rightarrow> all_hold ns a)"

section \<open>The bounded enumeration\<close>

definition u128_max :: nat where
  "u128_max = 2 ^ 128 - 1"

text \<open>\<^verbatim>\<open>try_fold\<close> with \<^verbatim>\<open>checked_mul\<close>: \<open>None\<close> at the first overflow.\<close>

fun checked_product :: "nat list \<Rightarrow> nat \<Rightarrow> nat option" where
  "checked_product [] s = Some s"
| "checked_product (n # ns) s = (if s * n \<le> u128_max then checked_product ns (s * n) else None)"

definition space :: "(string, domain) bmap \<Rightarrow> nat" where
  "space vars = (case checked_product (map (domain_size \<circ> snd) vars) 1 of Some s \<Rightarrow> s | None \<Rightarrow> u128_max)"

text \<open>The assignment at an index vector; an index outside its domain is a panic.\<close>

fun assignment :: "string list \<Rightarrow> nat list \<Rightarrow> val list list \<Rightarrow> (string, val) bmap option" where
  "assignment (x # xs) (i # is) (vs # vss) =
     (if i < length vs then map_option (\<lambda>a. (x, vs ! i) # a) (assignment xs is vss) else None)"
| "assignment _ _ _ = Some []"

text \<open>
  The inner loop: the next index vector, \<open>None\<close> after the last. The first position moves fastest.
\<close>

fun bump :: "nat list \<Rightarrow> nat list \<Rightarrow> nat list option" where
  "bump (i # is) (n # ns) = (if i + 1 < n then Some ((i + 1) # is) else map_option ((#) 0) (bump is ns))"
| "bump _ _ = None"

text \<open>The number of vectors before an index vector in this order, and of all vectors.\<close>

fun rank :: "nat list \<Rightarrow> nat list \<Rightarrow> nat" where
  "rank (i # is) (n # ns) = min i (max n 1 - 1) + max n 1 * rank is ns"
| "rank _ _ = 0"

fun vectors :: "nat list \<Rightarrow> nat list \<Rightarrow> nat" where
  "vectors (i # is) (n # ns) = max n 1 * vectors is ns"
| "vectors _ _ = 1"

lemma rank_less: "rank is ns < vectors is ns"
proof (induction "is" ns rule: rank.induct)
  case (1 i "is" n ns)
  let ?m = "max n 1"
  have "rank (i # is) (n # ns) \<le> ?m - 1 + ?m * rank is ns" by simp
  also have "\<dots> < ?m + ?m * rank is ns" by simp
  also have "\<dots> \<le> ?m * vectors is ns" using 1 by (metis Suc_leI mult_Suc_right mult_le_mono2)
  finally show ?case by simp
qed simp_all

lemma bump_rank:
  assumes "bump is ns = Some is'"
  shows "rank is' ns = Suc (rank is ns)" and "vectors is' ns = vectors is ns"
proof -
  have "rank is' ns = Suc (rank is ns) \<and> vectors is' ns = vectors is ns"
    using assms
  proof (induction "is" ns arbitrary: is' rule: bump.induct)
    case (1 i "is" n ns)
    show ?case
    proof (cases "i + 1 < n")
      case True
      then show ?thesis using "1.prems" by (auto simp: max_def min_def)
    next
      case False
      then obtain is1 where is1: "bump is ns = Some is1" "is' = 0 # is1" using "1.prems" by auto
      have "min i (max n 1 - 1) = max n 1 - 1" using False by (auto simp: max_def min_def)
      then show ?thesis using "1.IH" [OF False is1(1)] is1(2) by (simp add: max_def)
    qed
  qed simp_all
  then show "rank is' ns = Suc (rank is ns)" and "vectors is' ns = vectors is ns" by simp_all
qed

function enumerate_models ::
  "typed_norm list \<Rightarrow> string list \<Rightarrow> val list list \<Rightarrow> nat list \<Rightarrow> (string, val) bmap option option"
where
  "enumerate_models ns names domains index =
     (case assignment names index domains of
        None \<Rightarrow> None
      | Some a \<Rightarrow>
          (case all_hold ns a of
             None \<Rightarrow> None
           | Some True \<Rightarrow> Some (Some a)
           | Some False \<Rightarrow>
               (case bump index (map length domains) of
                  None \<Rightarrow> Some None
                | Some index' \<Rightarrow> enumerate_models ns names domains index')))"
  by pat_completeness auto
termination
proof (relation "measure (\<lambda>(ns, names, domains, index).
    vectors index (map length domains) - rank index (map length domains))", goal_cases)
  case (2 ns names domains index a b index')
  then show ?case
    using bump_rank [of index "map length domains" index'] rank_less [of index' "map length domains"] by simp
qed simp

declare enumerate_models.simps [simp del]

definition value_lists :: "(string, domain) bmap \<Rightarrow> val list list" where
  "value_lists vars = map (\<lambda>(x, d). domain_values d) vars"

text \<open>\<open>None\<close> is a panic, an error says that the assignments exceed the budget.\<close>

definition model ::
  "typed_norm list \<Rightarrow> (string, domain) bmap \<Rightarrow> nat \<Rightarrow> ((string, val) bmap option, message) result option"
where
  "model ns vars budget =
     (if space vars > budget
      then Some (Err (Format ''{space} assignments exceed the bounded check's budget of {budget}''
             [show_nat (space vars), show_nat budget]))
      else map_option Ok
        (enumerate_models ns (bm_keys vars) (value_lists vars) (replicate (length vars) 0)))"

section \<open>Groups of norms\<close>

definition no_norm :: typed_norm where
  "no_norm = \<lparr>variables = [], atoms = []\<rparr>"

text \<open>\<^verbatim>\<open>norms[id]\<close>, used for ids of the map only.\<close>

definition norm_at :: "(string, typed_norm) bmap \<Rightarrow> string \<Rightarrow> typed_norm" where
  "norm_at ns i = (case bm_get ns i of Some n \<Rightarrow> n | None \<Rightarrow> no_norm)"

definition shared ::
  "(string, typed_norm) bmap \<Rightarrow> (string \<Rightarrow> string \<Rightarrow> bool) \<Rightarrow> string \<Rightarrow> string \<Rightarrow> bool"
where
  "shared ns comparable a b \<longleftrightarrow> comparable a b
     \<and> list_ex (\<lambda>x. bm_get (variables (norm_at ns b)) x \<noteq> None) (bm_keys (variables (norm_at ns a)))"

definition group_of :: "(string, nat) bmap \<Rightarrow> string \<Rightarrow> nat" where
  "group_of groups i = (case bm_get groups i of Some g \<Rightarrow> g | None \<Rightarrow> 0)"

definition relabel :: "nat \<Rightarrow> nat \<Rightarrow> (string, nat) bmap \<Rightarrow> (string, nat) bmap" where
  "relabel from to = map (\<lambda>(i, g). (i, if g = from then to else g))"

definition link ::
  "(string, typed_norm) bmap \<Rightarrow> (string \<Rightarrow> string \<Rightarrow> bool) \<Rightarrow> string \<times> string \<Rightarrow> (string, nat) bmap
     \<Rightarrow> (string, nat) bmap"
where
  "link ns comparable = (\<lambda>(a, b) groups.
     if shared ns comparable a b then relabel (group_of groups b) (group_of groups a) groups else groups)"

text \<open>The pairs the two nested loops visit.\<close>

fun pairs :: "'a list \<Rightarrow> ('a \<times> 'a) list" where
  "pairs [] = []"
| "pairs (a # as) = map (Pair a) as @ pairs as"

definition group_norms ::
  "(string, typed_norm) bmap \<Rightarrow> (string \<Rightarrow> string \<Rightarrow> bool) \<Rightarrow> (string, nat) bmap"
where
  "group_norms ns comparable =
     fold (link ns comparable) (pairs (bm_keys ns)) (zip (bm_keys ns) [0..<length ns])"

definition components :: "(string, nat) bmap \<Rightarrow> (nat, string list) bmap" where
  "components groups =
     fold (\<lambda>(i, root) m. bm_insert root ((case bm_get m root of Some is \<Rightarrow> is | None \<Rightarrow> []) @ [i]) m) groups []"

text \<open>The variables of the members; the last clash is reported.\<close>

definition add_variable ::
  "string \<times> domain \<Rightarrow> (string, domain) bmap \<times> message option \<Rightarrow> (string, domain) bmap \<times> message option"
where
  "add_variable = (\<lambda>(x, d) (vars, clash).
     case bm_get vars x of
       Some existing \<Rightarrow>
         if existing \<noteq> d then (vars, Some (Format ''`{name}` is declared with two different domains'' [x]))
         else (bm_insert x d vars, clash)
     | None \<Rightarrow> (bm_insert x d vars, clash))"

definition collect_variables :: "typed_norm list \<Rightarrow> (string, domain) bmap \<times> message option" where
  "collect_variables ns = fold (\<lambda>n. fold add_variable (variables n)) ns ([], None)"

definition restrict_variables :: "typed_norm list \<Rightarrow> (string, domain) bmap \<Rightarrow> (string, domain) bmap" where
  "restrict_variables ns vars = filter (\<lambda>(x, d). list_ex (\<lambda>n. bm_get (variables n) x \<noteq> None) ns) vars"

text \<open>The deletion loop: drop a norm whenever the rest stays inconsistent.\<close>

function shrink ::
  "(string, typed_norm) bmap \<Rightarrow> (string, domain) bmap \<Rightarrow> nat \<Rightarrow> string list \<Rightarrow> nat \<Rightarrow> string list option"
where
  "shrink ns vars budget core at =
     (if at < length core then
        let rest = take at core @ drop (Suc at) core;
            norms_rest = map (norm_at ns) rest
        in case model norms_rest (restrict_variables norms_rest vars) budget of
             None \<Rightarrow> None
           | Some (Inr None) \<Rightarrow> shrink ns vars budget rest at
           | Some _ \<Rightarrow> shrink ns vars budget core (at + 1)
      else Some core)"
  by pat_completeness auto
termination
  by (relation "measure (\<lambda>(ns, vars, budget, core, at). length core - at)") auto

declare shrink.simps [simp del]

definition decide :: "(string, typed_norm) bmap \<Rightarrow> nat \<Rightarrow> string list \<Rightarrow> component option" where
  "decide ns budget members =
     (let (vars, clash) = collect_variables (map (norm_at ns) members);
          verdict =
            (case clash of
               Some m \<Rightarrow> Some (Undecided m)
             | None \<Rightarrow>
                 (case model (map (norm_at ns) members) vars budget of
                    None \<Rightarrow> None
                  | Some (Inl m) \<Rightarrow> Some (Undecided m)
                  | Some (Inr (Some a)) \<Rightarrow> Some (Compatible a)
                  | Some (Inr None) \<Rightarrow> map_option Incompatible (shrink ns vars budget members 0)))
      in map_option (\<lambda>out. \<lparr>norms = members, component_variables = bm_keys vars, compat = out\<rparr>) verdict)"

definition check_with ::
  "(string, typed_norm) bmap \<Rightarrow> nat \<Rightarrow> (string \<Rightarrow> string \<Rightarrow> bool) \<Rightarrow> component list option"
where
  "check_with ns budget comparable =
     those (map (decide ns budget \<circ> snd) (components (group_norms ns comparable)))"

definition check :: "(string, typed_norm) bmap \<Rightarrow> nat \<Rightarrow> component list option" where
  "check ns budget = check_with ns budget (\<lambda>_ _. True)"

section \<open>The order of the index vectors\<close>

definition valid_index :: "nat list \<Rightarrow> nat list \<Rightarrow> bool" where
  "valid_index is ns \<longleftrightarrow> list_all2 (<) is ns"

lemma bump_valid: "valid_index is ns \<Longrightarrow> bump is ns = Some is' \<Longrightarrow> valid_index is' ns"
proof (induction "is" ns arbitrary: is' rule: bump.induct)
  case (1 i "is" n ns)
  then show ?case by (cases "i + 1 < n") (auto simp: valid_index_def)
qed simp_all

lemma bump_last: "valid_index is ns \<Longrightarrow> bump is ns = None \<Longrightarrow> Suc (rank is ns) = vectors is ns"
proof (induction "is" ns rule: bump.induct)
  case (1 i "is" n ns)
  then have last: "\<not> i + 1 < n" "i < n" and rest: "Suc (rank is ns) = vectors is ns"
    by (auto simp: valid_index_def split: if_splits)
  then have "n = Suc i" by simp
  then show ?case by (simp add: max_def flip: rest)
qed (auto simp: valid_index_def)

lemma vectors_length: "length is = length is' \<Longrightarrow> vectors is ns = vectors is' ns"
proof (induction "is" ns arbitrary: is' rule: vectors.induct)
  case (1 i "is" n ns)
  then obtain j js where "is' = j # js" "length is = length js" by (cases is') auto
  then show ?case using "1.IH" [of js] by simp
qed (use list.exhaust_sel in auto)

lemma rank_inj:
  "valid_index is ns \<Longrightarrow> valid_index is' ns \<Longrightarrow> rank is ns = rank is' ns \<Longrightarrow> is = is'"
proof (induction "is" ns arbitrary: is' rule: rank.induct)
  case (1 i "is" n ns)
  then obtain j js where js: "is' = j # js" "valid_index js ns" "j < n" "i < n" "valid_index is ns"
    by (auto simp: valid_index_def list_all2_Cons2)
  have "max n 1 = n" "min k (n - 1) = k" if "k < n" for k using that by auto
  then have "i + n * rank is ns = j + n * rank js ns" using "1.prems"(3) js by simp
  moreover have "(k + n * m) mod n = k" "(k + n * m) div n = m" if "k < n" for k m using that by simp_all
  ultimately have "i = j \<and> rank is ns = rank js ns" using js(3,4) by metis
  then show ?case using "1.IH" js by simp
qed (auto simp: valid_index_def)

section \<open>The enumeration is sound and complete\<close>

abbreviation chosen :: "string list \<Rightarrow> nat list \<Rightarrow> val list list \<Rightarrow> (string, val) bmap" where
  "chosen names index domains \<equiv> zip names (map2 (!) domains index)"

lemma assignment_chosen:
  "valid_index index (map length domains) \<Longrightarrow> length names = length domains \<Longrightarrow>
     assignment names index domains = Some (chosen names index domains)"
  by (induction names index domains rule: assignment.induct) (auto simp: valid_index_def list_all2_Cons1)

lemma enumerate_models_result:
  assumes "length names = length domains" and "valid_index index (map length domains)"
    and total: "\<forall>idx. valid_index idx (map length domains) \<longrightarrow> all_hold ns (chosen names idx domains) \<noteq> None"
  shows "enumerate_models ns names domains index \<noteq> None"
    and "enumerate_models ns names domains index = Some (Some a) \<Longrightarrow>
      \<exists>idx. valid_index idx (map length domains) \<and> a = chosen names idx domains \<and> all_hold ns a = Some True"
    and "enumerate_models ns names domains index = Some None \<Longrightarrow> valid_index idx (map length domains) \<Longrightarrow>
      rank index (map length domains) \<le> rank idx (map length domains) \<Longrightarrow>
      all_hold ns (chosen names idx domains) = Some False"
proof -
  let ?L = "map length domains"
  have "enumerate_models ns names domains index \<noteq> None
    \<and> (enumerate_models ns names domains index = Some (Some a) \<longrightarrow>
        (\<exists>idx. valid_index idx ?L \<and> a = chosen names idx domains \<and> all_hold ns a = Some True))
    \<and> (enumerate_models ns names domains index = Some None \<longrightarrow> (\<forall>idx. valid_index idx ?L \<longrightarrow>
        rank index ?L \<le> rank idx ?L \<longrightarrow> all_hold ns (chosen names idx domains) = Some False))"
    using assms
  proof (induction ns names domains index rule: enumerate_models.induct)
    case (1 ns names domains index)
    let ?L = "map length domains" and ?a = "chosen names index domains"
    have asg: "assignment names index domains = Some ?a" using assignment_chosen "1.prems"(1,2) by blast
    consider "all_hold ns ?a = Some True" | "all_hold ns ?a = Some False" "bump index ?L = None"
      | index' where "all_hold ns ?a = Some False" "bump index ?L = Some index'"
      using "1.prems"(2,3) by (metis option.exhaust)
    then show ?case
    proof cases
      case 1
      then show ?thesis
        using asg "1.prems"(2) by (auto simp: enumerate_models.simps [of ns names domains index])
    next
      case 2
      have "rank idx ?L = rank index ?L" if "valid_index idx ?L" "rank index ?L \<le> rank idx ?L" for idx
        using that(2) bump_last [OF "1.prems"(2) 2(2)] rank_less [of idx ?L] that(1) "1.prems"(2)
          vectors_length [of idx index ?L] by (simp add: valid_index_def list_all2_lengthD)
      then have "idx = index" if "valid_index idx ?L" "rank index ?L \<le> rank idx ?L" for idx
        using that "1.prems"(2) rank_inj by blast
      then show ?thesis using asg 2 by (auto simp: enumerate_models.simps [of ns names domains index])
    next
      case (3 index')
      have rec: "enumerate_models ns names domains index = enumerate_models ns names domains index'"
        using asg 3 by (simp add: enumerate_models.simps [of ns names domains index])
      note IH = "1.IH" [OF asg 3(1) _ 3(2) "1.prems"(1) bump_valid [OF "1.prems"(2) 3(2)] "1.prems"(3)]
      have "idx = index \<or> rank index' ?L \<le> rank idx ?L" if "valid_index idx ?L" "rank index ?L \<le> rank idx ?L" for idx
        using that "1.prems"(2) bump_rank(1) [OF 3(2)] rank_inj by (metis Suc_leI le_neq_implies_less)
      then show ?thesis unfolding rec using IH 3(1) by auto
    qed
  qed
  then show "enumerate_models ns names domains index \<noteq> None"
    and "enumerate_models ns names domains index = Some (Some a) \<Longrightarrow>
      \<exists>idx. valid_index idx (map length domains) \<and> a = chosen names idx domains \<and> all_hold ns a = Some True"
    and "enumerate_models ns names domains index = Some None \<Longrightarrow> valid_index idx (map length domains) \<Longrightarrow>
      rank index (map length domains) \<le> rank idx (map length domains) \<Longrightarrow>
      all_hold ns (chosen names idx domains) = Some False"
    by blast+
qed

section \<open>What the enumeration decides\<close>

text \<open>
  The meaning of a norm under an assignment of values to all variables, the assignments that
  respect the domains, and what \<^verbatim>\<open>parse\<close> ensures of a norm: its atoms use declared variables and no
  domain is empty.
\<close>

definition operand_meaning :: "(string \<Rightarrow> val) \<Rightarrow> operand \<Rightarrow> val" where
  "operand_meaning env r = (case r of Variable y \<Rightarrow> env y | Literal v \<Rightarrow> v)"

definition satisfies :: "(string \<Rightarrow> val) \<Rightarrow> typed_norm \<Rightarrow> bool" where
  "satisfies env n \<longleftrightarrow>
     list_all (\<lambda>x. compare (comparison x) (env (left x)) (operand_meaning env (right x))) (atoms n)"

definition fits :: "(string \<Rightarrow> val) \<Rightarrow> (string, domain) bmap \<Rightarrow> bool" where
  "fits env vars \<longleftrightarrow> list_all (\<lambda>(x, d). env x \<in> set (domain_values d)) vars"

definition consistent :: "typed_norm list \<Rightarrow> (string, domain) bmap \<Rightarrow> bool" where
  "consistent ns vars \<longleftrightarrow> (\<exists>env. fits env vars \<and> list_all (satisfies env) ns)"

definition uses :: "atom \<Rightarrow> string list" where
  "uses x = left x # (case right x of Variable y \<Rightarrow> [y] | Literal _ \<Rightarrow> [])"

definition declared :: "typed_norm \<Rightarrow> bool" where
  "declared n \<longleftrightarrow> list_all (\<lambda>x. set (uses x) \<subseteq> set (bm_keys (variables n))) (atoms n)"

definition inhabited :: "(string, domain) bmap \<Rightarrow> bool" where
  "inhabited vars \<longleftrightarrow> list_all (\<lambda>(x, d). domain_values d \<noteq> []) vars"

definition well_formed :: "typed_norm \<Rightarrow> bool" where
  "well_formed n \<longleftrightarrow> bmap_ok (variables n) \<and> declared n \<and> inhabited (variables n)"

abbreviation env_of :: "(string, val) bmap \<Rightarrow> string \<Rightarrow> val" where
  "env_of a \<equiv> \<lambda>x. the (bm_get a x)"

lemma satisfies_cong:
  assumes "declared n" and "\<And>x. x \<in> set (bm_keys (variables n)) \<Longrightarrow> env x = env' x"
  shows "satisfies env n \<longleftrightarrow> satisfies env' n"
proof -
  have "compare (comparison x) (env (left x)) (operand_meaning env (right x))
      \<longleftrightarrow> compare (comparison x) (env' (left x)) (operand_meaning env' (right x))" if "x \<in> set (atoms n)" for x
  proof -
    have "set (uses x) \<subseteq> set (bm_keys (variables n))" using assms(1) that by (simp add: declared_def list_all_iff)
    then have "env (left x) = env' (left x)" "operand_meaning env (right x) = operand_meaning env' (right x)"
      using assms(2) by (cases "right x"; simp add: uses_def operand_meaning_def)+
    then show ?thesis by simp
  qed
  then show ?thesis by (simp add: satisfies_def list_all_iff)
qed

lemma holds_atoms_satisfies:
  "list_all (\<lambda>x. set (uses x) \<subseteq> set (bm_keys a)) xs \<Longrightarrow> holds_atoms xs a =
     Some (list_all (\<lambda>x. compare (comparison x) (env_of a (left x)) (operand_meaning (env_of a) (right x))) xs)"
proof (induction xs)
  case (Cons x xs)
  then have "bm_get a (left x) \<noteq> None" "operand_value (right x) a = Some (operand_meaning (env_of a) (right x))"
    using bm.keys_get [of _ a] by (cases "right x"; force simp: uses_def operand_meaning_def)+
  then show ?case using Cons by auto
qed simp

lemma all_hold_satisfies:
  assumes "\<And>n. n \<in> set ns \<Longrightarrow> declared n \<and> set (bm_keys (variables n)) \<subseteq> set (bm_keys a)"
  shows "all_hold ns a = Some (list_all (satisfies (env_of a)) ns)"
  using assms
proof (induction ns)
  case (Cons n ns)
  have "list_all (\<lambda>x. set (uses x) \<subseteq> set (bm_keys a)) (atoms n)"
    using Cons.prems [of n] unfolding declared_def list_all_iff by (meson list.set_intros(1) subset_trans)
  then have "holds n a = Some (satisfies (env_of a) n)"
    by (simp add: holds_def satisfies_def holds_atoms_satisfies)
  then show ?case using Cons by (auto split: option.splits bool.splits)
qed simp

lemma domain_size_values: "domain_size d = length (domain_values d)"
  by (cases d) simp_all

lemma chosen_keys:
  "valid_index idx (map length domains) \<Longrightarrow> length names = length domains \<Longrightarrow> bm_keys (chosen names idx domains) = names"
  by (simp add: valid_index_def list_all2_lengthD)

lemma value_lists [simp]:
  "value_lists [] = []" "value_lists ((x, d) # vars) = domain_values d # value_lists vars"
  "length (value_lists vars) = length vars"
  by (simp_all add: value_lists_def)

text \<open>The assignments of the enumeration are those that respect the domains.\<close>

lemma fits_iff: "fits env vars \<longleftrightarrow> (\<forall>x d. (x, d) \<in> set vars \<longrightarrow> env x \<in> set (domain_values d))"
  by (auto simp: fits_def list_all_iff)

lemma chosen_fits:
  assumes "valid_index idx (map length (value_lists vars))" and "distinct (bm_keys vars)"
  shows "fits (env_of (chosen (bm_keys vars) idx (value_lists vars))) vars"
  using assms
proof (induction vars arbitrary: idx)
  case (Cons xd vars)
  obtain x d where xd: "xd = (x, d)" by (cases xd)
  then obtain j js where js: "idx = j # js" "j < length (domain_values d)"
      "valid_index js (map length (value_lists vars))"
    using Cons.prems(1) by (auto simp: valid_index_def list_all2_Cons2)
  have "fits (env_of (chosen (bm_keys vars) js (value_lists vars))) vars"
    using Cons.IH [OF js(3)] Cons.prems(2) by simp
  moreover have "y \<noteq> x" if "(y, d') \<in> set vars" for y d' using that Cons.prems(2) xd by force
  ultimately show ?case using js xd unfolding fits_iff by fastforce
qed (simp add: fits_def)

lemma fits_chosen:
  assumes "fits env vars"
  shows "\<exists>idx. valid_index idx (map length (value_lists vars))
    \<and> chosen (bm_keys vars) idx (value_lists vars) = map (\<lambda>(x, d). (x, env x)) vars"
  using assms
proof (induction vars)
  case (Cons xd vars)
  obtain x d where xd: "xd = (x, d)" by (cases xd)
  obtain idx where idx: "valid_index idx (map length (value_lists vars))"
      "chosen (bm_keys vars) idx (value_lists vars) = map (\<lambda>(x, d). (x, env x)) vars"
    using Cons by (auto simp: fits_def)
  obtain j where "j < length (domain_values d)" "domain_values d ! j = env x"
    using Cons.prems xd by (auto simp: fits_def in_set_conv_nth)
  then show ?case using idx xd by (intro exI [of _ "j # idx"]) (simp add: valid_index_def)
qed (simp add: valid_index_def)

lemma model_result:
  assumes vars: "bmap_ok vars" "inhabited vars" and budget: "space vars \<le> budget"
    and ns: "\<And>n. n \<in> set ns \<Longrightarrow> declared n \<and> set (bm_keys (variables n)) \<subseteq> set (bm_keys vars)"
  shows "model ns vars budget = Some (Ok (Some a)) \<Longrightarrow>
      bm_keys a = bm_keys vars \<and> fits (env_of a) vars \<and> list_all (satisfies (env_of a)) ns"
    and "\<not> consistent ns vars \<Longrightarrow> model ns vars budget = Some (Ok None)"
    and "consistent ns vars \<Longrightarrow> \<exists>a. model ns vars budget = Some (Ok (Some a))"
proof -
  let ?N = "bm_keys vars" and ?D = "value_lists vars" and ?z = "replicate (length vars) (0::nat)"
  let ?e = "enumerate_models ns ?N ?D ?z"
  have m: "model ns vars budget = map_option Ok ?e" using budget by (simp add: model_def)
  have len: "length ?N = length ?D" by simp
  have z: "valid_index ?z (map length ?D)"
    using vars(2) by (induction vars) (auto simp: valid_index_def inhabited_def)
  have hold: "all_hold ns (chosen ?N idx ?D) = Some (list_all (satisfies (env_of (chosen ?N idx ?D))) ns)"
    if "valid_index idx (map length ?D)" for idx
    using all_hold_satisfies [of ns "chosen ?N idx ?D"] ns chosen_keys [OF that len] by simp
  have tot: "\<forall>idx. valid_index idx (map length ?D) \<longrightarrow> all_hold ns (chosen ?N idx ?D) \<noteq> None" using hold by simp
  note enum = enumerate_models_result [OF len z tot]
  have found: "bm_keys a = ?N \<and> fits (env_of a) vars \<and> list_all (satisfies (env_of a)) ns" if e: "?e = Some (Some a)" for a
  proof -
    obtain idx where idx: "valid_index idx (map length ?D)" "a = chosen ?N idx ?D" "all_hold ns a = Some True"
      using enum(2) [OF e] by blast
    show ?thesis
      using hold [OF idx(1)] idx(2,3) chosen_keys [OF idx(1) len] chosen_fits [OF idx(1) bmap_ok_distinct [OF vars(1)]]
      by simp
  qed
  then show "model ns vars budget = Some (Ok (Some a)) \<Longrightarrow>
      bm_keys a = bm_keys vars \<and> fits (env_of a) vars \<and> list_all (satisfies (env_of a)) ns"
    unfolding m by auto
  have none: "\<not> consistent ns vars" if e: "?e = Some None"
  proof
    assume "consistent ns vars"
    then obtain env where env: "fits env vars" "list_all (satisfies env) ns" by (auto simp: consistent_def)
    from fits_chosen [OF env(1)] obtain idx where idx: "valid_index idx (map length ?D)"
        "chosen ?N idx ?D = map (\<lambda>(x, d). (x, env x)) vars" by blast
    have "rank ?z (map length ?D) = 0" by (induction vars) auto
    then have no: "\<not> list_all (satisfies (env_of (chosen ?N idx ?D))) ns"
      using enum(3) [OF e idx(1)] hold [OF idx(1)] by simp
    have same: "env_of (chosen ?N idx ?D) x = env x" if "x \<in> set ?N" for x
      using that unfolding idx(2) by (induction vars) (auto split: if_splits)
    have "satisfies (env_of (chosen ?N idx ?D)) n \<longleftrightarrow> satisfies env n" if n: "n \<in> set ns" for n
    proof (rule satisfies_cong)
      show "declared n" using ns [OF n] by blast
      show "env_of (chosen ?N idx ?D) x = env x" if "x \<in> set (bm_keys (variables n))" for x
        by (rule same) (use ns [OF n] that in blast)
    qed
    then show False using no env(2) by (auto simp: list_all_iff)
  qed
  have "?e \<noteq> None" by (rule enum(1))
  then show "\<not> consistent ns vars \<Longrightarrow> model ns vars budget = Some (Ok None)"
    and "consistent ns vars \<Longrightarrow> \<exists>a. model ns vars budget = Some (Ok (Some a))"
    unfolding m using none found by (auto simp: consistent_def) (metis option.exhaust)+
qed

section \<open>The budget\<close>

definition assignments :: "(string, domain) bmap \<Rightarrow> nat" where
  "assignments vars = prod_list (map (\<lambda>(x, d). length (domain_values d)) vars)"

lemma checked_product_eq:
  "(\<And>n. n \<in> set ns \<Longrightarrow> 0 < n) \<Longrightarrow> s \<le> u128_max \<Longrightarrow>
     checked_product ns s = (if s * prod_list ns \<le> u128_max then Some (s * prod_list ns) else None)"
proof (induction ns arbitrary: s)
  case (Cons n ns)
  have pos: "0 < prod_list ns" using Cons.prems(1) by (induction ns) auto
  show ?case
  proof (cases "s * n \<le> u128_max")
    case True
    with Cons.IH [OF _ True] Cons.prems(1) show ?thesis by (auto simp: mult.assoc)
  next
    case False
    have "s * n \<le> s * n * prod_list ns" using pos by (cases "prod_list ns") simp_all
    with False have "\<not> s * n * prod_list ns \<le> u128_max" by linarith
    with False show ?thesis by (simp add: mult.assoc)
  qed
qed simp

lemma space_eq:
  assumes "inhabited vars"
  shows "space vars = min (assignments vars) u128_max"
proof -
  let ?ns = "map (domain_size \<circ> snd) vars"
  have "0 < n" if "n \<in> set ?ns" for n
    using that assms by (auto simp: inhabited_def list_all_iff domain_size_values)
  moreover have "prod_list ?ns = assignments vars"
    by (simp add: assignments_def domain_size_values split_def comp_def)
  moreover have "(1::nat) \<le> u128_max" by (simp add: u128_max_def)
  ultimately show ?thesis using checked_product_eq [of ?ns 1] by (auto simp: space_def)
qed

lemma assignments_filter:
  assumes "inhabited vars"
  shows "assignments (filter P vars) \<le> assignments vars"
  using assms
proof (induction vars)
  case (Cons xd vars)
  obtain x d where xd: "xd = (x, d)" by (cases xd)
  then have "assignments (filter P vars) \<le> assignments vars" "1 \<le> length (domain_values d)"
    using Cons by (auto simp: inhabited_def Suc_leI)
  then show ?case using xd by (auto simp: assignments_def intro: mult_le_mono order_trans [of _ "1 * _"])
qed simp

section \<open>The groups are the connected components\<close>

definition conn :: "('a \<times> 'a) set \<Rightarrow> ('a \<times> 'a) set" where
  "conn E = (E \<union> E\<inverse>)\<^sup>*"

lemma conn_sym: "(x, y) \<in> conn E \<longleftrightarrow> (y, x) \<in> conn E"
proof -
  have "sym (conn E)" unfolding conn_def by (intro sym_rtrancl) (auto simp: sym_def)
  then show ?thesis by (auto simp: sym_def)
qed

lemma conn_trans: "(x, y) \<in> conn E \<Longrightarrow> (y, z) \<in> conn E \<Longrightarrow> (x, z) \<in> conn E"
  unfolding conn_def by (rule rtrancl_trans)

lemma conn_refl: "(x, x) \<in> conn E"
  by (simp add: conn_def)

lemma conn_insert:
  "(x, y) \<in> conn (insert (a, b) E) \<longleftrightarrow> (x, y) \<in> conn E
     \<or> (x, a) \<in> conn E \<and> (b, y) \<in> conn E \<or> (x, b) \<in> conn E \<and> (a, y) \<in> conn E"
proof -
  have "insert (a, b) E \<union> (insert (a, b) E)\<inverse> = insert (a, b) (insert (b, a) (E \<union> E\<inverse>))" by auto
  then have "(x, y) \<in> conn (insert (a, b) E) \<longleftrightarrow> (x, y) \<in> (insert (a, b) (insert (b, a) (E \<union> E\<inverse>)))\<^sup>*"
    by (simp add: conn_def)
  also have "\<dots> \<longleftrightarrow> (x, y) \<in> conn E
     \<or> (x, a) \<in> conn E \<and> (b, y) \<in> conn E \<or> (x, b) \<in> conn E \<and> (a, y) \<in> conn E"
    unfolding rtrancl_insert conn_def [symmetric] using conn_trans [of x a E y] conn_trans [of x b E y]
    by (auto simp: conn_refl)
  finally show ?thesis .
qed

text \<open>Labels that agree exactly on connected ids.\<close>

definition labelled :: "string list \<Rightarrow> (string \<times> string) set \<Rightarrow> (string, nat) bmap \<Rightarrow> bool" where
  "labelled ids E groups \<longleftrightarrow> bm_keys groups = ids
     \<and> (\<forall>x y. x \<in> set ids \<longrightarrow> y \<in> set ids \<longrightarrow> group_of groups x = group_of groups y \<longleftrightarrow> (x, y) \<in> conn E)"

lemma group_of_relabel:
  "x \<in> set (bm_keys groups) \<Longrightarrow>
     group_of (relabel from to groups) x = (if group_of groups x = from then to else group_of groups x)"
  using bm.keys_get [of x groups] by (auto simp: relabel_def group_of_def map_of_map simp del: set_map)

lemma relabel_labelled:
  assumes "labelled ids E groups" and "a \<in> set ids" and "b \<in> set ids"
  shows "labelled ids (insert (a, b) E) (relabel (group_of groups b) (group_of groups a) groups)"
proof -
  let ?g = "group_of groups" and ?g' = "group_of (relabel (group_of groups b) (group_of groups a) groups)"
  have keys: "bm_keys groups = ids" and eq: "\<And>x y. x \<in> set ids \<Longrightarrow> y \<in> set ids \<Longrightarrow> ?g x = ?g y \<longleftrightarrow> (x, y) \<in> conn E"
    using assms(1) by (auto simp: labelled_def)
  have new: "?g' x = (if ?g x = ?g b then ?g a else ?g x)" if "x \<in> set ids" for x
    using that by (intro group_of_relabel) (simp only: keys)
  have "?g' x = ?g' y \<longleftrightarrow> (x, y) \<in> conn (insert (a, b) E)" if x: "x \<in> set ids" and y: "y \<in> set ids" for x y
  proof -
    have "?g' x = ?g' y \<longleftrightarrow> ?g x = ?g y \<or> ?g x = ?g a \<and> ?g b = ?g y \<or> ?g x = ?g b \<and> ?g a = ?g y"
      unfolding new [OF x] new [OF y] by auto
    also have "\<dots> \<longleftrightarrow> (x, y) \<in> conn (insert (a, b) E)"
      unfolding conn_insert using eq x y assms(2,3) by auto
    finally show ?thesis .
  qed
  moreover have "bm_keys (relabel f t groups) = ids" for f t
    using keys by (simp add: relabel_def case_prod_unfold comp_def)
  ultimately show ?thesis by (simp add: labelled_def)
qed

lemma link_labelled:
  assumes "set ps \<subseteq> set ids \<times> set ids" and "labelled ids E groups"
  shows "labelled ids (E \<union> {(a, b) \<in> set ps. shared ns comparable a b}) (fold (link ns comparable) ps groups)"
  using assms
proof (induction ps arbitrary: E groups)
  case (Cons p ps)
  obtain a b where p: "p = (a, b)" by (cases p)
  show ?case
  proof (cases "shared ns comparable a b")
    case True
    have "labelled ids (insert (a, b) E) (link ns comparable p groups)"
      using relabel_labelled [OF Cons.prems(2), of a b] Cons.prems(1) True by (simp add: p link_def)
    moreover have "insert (a, b) E \<union> {(a, b) \<in> set ps. shared ns comparable a b}
        = E \<union> {(a, b) \<in> set (p # ps). shared ns comparable a b}" using True by (auto simp: p)
    ultimately show ?thesis using Cons.IH [of "insert (a, b) E"] Cons.prems(1) by simp
  next
    case False
    then have "link ns comparable p groups = groups" by (simp add: p link_def)
    moreover have "{(a, b) \<in> set (p # ps). shared ns comparable a b} = {(a, b) \<in> set ps. shared ns comparable a b}"
      using False by (auto simp: p)
    ultimately show ?thesis using Cons.IH [OF _ Cons.prems(2)] Cons.prems(1) by simp
  qed
qed simp

text \<open>Two different norms overlap when they are comparable and share a variable.\<close>

definition overlaps :: "(string, typed_norm) bmap \<Rightarrow> (string \<Rightarrow> string \<Rightarrow> bool) \<Rightarrow> (string \<times> string) set" where
  "overlaps ns comparable =
     {(a, b). a \<in> set (bm_keys ns) \<and> b \<in> set (bm_keys ns) \<and> a < b \<and> shared ns comparable a b}"

lemma set_pairs: "sorted_wrt (<) xs \<Longrightarrow> set (pairs xs) = {(a :: 'a :: linorder, b). a \<in> set xs \<and> b \<in> set xs \<and> a < b}"
  by (induction xs) (auto dest: less_asym)

lemma group_norms_labelled:
  assumes "bmap_ok ns"
  shows "labelled (bm_keys ns) (overlaps ns comparable) (group_norms ns comparable)"
proof -
  let ?ids = "bm_keys ns" and ?g = "zip (bm_keys ns) [0..<length ns]"
  have dist: "distinct ?ids" using assms by (rule bmap_ok_distinct)
  have "group_of ?g x = group_of ?g y \<longleftrightarrow> x = y" if "x \<in> set ?ids" "y \<in> set ?ids" for x y
  proof -
    have "group_of ?g (?ids ! i) = i" if "i < length ns" for i
      using that dist map_of_zip_nth [of ?ids "[0..<length ns]" i] by (simp add: group_of_def)
    then show ?thesis using that by (metis in_set_conv_nth length_map)
  qed
  then have "labelled ?ids {} ?g" by (simp add: labelled_def conn_def)
  moreover have "set (pairs ?ids) = {(a, b). a \<in> set ?ids \<and> b \<in> set ?ids \<and> a < b}"
    using assms unfolding bmap_ok_def by (rule set_pairs)
  moreover from this have "{(a, b) \<in> set (pairs ?ids). shared ns comparable a b} = overlaps ns comparable"
    by (auto simp: overlaps_def)
  ultimately show ?thesis
    using link_labelled [of "pairs ?ids" ?ids "{}" ?g ns comparable] by (auto simp: group_norms_def)
qed

definition members :: "(string, nat) bmap \<Rightarrow> nat \<Rightarrow> string list" where
  "members groups root = map fst (filter (\<lambda>(i, g). g = root) groups)"

lemma components_get:
  "bmap_ok (components groups) \<and>
   bm_get (components groups) root = (if members groups root = [] then None else Some (members groups root))"
proof (induction groups rule: rev_induct)
  case (snoc ig groups)
  obtain i g where ig: "ig = (i, g)" by (cases ig)
  have "members (groups @ [ig]) r = members groups r @ (if g = r then [i] else [])" for r
    by (simp add: members_def ig)
  then show ?case
    using snoc by (auto simp: components_def ig)
qed (simp add: components_def members_def)

lemma component_lists:
  "set (map snd (components groups)) = {members groups root | root. members groups root \<noteq> []}"
proof -
  have ok: "bmap_ok (components groups)" using components_get by blast
  have "ms \<in> set (map snd (components groups)) \<longleftrightarrow> (\<exists>root. bm_get (components groups) root = Some ms)" for ms
    unfolding bm_get_iff [OF ok] by (auto simp: image_iff) force
  moreover have "bm_get (components groups) root = Some ms \<longleftrightarrow> members groups root = ms \<and> ms \<noteq> []" for root ms
    using components_get [of groups root] by auto
  ultimately show ?thesis by (intro set_eqI) (simp only: mem_Collect_eq, blast)
qed

lemma those_Some: "those (map f xs) = Some ys \<Longrightarrow> y \<in> set ys \<longleftrightarrow> (\<exists>x. x \<in> set xs \<and> f x = Some y)"
proof (induction xs arbitrary: ys)
  case (Cons x xs)
  then show ?case by (cases "f x") (auto split: option.splits)
qed simp

lemma those_total: "(\<And>x. x \<in> set xs \<Longrightarrow> f x \<noteq> None) \<Longrightarrow> \<exists>ys. those (map f xs) = Some ys"
  by (induction xs) (auto split: option.splits)

lemma decide_members: "decide ns budget ms = Some c \<Longrightarrow> norms c = ms"
  by (auto simp: decide_def Let_def split: prod.splits)

lemma member_group:
  assumes "labelled ids E groups" and "distinct ids" and "a \<in> set (members groups root)"
  shows "b \<in> set (members groups root) \<longleftrightarrow> b \<in> set ids \<and> (a, b) \<in> conn E"
proof -
  have keys: "bm_keys groups = ids" using assms(1) by (simp add: labelled_def)
  have mem: "x \<in> set (members groups root) \<longleftrightarrow> x \<in> set ids \<and> group_of groups x = root" for x
  proof -
    have "(x, root) \<in> set groups \<longleftrightarrow> bm_get groups x = Some root"
      using assms(2) keys by simp
    moreover have "x \<in> set ids \<longleftrightarrow> bm_get groups x \<noteq> None" using bm.keys_get [of x groups] keys by simp
    moreover have "x \<in> set (members groups root) \<longleftrightarrow> (x, root) \<in> set groups"
      by (auto simp: members_def image_iff)
    ultimately show ?thesis by (cases "bm_get groups x") (simp_all add: group_of_def)
  qed
  have same: "group_of groups x = group_of groups y \<longleftrightarrow> (x, y) \<in> conn E" if "x \<in> set ids" "y \<in> set ids" for x y
    using assms(1) that by (simp add: labelled_def)
  show ?thesis using assms(3) same [of a b] unfolding mem by auto
qed

section \<open>Variables of a group\<close>

lemma collect_variables_flat:
  "collect_variables ns = fold add_variable (concat (map variables ns)) ([], None)"
proof -
  have "fold (\<lambda>n. fold add_variable (variables n)) ns acc = fold add_variable (concat (map variables ns)) acc" for acc
    by (induction ns arbitrary: acc) simp_all
  then show ?thesis by (simp add: collect_variables_def)
qed

text \<open>Every declaration of a list is the first of its variable.\<close>

definition agree :: "('k \<times> 'v) list \<Rightarrow> bool" where
  "agree L \<longleftrightarrow> (\<forall>x d. (x, d) \<in> set L \<longrightarrow> map_of L x = Some d)"

lemma map_of_snoc: "map_of (L @ [(x, d)]) y = (if map_of L y = None \<and> y = x then Some d else map_of L y)"
  by (cases "map_of L y") (simp_all add: map_add_def)

lemma agree_snoc: "agree (L @ [(x, d)]) \<longleftrightarrow> agree L \<and> (map_of L x = None \<or> map_of L x = Some d)"
proof -
  have known: "map_of (L @ [(x, d)]) y = map_of L y" if "(y, e) \<in> set L" for y e
    using weak_map_of_SomeI [OF that] by (auto simp: map_of_snoc)
  have "agree (L @ [(x, d)]) \<longleftrightarrow> agree L \<and> map_of (L @ [(x, d)]) x = Some d"
    unfolding agree_def using known by simp metis
  then show ?thesis unfolding map_of_snoc by auto
qed

lemma add_variables_result:
  assumes "fold add_variable L ([], None) = (vars, clash)"
  shows "bmap_ok vars" and "bm_get vars x = map_of L x" and "clash = None \<longleftrightarrow> agree L"
proof -
  have "bmap_ok vars \<and> (\<forall>x. bm_get vars x = map_of L x) \<and> (clash = None \<longleftrightarrow> agree L)"
    using assms
  proof (induction L arbitrary: vars clash rule: rev_induct)
    case Nil
    then show ?case by (simp add: agree_def)
  next
    case (snoc e L)
    obtain vars1 clash1 where pre: "fold add_variable L ([], None) = (vars1, clash1)" by (metis prod.exhaust)
    obtain x d where e: "e = (x, d)" by (cases e)
    note IH = snoc.IH [OF pre]
    have step: "add_variable (x, d) (vars1, clash1) = (vars, clash)" using snoc.prems pre e by simp
    consider "map_of L x = None" | "map_of L x = Some d" | d' where "map_of L x = Some d'" "d' \<noteq> d"
      by (metis option.exhaust)
    then show ?case
      unfolding e agree_snoc map_of_snoc using step IH
      by cases (auto simp: add_variable_def)
  qed
  then show "bmap_ok vars" and "bm_get vars x = map_of L x" and "clash = None \<longleftrightarrow> agree L" by blast+
qed

text \<open>Without a clash the collected variables hold every declaration of every norm.\<close>

lemma collect_variables_result:
  assumes "collect_variables ns = (vars, clash)"
  shows "bmap_ok vars"
    and "clash = None \<longleftrightarrow> agree (concat (map variables ns))"
    and "bm_get vars x \<noteq> None \<longleftrightarrow> (\<exists>n. n \<in> set ns \<and> x \<in> set (bm_keys (variables n)))"
    and "(x, d) \<in> set vars \<Longrightarrow> \<exists>n. n \<in> set ns \<and> (x, d) \<in> set (variables n)"
    and "clash = None \<Longrightarrow> (x, d) \<in> set vars \<longleftrightarrow> (\<exists>n. n \<in> set ns \<and> (x, d) \<in> set (variables n))"
proof -
  let ?L = "concat (map variables ns)"
  note r = add_variables_result [OF assms [unfolded collect_variables_flat]]
  show ok: "bmap_ok vars" and clash: "clash = None \<longleftrightarrow> agree ?L" by (rule r)+
  have L: "(x, d) \<in> set ?L \<longleftrightarrow> (\<exists>n. n \<in> set ns \<and> (x, d) \<in> set (variables n))" for x d by auto
  have in_vars: "(x, d) \<in> set vars \<longleftrightarrow> map_of ?L x = Some d" for x d
    unfolding bm_get_iff [OF ok, symmetric] r(2) ..
  show "bm_get vars x \<noteq> None \<longleftrightarrow> (\<exists>n. n \<in> set ns \<and> x \<in> set (bm_keys (variables n)))"
    unfolding r(2) map_of_eq_None_iff by force
  show "\<exists>n. n \<in> set ns \<and> (x, d) \<in> set (variables n)" if "(x, d) \<in> set vars"
    using that map_of_SomeD unfolding in_vars L [symmetric] by fast
  then show "(x, d) \<in> set vars \<longleftrightarrow> (\<exists>n. n \<in> set ns \<and> (x, d) \<in> set (variables n))" if "clash = None"
    using that unfolding clash in_vars agree_def L [symmetric] by (metis map_of_SomeD)
qed

section \<open>Verdicts\<close>

text \<open>One assignment respects the domains of all listed norms and satisfies them.\<close>

definition jointly :: "(string, typed_norm) bmap \<Rightarrow> string list \<Rightarrow> bool" where
  "jointly ns core \<longleftrightarrow>
     (\<exists>env. list_all (\<lambda>m. fits env (variables (norm_at ns m)) \<and> satisfies env (norm_at ns m)) core)"

definition norms_ok :: "(string, typed_norm) bmap \<Rightarrow> bool" where
  "norms_ok ns \<longleftrightarrow> bmap_ok ns \<and> list_all (well_formed \<circ> snd) ns"

lemma norm_at_well_formed:
  assumes "norms_ok ns"
  shows "well_formed (norm_at ns m)"
proof (cases "bm_get ns m")
  case None
  then show ?thesis by (simp add: norm_at_def no_norm_def well_formed_def declared_def inhabited_def)
next
  case (Some n)
  then have "(m, n) \<in> set ns" by (rule map_of_SomeD)
  then show ?thesis using assms Some by (auto simp: norms_ok_def list_all_iff norm_at_def)
qed

lemma jointly_mono: "jointly ns core \<Longrightarrow> set core' \<subseteq> set core \<Longrightarrow> jointly ns core'"
  unfolding jointly_def list_all_iff by blast

text \<open>The variables of a group whose declarations agree.\<close>

definition agreed :: "(string, typed_norm) bmap \<Rightarrow> string list \<Rightarrow> (string, domain) bmap \<Rightarrow> bool" where
  "agreed ns ms vars \<longleftrightarrow> norms_ok ns \<and> collect_variables (map (norm_at ns) ms) = (vars, None)"

lemma agreed_vars:
  assumes "agreed ns ms vars"
  shows "bmap_ok vars" and "inhabited vars"
    and "m \<in> set ms \<Longrightarrow> (x, d) \<in> set (variables (norm_at ns m)) \<Longrightarrow> (x, d) \<in> set vars"
proof -
  note c = collect_variables_result [of "map (norm_at ns) ms" vars None]
  have col: "collect_variables (map (norm_at ns) ms) = (vars, None)" using assms by (simp add: agreed_def)
  show "bmap_ok vars" by (rule c(1) [OF col])
  show "(x, d) \<in> set vars" if "m \<in> set ms" "(x, d) \<in> set (variables (norm_at ns m))"
    using c(5) [OF col refl, of x d] that by auto
  have "domain_values d \<noteq> []" if "(x, d) \<in> set vars" for x d
    using c(4) [OF col that] assms norm_at_well_formed [of ns]
    by (auto simp: agreed_def well_formed_def inhabited_def list_all_iff)
  then show "inhabited vars" by (auto simp: inhabited_def list_all_iff)
qed

lemma restrict_fits:
  assumes a: "agreed ns ms vars" and sub: "set core \<subseteq> set ms"
  shows "fits env (restrict_variables (map (norm_at ns) core) vars)
    \<longleftrightarrow> list_all (\<lambda>m. fits env (variables (norm_at ns m))) core"
proof -
  have "(x, d) \<in> set (restrict_variables (map (norm_at ns) core) vars)
      \<longleftrightarrow> (\<exists>m. m \<in> set core \<and> (x, d) \<in> set (variables (norm_at ns m)))" for x d
  proof
    assume "(x, d) \<in> set (restrict_variables (map (norm_at ns) core) vars)"
    then obtain m d' where m: "m \<in> set core" "(x, d') \<in> set (variables (norm_at ns m))" "(x, d) \<in> set vars"
      by (auto simp: restrict_variables_def list_ex_iff dest: map_of_SomeD)
    then have "(x, d') \<in> set vars" using agreed_vars(3) [OF a] sub by blast
    then have "d' = d" using m(3) bm_get_iff [OF agreed_vars(1) [OF a]] by (metis option.inject)
    then show "\<exists>m. m \<in> set core \<and> (x, d) \<in> set (variables (norm_at ns m))" using m by blast
  next
    assume "\<exists>m. m \<in> set core \<and> (x, d) \<in> set (variables (norm_at ns m))"
    then obtain m where m: "m \<in> set core" "(x, d) \<in> set (variables (norm_at ns m))" by blast
    then have "(x, d) \<in> set vars" using agreed_vars(3) [OF a] sub by blast
    then show "(x, d) \<in> set (restrict_variables (map (norm_at ns) core) vars)"
      using m weak_map_of_SomeI [OF m(2)] by (auto simp: restrict_variables_def list_ex_iff)
  qed
  then show ?thesis unfolding fits_iff list_all_iff by blast
qed

lemma restrict_all:
  assumes "agreed ns ms vars"
  shows "restrict_variables (map (norm_at ns) ms) vars = vars"
proof -
  have col: "collect_variables (map (norm_at ns) ms) = (vars, None)" using assms by (simp add: agreed_def)
  have "list_ex (\<lambda>n. bm_get (variables n) x \<noteq> None) (map (norm_at ns) ms)" if xd: "(x, d) \<in> set vars" for x d
  proof -
    obtain m where "m \<in> set ms" "(x, d) \<in> set (variables (norm_at ns m))"
      using collect_variables_result(4) [OF col xd] by auto
    then show ?thesis using weak_map_of_SomeI [of x d] by (auto simp: list_ex_iff intro: bexI [of _ m])
  qed
  then show ?thesis by (auto simp: restrict_variables_def filter_id_conv)
qed

text \<open>Within the budget, the model of a subset of the group decides it.\<close>

lemma group_model:
  assumes a: "agreed ns ms vars" and sub: "set core \<subseteq> set ms" and budget: "space vars \<le> budget"
    and vars': "vars' = restrict_variables (map (norm_at ns) core) vars"
  shows "model (map (norm_at ns) core) vars' budget = Some (Ok (Some a)) \<Longrightarrow>
      list_all (\<lambda>m. fits (env_of a) (variables (norm_at ns m)) \<and> satisfies (env_of a) (norm_at ns m)) core"
    and "\<not> jointly ns core \<Longrightarrow> model (map (norm_at ns) core) vars' budget = Some (Ok None)"
    and "jointly ns core \<Longrightarrow> \<exists>a. model (map (norm_at ns) core) vars' budget = Some (Ok (Some a))"
proof -
  have ok: "bmap_ok vars'" "inhabited vars'"
    using agreed_vars(1,2) [OF a] unfolding vars' restrict_variables_def bmap_ok_def inhabited_def list_all_iff
    by (auto intro: sorted_wrt_filter simp: sorted_wrt_map)
  have "space vars' \<le> budget"
  proof -
    have "assignments vars' \<le> assignments vars"
      unfolding vars' restrict_variables_def by (rule assignments_filter [OF agreed_vars(2) [OF a]])
    then show ?thesis
      using budget unfolding space_eq [OF ok(2)] space_eq [OF agreed_vars(2) [OF a]] by linarith
  qed
  moreover have "declared n \<and> set (bm_keys (variables n)) \<subseteq> set (bm_keys vars')" if "n \<in> set (map (norm_at ns) core)" for n
  proof -
    obtain m where m: "m \<in> set core" "n = norm_at ns m" using \<open>n \<in> set (map (norm_at ns) core)\<close> by auto
    have "declared n" using a norm_at_well_formed by (simp add: m(2) agreed_def well_formed_def)
    moreover have "(x, d) \<in> set vars'" if "(x, d) \<in> set (variables n)" for x d
      using that m agreed_vars(3) [OF a] sub weak_map_of_SomeI [OF that]
      by (auto simp: vars' restrict_variables_def list_ex_iff)
    ultimately show ?thesis by force
  qed
  ultimately have r: "model (map (norm_at ns) core) vars' budget = Some (Ok (Some a)) \<Longrightarrow>
        fits (env_of a) vars' \<and> list_all (satisfies (env_of a)) (map (norm_at ns) core)"
      "\<not> consistent (map (norm_at ns) core) vars' \<Longrightarrow> model (map (norm_at ns) core) vars' budget = Some (Ok None)"
      "consistent (map (norm_at ns) core) vars' \<Longrightarrow> \<exists>a. model (map (norm_at ns) core) vars' budget = Some (Ok (Some a))" for a
    using model_result [OF ok] by blast+
  have "consistent (map (norm_at ns) core) vars' \<longleftrightarrow> jointly ns core"
    unfolding consistent_def jointly_def vars' restrict_fits [OF a sub] by (auto simp: list_all_iff)
  with r(2,3) show "\<not> jointly ns core \<Longrightarrow> model (map (norm_at ns) core) vars' budget = Some (Ok None)"
    and "jointly ns core \<Longrightarrow> \<exists>a. model (map (norm_at ns) core) vars' budget = Some (Ok (Some a))" by blast+
  show "list_all (\<lambda>m. fits (env_of a) (variables (norm_at ns m)) \<and> satisfies (env_of a) (norm_at ns m)) core"
    if "model (map (norm_at ns) core) vars' budget = Some (Ok (Some a))"
    using r(1) [OF that] unfolding vars' restrict_fits [OF a sub] by (auto simp: list_all_iff)
qed

abbreviation without :: "nat \<Rightarrow> 'a list \<Rightarrow> 'a list" where
  "without i xs \<equiv> take i xs @ drop (Suc i) xs"

lemma without_without:
  assumes "i < j" and "j < length xs"
  shows "set (without i (without j xs)) \<subseteq> set (without i xs)"
proof -
  have "drop (Suc i) (without j xs) = drop (Suc i) (take j xs) @ drop (Suc j) xs"
    using assms by simp
  moreover have "set (drop (Suc i) (take j xs)) \<subseteq> set (drop (Suc i) xs)"
    by (metis drop_take set_take_subset)
  moreover have "set (drop (Suc j) xs) \<subseteq> set (drop (Suc i) xs)" using assms(1) by (simp add: set_drop_subset_set_drop)
  ultimately show ?thesis using assms by auto
qed

text \<open>The deletion loop ends with an inconsistent core that loses its inconsistency with any member.\<close>

lemma shrink_result:
  assumes a: "agreed ns ms vars" and budget: "space vars \<le> budget"
    and "set core \<subseteq> set ms" and "\<not> jointly ns core" and "\<forall>i<at. jointly ns (without i core)"
  shows "\<exists>core'. shrink ns vars budget core at = Some core' \<and> set core' \<subseteq> set core \<and> \<not> jointly ns core'
    \<and> (\<forall>i<length core'. jointly ns (without i core'))"
  using assms(3-)
proof (induction "length core - at" arbitrary: core at rule: less_induct)
  case less
  show ?case
  proof (cases "at < length core")
    case False
    then show ?thesis using less.prems by (auto simp: shrink.simps [of ns vars budget core at])
  next
    case True
    let ?rest = "without at core"
    have sub: "set ?rest \<subseteq> set core" using set_take_subset set_drop_subset by fastforce
    note m = group_model [OF a subset_trans [OF sub less.prems(1)] budget refl]
    show ?thesis
    proof (cases "jointly ns ?rest")
      case consistent: True
      have step: "shrink ns vars budget core at = shrink ns vars budget core (at + 1)"
        using m(3) [OF consistent] True by (auto simp: shrink.simps [of ns vars budget core at] Let_def)
      have "\<forall>i<at + 1. jointly ns (without i core)"
        using less.prems(3) consistent by (auto simp: less_Suc_eq)
      from less.hyps [OF _ less.prems(1,2) this] True show ?thesis unfolding step by simp
    next
      case inconsistent: False
      have step: "shrink ns vars budget core at = shrink ns vars budget ?rest at"
        using m(2) [OF inconsistent] True by (simp add: shrink.simps [of ns vars budget core at] Let_def)
      have "\<forall>i<at. jointly ns (without i ?rest)"
        using less.prems(3) jointly_mono without_without [OF _ True] by blast
      moreover have "length ?rest - at < length core - at" using True by simp
      ultimately obtain core' where "shrink ns vars budget ?rest at = Some core'" "set core' \<subseteq> set ?rest"
          "\<not> jointly ns core'" "\<forall>i<length core'. jointly ns (without i core')"
        using less.hyps [OF _ subset_trans [OF sub less.prems(1)] inconsistent] by blast
      then show ?thesis unfolding step using subset_trans [OF _ sub] by blast
    qed
  qed
qed

text \<open>What a verdict on a group means.\<close>

definition verdict_ok :: "(string, typed_norm) bmap \<Rightarrow> nat \<Rightarrow> string list \<Rightarrow> compat_outcome \<Rightarrow> bool" where
  "verdict_ok ns budget ms v = (case v of
     Compatible a \<Rightarrow>
       list_all (\<lambda>m. fits (env_of a) (variables (norm_at ns m)) \<and> satisfies (env_of a) (norm_at ns m)) ms
   | Incompatible core \<Rightarrow> set core \<subseteq> set ms \<and> \<not> jointly ns core
       \<and> list_all (\<lambda>i. jointly ns (without i core)) [0..<length core]
   | Undecided _ \<Rightarrow> \<not> agree (concat (map (variables \<circ> norm_at ns) ms))
       \<or> budget < min (assignments (fst (collect_variables (map (norm_at ns) ms)))) u128_max)"

lemma decide_result:
  assumes "norms_ok ns"
  shows "\<exists>c. decide ns budget ms = Some c \<and> verdict_ok ns budget ms (compat c)"
proof -
  obtain vars clash where col: "collect_variables (map (norm_at ns) ms) = (vars, clash)" by (metis prod.exhaust)
  show ?thesis
  proof (cases clash)
    case (Some m)
    then have "\<not> agree (concat (map variables (map (norm_at ns) ms)))"
      using collect_variables_result(2) [OF col] by simp
    then show ?thesis using Some by (simp add: decide_def col verdict_ok_def comp_def)
  next
    case None
    then have a: "agreed ns ms vars" using assms col by (simp add: agreed_def)
    show ?thesis
    proof (cases "space vars \<le> budget")
      case False
      then have "budget < min (assignments vars) u128_max" using space_eq [OF agreed_vars(2) [OF a]] by linarith
      then show ?thesis using False None by (simp add: decide_def col model_def verdict_ok_def)
    next
      case budget: True
      note m = group_model [OF a subset_refl budget restrict_all [OF a, symmetric]]
      show ?thesis
      proof (cases "jointly ns ms")
        case True
        from m(3) [OF this] obtain w where w: "model (map (norm_at ns) ms) vars budget = Some (Ok (Some w))" by blast
        then show ?thesis using m(1) [OF w] None by (simp add: decide_def col verdict_ok_def)
      next
        case False
        from shrink_result [OF a budget subset_refl False, of 0] obtain core where
          "shrink ns vars budget ms 0 = Some core" "set core \<subseteq> set ms" "\<not> jointly ns core"
          "\<forall>i<length core. jointly ns (without i core)" by auto
        then show ?thesis
          using m(2) [OF False] None by (simp add: decide_def col verdict_ok_def list_all_iff)
      qed
    qed
  qed
qed

section \<open>Theorems\<close>

lemma check_with_component:
  assumes "norms_ok ns" and "check_with ns budget comparable = Some comps" and "c \<in> set comps"
  shows "verdict_ok ns budget (norms c) (compat c)" and "decide ns budget (norms c) = Some c"
    and "\<exists>root. norms c = members (group_norms ns comparable) root"
proof -
  from assms(3) obtain p where p: "p \<in> set (components (group_norms ns comparable))" "decide ns budget (snd p) = Some c"
    using those_Some [OF assms(2) [unfolded check_with_def]] by auto
  have eq: "norms c = snd p" by (rule decide_members [OF p(2)])
  show "decide ns budget (norms c) = Some c" unfolding eq by (rule p(2))
  show "verdict_ok ns budget (norms c) (compat c)"
    using decide_result [OF assms(1), of budget "snd p"] p(2) unfolding eq by simp
  have "snd p \<in> set (map snd (components (group_norms ns comparable)))" using p(1) by simp
  then show "\<exists>root. norms c = members (group_norms ns comparable) root"
    unfolding eq component_lists by blast
qed

lemma member_root:
  "distinct (bm_keys groups) \<Longrightarrow> a \<in> set (members groups root) \<Longrightarrow> root = group_of groups a"
  by (auto simp: members_def group_of_def)

lemma component_unique:
  assumes "norms_ok ns" and "check_with ns budget comparable = Some comps"
    and "c \<in> set comps" "c' \<in> set comps" "a \<in> set (norms c)" "a \<in> set (norms c')"
  shows "c = c'"
proof -
  have ok: "bmap_ok ns" using assms(1) by (simp add: norms_ok_def)
  have dist: "distinct (bm_keys (group_norms ns comparable))"
    using group_norms_labelled [OF ok, of comparable] bmap_ok_distinct [OF ok] by (simp add: labelled_def)
  have "norms c = members (group_norms ns comparable) (group_of (group_norms ns comparable) a)"
    using check_with_component(3) [OF assms(1,2,3)] assms(5) member_root [OF dist] by metis
  moreover have "norms c' = members (group_norms ns comparable) (group_of (group_norms ns comparable) a)"
    using check_with_component(3) [OF assms(1,2,4)] assms(6) member_root [OF dist] by metis
  ultimately show ?thesis
    using check_with_component(2) [OF assms(1,2,3)] check_with_component(2) [OF assms(1,2,4)] by simp
qed

lemma component_exists:
  assumes "norms_ok ns" and "check_with ns budget comparable = Some comps" and "a \<in> set (bm_keys ns)"
  shows "\<exists>c. c \<in> set comps \<and> a \<in> set (norms c)"
    and "c \<in> set comps \<Longrightarrow> a \<in> set (norms c) \<Longrightarrow>
      b \<in> set (norms c) \<longleftrightarrow> b \<in> set (bm_keys ns) \<and> (a, b) \<in> conn (overlaps ns comparable)"
proof -
  let ?g = "group_norms ns comparable" and ?E = "overlaps ns comparable"
  have ok: "bmap_ok ns" using assms(1) by (simp add: norms_ok_def)
  have lab: "labelled (bm_keys ns) ?E ?g" by (rule group_norms_labelled [OF ok])
  then have "a \<in> set (bm_keys ?g)" using assms(3) by (simp add: labelled_def)
  then obtain root where "(a, root) \<in> set ?g" by auto
  then have in_ms: "a \<in> set (members ?g root)" by (force simp: members_def)
  then have "members ?g root \<in> set (map snd (components ?g))" unfolding component_lists by force
  then obtain p where p: "p \<in> set (components ?g)" "snd p = members ?g root" by auto
  obtain c0 where c0: "decide ns budget (members ?g root) = Some c0" using decide_result [OF assms(1)] by blast
  then have "(decide ns budget \<circ> snd) p = Some c0" using p(2) by simp
  then have "c0 \<in> set comps" unfolding those_Some [OF assms(2) [unfolded check_with_def]] using p(1) by blast
  then show "\<exists>c. c \<in> set comps \<and> a \<in> set (norms c)" using decide_members [OF c0] in_ms by auto
  show "b \<in> set (norms c) \<longleftrightarrow> b \<in> set (bm_keys ns) \<and> (a, b) \<in> conn ?E"
    if c: "c \<in> set comps" and a: "a \<in> set (norms c)"
  proof -
    obtain r where r: "norms c = members ?g r" using check_with_component(3) [OF assms(1,2) c] by blast
    show ?thesis using member_group [OF lab bmap_ok_distinct [OF ok], of a r b] a unfolding r by blast
  qed
qed

text \<open>
  For norms with declared variables and inhabited domains the check never panics and every
  verdict is right: a compatible group's witness respects all domains and satisfies every member;
  an incompatible group's core consists of members, has no joint assignment at all, and has one as
  soon as any one norm is left out of it; and a group is left undecided only when two members
  declare a variable differently or the number of assignments exceeds the budget.
\<close>

theorem compatibility_verdicts:
  assumes "norms_ok ns"
  shows "\<exists>comps. check_with ns budget comparable = Some comps
    \<and> (\<forall>c. c \<in> set comps \<longrightarrow> verdict_ok ns budget (norms c) (compat c))"
proof -
  have "(decide ns budget \<circ> snd) p \<noteq> None" for p using decide_result [OF assms, of budget "snd p"] by auto
  then have "\<exists>comps. check_with ns budget comparable = Some comps"
    unfolding check_with_def by (rule those_total)
  then obtain comps where "check_with ns budget comparable = Some comps" ..
  moreover from check_with_component(1) [OF assms this]
  have "\<forall>c. c \<in> set comps \<longrightarrow> verdict_ok ns budget (norms c) (compat c)" by simp
  ultimately show ?thesis by simp
qed

text \<open>
  The components are the connected components of the overlap graph: every norm is in one, and
  two norms are in the same component exactly when a chain of comparable norms that share variables
  connects them.
\<close>

theorem components_are_connected:
  assumes "norms_ok ns" and "check_with ns budget comparable = Some comps" and "a \<in> set (bm_keys ns)"
  shows "\<exists>c. c \<in> set comps \<and> a \<in> set (norms c)
    \<and> (\<forall>c' b. c' \<in> set comps \<longrightarrow> a \<in> set (norms c') \<longrightarrow>
         (b \<in> set (norms c') \<longleftrightarrow> b \<in> set (bm_keys ns) \<and> (a, b) \<in> conn (overlaps ns comparable)))"
  using component_exists [OF assms] by blast

text \<open>
  C36. Deciding the groups separately decides all norms together: when every component of a check
  of all norms is compatible, one assignment respects all domains and satisfies all norms.
\<close>

theorem compatible_components_are_jointly_satisfiable:
  assumes "norms_ok ns" and "check ns budget = Some comps"
    and "\<And>c. c \<in> set comps \<Longrightarrow> \<exists>a. compat c = Compatible a"
  shows "jointly ns (bm_keys ns)"
proof -
  have run: "check_with ns budget (\<lambda>_ _. True) = Some comps" using assms(2) by (simp add: check_def)
  have "\<exists>c w. c \<in> set comps \<and> m \<in> set (norms c) \<and> compat c = Compatible w" if "m \<in> set (bm_keys ns)" for m
    using component_exists(1) [OF assms(1) run that] assms(3) by blast
  then obtain C W where C: "\<And>m. m \<in> set (bm_keys ns) \<Longrightarrow>
      C m \<in> set comps \<and> m \<in> set (norms (C m)) \<and> compat (C m) = Compatible (W m)" by metis
  define declares where "declares m x \<longleftrightarrow> m \<in> set (bm_keys ns) \<and> x \<in> set (bm_keys (variables (norm_at ns m)))" for m x
  define env where "env x = env_of (W (SOME m. declares m x)) x" for x
  have one: "W m = W m'" if mm: "declares m x" "declares m' x" for m m' x
  proof -
    have keys: "m \<in> set (bm_keys ns)" "m' \<in> set (bm_keys ns)" using mm by (simp_all add: declares_def)
    have "shared ns (\<lambda>_ _. True) p r" if pr: "declares p x" "declares r x" for p r
    proof -
      have "bm_get (variables (norm_at ns r)) x \<noteq> None"
        using pr(2) bm.keys_get [of x "variables (norm_at ns r)"] unfolding declares_def by blast
      then show ?thesis using pr(1) unfolding shared_def list_ex_iff declares_def by blast
    qed
    with mm have "m = m' \<or> (m, m') \<in> overlaps ns (\<lambda>_ _. True) \<or> (m', m) \<in> overlaps ns (\<lambda>_ _. True)"
      using keys by (auto simp: overlaps_def)
    then have "(m, m') \<in> conn (overlaps ns (\<lambda>_ _. True))" by (auto simp: conn_def)
    then have "m' \<in> set (norms (C m))" using component_exists(2) [OF assms(1) run keys(1), of "C m" m'] C [OF keys(1)] keys(2) by simp
    then have "C m = C m'" using component_unique [OF assms(1) run, of "C m" "C m'" m'] C [OF keys(1)] C [OF keys(2)] by simp
    then show ?thesis using C [OF keys(1)] C [OF keys(2)] by simp
  qed
  have "fits env (variables (norm_at ns m)) \<and> satisfies env (norm_at ns m)" if m: "m \<in> set (bm_keys ns)" for m
  proof -
    have same: "env x = env_of (W m) x" if "x \<in> set (bm_keys (variables (norm_at ns m)))" for x
    proof -
      have "declares m x" using m that by (simp add: declares_def)
      then show ?thesis using one someI [of "\<lambda>m. declares m x" m] unfolding env_def by metis
    qed
    have "fits (env_of (W m)) (variables (norm_at ns m)) \<and> satisfies (env_of (W m)) (norm_at ns m)"
      using check_with_component(1) [OF assms(1) run, of "C m"] C [OF m] by (simp add: verdict_ok_def list_all_iff)
    moreover have "declared (norm_at ns m)" using norm_at_well_formed [OF assms(1)] by (simp add: well_formed_def)
    moreover have "env x = env_of (W m) x" if "(x, d) \<in> set (variables (norm_at ns m))" for x d
      using same [of x] that by force
    ultimately show ?thesis using satisfies_cong [OF _ same] unfolding fits_iff by auto
  qed
  then show ?thesis unfolding jointly_def list_all_iff by blast
qed

section \<open>Witnesses\<close>

text \<open>The documentation's example: pairwise satisfiable, jointly inconsistent.\<close>

definition bools :: "(string, domain) bmap" where
  "bools = [(''x'', Boolean), (''y'', Boolean), (''z'', Boolean)]"

definition triple :: "(string, typed_norm) bmap" where
  "triple =
     [(''a'', \<lparr>variables = bools, atoms = [\<lparr>left = ''x'', comparison = Eq, right = Variable ''y''\<rparr>]\<rparr>),
      (''b'', \<lparr>variables = bools, atoms = [\<lparr>left = ''y'', comparison = Eq, right = Variable ''z''\<rparr>]\<rparr>),
      (''c'', \<lparr>variables = bools, atoms = [\<lparr>left = ''x'', comparison = Ne, right = Variable ''z''\<rparr>]\<rparr>)]"

definition pair :: "(string, typed_norm) bmap" where
  "pair = take 2 triple"

lemma triple_ok: "norms_ok triple" "norms_ok pair"
  by (simp_all add: norms_ok_def bmap_ok_def pair_def triple_def bools_def well_formed_def declared_def inhabited_def
      uses_def)

lemma triple_check:
  "check_with triple 8 (\<lambda>_ _. True) =
     Some [\<lparr>norms = [''a'', ''b'', ''c''], component_variables = [''x'', ''y'', ''z''],
            compat = Incompatible [''a'', ''b'', ''c'']\<rparr>]"
  by code_simp

lemma pair_check:
  "check pair 8 =
     Some [\<lparr>norms = [''a'', ''b''], component_variables = [''x'', ''y'', ''z''],
            compat = Compatible [(''x'', ValBool False), (''y'', ValBool False), (''z'', ValBool False)]\<rparr>]"
  by code_simp

theorem compatibility_verdicts_witness:
  "\<not> jointly triple [''a'', ''b'', ''c''] \<and> jointly triple [''b'', ''c''] \<and> jointly triple [''a'', ''c'']
    \<and> jointly triple [''a'', ''b'']"
proof -
  have idx: "[0..<3] = [0, 1, 2]" by (simp add: upt_conv_Cons)
  show ?thesis
    using compatibility_verdicts [OF triple_ok(1), of 8 "\<lambda>_ _. True"]
    by (simp add: triple_check verdict_ok_def idx numeral_2_eq_2)
qed

theorem components_are_connected_witness: "(''a'', ''c'') \<in> conn (overlaps triple (\<lambda>_ _. True))"
  using components_are_connected [OF triple_ok(1) triple_check, of "''a''"] by (auto simp: triple_def)

theorem compatible_components_are_jointly_satisfiable_witness: "jointly pair (bm_keys pair)"
  by (rule compatible_components_are_jointly_satisfiable [OF triple_ok(2) pair_check]) simp

end
