(* ===== verification/Sql_Tables.thy ===== *)
theory Sql_Tables
  imports Ordered_Maps
begin

text \<open>
  The part of SQLite the coordination stores rely on, and the error type they share
  (\<^verbatim>\<open>whipplescript-store/src/lib.rs\<close>, \<^verbatim>\<open>StoreError\<close>).

  A table is the list of its rows in insertion order. Texts compare by bytes (the \<^verbatim>\<open>BINARY\<close>
  collation), which is the order of strings here. A statement reads the clock once, so each
  statement that mentions \<^verbatim>\<open>datetime('now')\<close> or fills a \<^verbatim>\<open>CURRENT_TIMESTAMP\<close> default takes a
  clock reading of its own; \<^verbatim>\<open>datetime('now', m)\<close> is SQLite's function of the modifier text, with
  NULL (\<open>None\<close>) for a modifier it does not read.
\<close>

datatype sqlite_error = UniqueViolation | NotNullViolation | NoRows | InvalidColumnType

datatype store_error =
    Io sqlite_error
  | Sqlite sqlite_error
  | Conflict message
  | Fault string string

record clock =
  now :: string
  datetime :: "string \<Rightarrow> string option"

datatype sql_value = Text string | Blob string

section \<open>Statements\<close>

text \<open>\<^verbatim>\<open>INSERT\<close> into a table with a primary key, and \<^verbatim>\<open>INSERT OR IGNORE\<close>.\<close>

definition sql_insert :: "('r \<Rightarrow> 'k) \<Rightarrow> 'r \<Rightarrow> 'r list \<Rightarrow> ('r list, sqlite_error) result" where
  "sql_insert pk r rows = (if pk r \<in> set (map pk rows) then Err UniqueViolation else Ok (rows @ [r]))"

definition sql_insert_or_ignore :: "('r \<Rightarrow> 'k) \<Rightarrow> 'r \<Rightarrow> 'r list \<Rightarrow> 'r list" where
  "sql_insert_or_ignore pk r rows = (if pk r \<in> set (map pk rows) then rows else rows @ [r])"

text \<open>\<^verbatim>\<open>UPDATE ... SET ... WHERE p\<close>.\<close>

definition sql_update :: "('r \<Rightarrow> bool) \<Rightarrow> ('r \<Rightarrow> 'r) \<Rightarrow> 'r list \<Rightarrow> 'r list" where
  "sql_update p f rows = map (\<lambda>r. if p r then f r else r) rows"

text \<open>\<^verbatim>\<open>DELETE ... WHERE p\<close> with the number of rows it removed.\<close>

definition sql_delete :: "('r \<Rightarrow> bool) \<Rightarrow> 'r list \<Rightarrow> 'r list \<times> nat" where
  "sql_delete p rows = (filter (\<lambda>r. \<not> p r) rows, length (filter p rows))"

text \<open>\<^verbatim>\<open>query_row\<close>: the first row, or the error for none; with \<^verbatim>\<open>.optional()\<close> none is a value.\<close>

definition query_row :: "('r \<Rightarrow> bool) \<Rightarrow> 'r list \<Rightarrow> ('r, sqlite_error) result" where
  "query_row p rows = (case List.find p rows of None \<Rightarrow> Err NoRows | Some r \<Rightarrow> Ok r)"

text \<open>A \<^verbatim>\<open>WHERE (?1 IS NULL OR column = ?1)\<close> condition.\<close>

definition null_or :: "'a option \<Rightarrow> 'a \<Rightarrow> bool" where
  "null_or q a \<longleftrightarrow> (case q of None \<Rightarrow> True | Some b \<Rightarrow> a = b)"

text \<open>A loop that pushes the converted rows and returns at the first error.\<close>

fun try_map :: "('a \<Rightarrow> ('b, 'e) result) \<Rightarrow> 'a list \<Rightarrow> ('b list, 'e) result" where
  "try_map f [] = Ok []"
| "try_map f (x # xs) = and_then (f x) (\<lambda>y. and_then (try_map f xs) (\<lambda>ys. Ok (y # ys)))"

definition map_err :: "('e \<Rightarrow> 'f) \<Rightarrow> ('a, 'e) result \<Rightarrow> ('a, 'f) result" where
  "map_err f r = (case r of Inl e \<Rightarrow> Inl (f e) | Inr a \<Rightarrow> Inr a)"

section \<open>Lemmas\<close>

lemma map_err_simps [simp]: "map_err f (Inl e) = Inl (f e)" "map_err f (Inr a) = Inr a"
  by (simp_all add: map_err_def)

lemma map_err_Ok_iff [res_simps]: "map_err f r = Inr a \<longleftrightarrow> r = Inr a"
  by (cases r) simp_all

lemma sql_insert_Ok [res_simps]:
  "sql_insert pk r rows = Inr rows' \<longleftrightarrow> pk r \<notin> pk ` set rows \<and> rows' = rows @ [r]"
  by (auto simp: sql_insert_def)

lemma sql_insert_map:
  assumes "\<And>r. pk' (f r) = pk r"
  shows "sql_insert pk' (f r) (map f rows) = (case sql_insert pk r rows of Inl e \<Rightarrow> Inl e | Inr rs \<Rightarrow> Inr (map f rs))"
  using assms by (auto simp: sql_insert_def image_image)

lemma sql_insert_or_ignore_map:
  assumes "\<And>r. pk' (f r) = pk r"
  shows "sql_insert_or_ignore pk' (f r) (map f rows) = map f (sql_insert_or_ignore pk r rows)"
  using assms by (auto simp: sql_insert_or_ignore_def image_image)

lemma sql_update_map:
  assumes "\<And>r. p' (f r) = p r" and "\<And>r. g' (f r) = f (g r)"
  shows "sql_update p' g' (map f rows) = map f (sql_update p g rows)"
  using assms by (simp add: sql_update_def)

lemma sql_delete_map:
  assumes "\<And>r. p' (f r) = p r"
  shows "sql_delete p' (map f rows) = (map f (fst (sql_delete p rows)), snd (sql_delete p rows))"
  using assms by (simp add: sql_delete_def filter_map o_def)

lemma sql_update_pk [simp]: "(\<And>r. pk (f r) = pk r) \<Longrightarrow> map pk (sql_update p f rows) = map pk rows"
  by (induction rows) (simp_all add: sql_update_def)

lemma sql_insert_or_ignore_distinct [simp]:
  "distinct (map pk rows) \<Longrightarrow> distinct (map pk (sql_insert_or_ignore pk r rows))"
  by (simp add: sql_insert_or_ignore_def)

lemma sql_insert_distinct:
  "sql_insert pk r rows = Inr rows' \<Longrightarrow> distinct (map pk rows) \<Longrightarrow> distinct (map pk rows')"
  by (auto simp: res_simps)

lemma find_map: "List.find p (map f xs) = map_option f (List.find (\<lambda>x. p (f x)) xs)"
  by (induction xs) auto

lemma find_append: "List.find p (xs @ ys) = (case List.find p xs of None \<Rightarrow> List.find p ys | Some x \<Rightarrow> Some x)"
  by (induction xs) auto

text \<open>A lookup by primary key finds the row there is.\<close>

lemma find_pk: "distinct (map pk rows) \<Longrightarrow> List.find (\<lambda>r. pk r = k) rows = Some r \<longleftrightarrow> r \<in> set rows \<and> pk r = k"
  by (induction rows) (auto simp: image_iff)

lemma find_pk_None: "List.find (\<lambda>r. pk r = k) rows = None \<longleftrightarrow> k \<notin> pk ` set rows"
  by (induction rows) auto

lemma find_update:
  assumes "\<And>r. pk (f r) = pk r"
  shows "List.find (\<lambda>r. pk r = k) (sql_update p f rows) =
    map_option (\<lambda>r. if p r then f r else r) (List.find (\<lambda>r. pk r = k) rows)"
  using assms by (induction rows) (auto simp: sql_update_def)

lemma find_insert_or_ignore:
  "List.find (\<lambda>r. pk r = k) (sql_insert_or_ignore pk r rows) =
     (case List.find (\<lambda>r. pk r = k) rows of
        None \<Rightarrow> if pk r = k then Some r else None
      | Some x \<Rightarrow> Some x)"
proof (cases "List.find (\<lambda>r. pk r = k) rows")
  case None
  then have "k \<notin> pk ` set rows" by (simp add: find_pk_None)
  with None show ?thesis by (auto simp: sql_insert_or_ignore_def find_append)
qed (simp add: sql_insert_or_ignore_def find_append)

lemma null_or_simps [simp]: "null_or None a" "null_or (Some b) a \<longleftrightarrow> a = b"
  by (simp_all add: null_or_def)

lemma try_map_Ok: "(\<And>x. x \<in> set xs \<Longrightarrow> f x = Inr (g x)) \<Longrightarrow> try_map f xs = Inr (map g xs)"
  by (induction xs) simp_all

lemma filter_distinct_pk: "distinct (map pk rows) \<Longrightarrow> distinct (map pk (filter p rows))"
  by (induction rows) auto

end
