(* ===== verification/Payload_Protection.thy ===== *)
theory Payload_Protection
  imports Sql_Tables
begin

text \<open>
  Payload protection of the native stores (\<^verbatim>\<open>whipplescript-store/src/payload_protection.rs\<close> and
  the helpers of \<^verbatim>\<open>coordination/protection.rs\<close>): sealing a value under its coordinates, opening
  it, the equality index of a protected key, and the retained publication.

  The host's \<^verbatim>\<open>PayloadCodec\<close> (a trait object), SHA-256 and the JSON printer of a sequence of
  strings are code outside the sources and are the fields of a parameter record. Printing strings
  as JSON cannot fail, so the \<^verbatim>\<open>?\<close> behind it has no branch here.
\<close>

section \<open>The host's codec\<close>

text \<open>
  \<^verbatim>\<open>PayloadCodec::retain\<close> receives a callback: it calls it \<open>retain_calls\<close> times and answers with
  \<open>retain_answer\<close> of what the calls returned.
\<close>

record payload_codec =
  codec_seal :: "string \<Rightarrow> string \<Rightarrow> (string, store_error) result"
  codec_open :: "string \<Rightarrow> string \<Rightarrow> (string, store_error) result"
  retain_calls :: nat
  retain_answer :: "(unit, store_error) result list \<Rightarrow> (unit, store_error) result"

record payload_protection =
  domain :: string
  codec :: payload_codec
  json_strings :: "string list \<Rightarrow> string"
  sha256 :: "string \<Rightarrow> string"

definition associated_data :: "payload_protection \<Rightarrow> string \<Rightarrow> string \<Rightarrow> string" where
  "associated_data p plane coordinate =
     json_strings p [''whipplescript.native-payload.v1'', domain p, plane, coordinate]"

definition protection_seal ::
  "payload_protection \<Rightarrow> string \<Rightarrow> string \<Rightarrow> string \<Rightarrow> (string, store_error) result" where
  "protection_seal p plane coordinate plaintext =
     codec_seal (codec p) (associated_data p plane coordinate) plaintext"

definition protection_open ::
  "payload_protection \<Rightarrow> string \<Rightarrow> string \<Rightarrow> string \<Rightarrow> (string, store_error) result" where
  "protection_open p plane coordinate ciphertext =
     codec_open (codec p) (associated_data p plane coordinate) ciphertext"

text \<open>
  \<^verbatim>\<open>PayloadProtection::new\<close> refuses an empty domain.
\<close>

definition protection_new ::
  "string \<Rightarrow> payload_codec \<Rightarrow> (string list \<Rightarrow> string) \<Rightarrow> (string \<Rightarrow> string)
    \<Rightarrow> (payload_protection, store_error) result" where
  "protection_new d c json sha =
     (if blank d then Err (Fault ''payload protection'' ''empty protection domain'')
      else Ok \<lparr>domain = d, codec = c, json_strings = json, sha256 = sha\<rparr>)"

text \<open>
  The retained publication. \<^verbatim>\<open>publish\<close> runs at the codec's first call and works on the store; a
  further call gets a fault. The codec's error comes first, then the count of its calls, then the
  published value, which is missing when the codec swallowed the publication's error.
\<close>

definition retain ::
  "payload_codec \<Rightarrow> ('s \<Rightarrow> 's \<times> ('a, store_error) result) \<Rightarrow> 's \<Rightarrow> 's \<times> ('a, store_error) result" where
  "retain c publish s =
     (case retain_calls c of
        0 \<Rightarrow> (s, and_then (retain_answer c [])
                 (\<lambda>_. Err (Fault ''payload protection'' ''codec changed publication cardinality'')))
      | Suc n \<Rightarrow>
          (let (s', r) = publish s;
               first = and_then r (\<lambda>_. Ok ());
               again = Err (Fault ''payload protection'' ''codec repeated retained publication'')
           in (s', and_then (retain_answer c (first # replicate n again))
                 (\<lambda>_. if n \<noteq> 0
                      then Err (Fault ''payload protection'' ''codec changed publication cardinality'')
                      else (case r of
                              Inr a \<Rightarrow> Ok a
                            | Inl _ \<Rightarrow>
                                Err (Fault ''payload protection'' ''codec omitted retained publication''))))))"

section \<open>Strings from bytes\<close>

text \<open>\<^verbatim>\<open>String::from_utf8\<close> accepts well-formed UTF-8 (no overlong forms, no surrogates).\<close>

definition in_range :: "nat \<Rightarrow> nat \<Rightarrow> char \<Rightarrow> bool" where
  "in_range lo hi c \<longleftrightarrow> lo \<le> of_char c \<and> of_char c \<le> hi"

fun utf8 :: "string \<Rightarrow> bool" where
  "utf8 [] = True"
| "utf8 (a # s) =
     (if in_range 0x00 0x7F a then utf8 s
      else case s of
        [] \<Rightarrow> False
      | b # s1 \<Rightarrow>
          if in_range 0xC2 0xDF a then in_range 0x80 0xBF b \<and> utf8 s1
          else case s1 of
            [] \<Rightarrow> False
          | c # s2 \<Rightarrow>
              if in_range 0xE0 0xEF a
              then (if in_range 0xE0 0xE0 a then in_range 0xA0 0xBF b
                    else if in_range 0xED 0xED a then in_range 0x80 0x9F b
                    else in_range 0x80 0xBF b)
                   \<and> in_range 0x80 0xBF c \<and> utf8 s2
              else case s2 of
                [] \<Rightarrow> False
              | d # s3 \<Rightarrow>
                  in_range 0xF0 0xF4 a
                  \<and> (if in_range 0xF0 0xF0 a then in_range 0x90 0xBF b
                     else if in_range 0xF4 0xF4 a then in_range 0x80 0x8F b
                     else in_range 0x80 0xBF b)
                  \<and> in_range 0x80 0xBF c \<and> in_range 0x80 0xBF d \<and> utf8 s3)"

text \<open>A byte as two lower-case hexadecimal digits, \<^verbatim>\<open>{byte:02x}\<close>.\<close>

definition hex_digit :: "nat \<Rightarrow> char" where
  "hex_digit d = (if d < 10 then char_of (48 + d) else char_of (87 + d))"

definition hex_byte :: "char \<Rightarrow> string" where
  "hex_byte c = [hex_digit (of_char c div 16), hex_digit (of_char c mod 16)]"

section \<open>Keys and payloads of the coordination store\<close>

definition key_index :: "payload_protection option \<Rightarrow> string \<Rightarrow> string \<Rightarrow> string \<Rightarrow> string \<Rightarrow> string" where
  "key_index prot plane owner resource key =
     (case prot of
        None \<Rightarrow> key
      | Some p \<Rightarrow>
          ''coord-key:'' @ concat (map hex_byte (sha256 p (json_strings p
            [''whipplescript.coordination-key.v1'', domain p, plane, owner, resource, key]))))"

definition seal ::
  "payload_protection option \<Rightarrow> string \<Rightarrow> string list \<Rightarrow> string \<Rightarrow> (sql_value, store_error) result" where
  "seal prot plane coordinate v =
     (case prot of
        Some p \<Rightarrow> and_then (protection_seal p plane (json_strings p coordinate) v) (\<lambda>b. Ok (Blob b))
      | None \<Rightarrow> Ok (Text v))"

definition open_payload ::
  "payload_protection option \<Rightarrow> string \<Rightarrow> string list \<Rightarrow> sql_value \<Rightarrow> (string, store_error) result" where
  "open_payload prot plane coordinate v =
     (case (prot, v) of
        (Some p, Blob b) \<Rightarrow>
          and_then (protection_open p plane (json_strings p coordinate) b)
            (\<lambda>t. if utf8 t then Ok t
                 else Err (Fault ''coordination protection'' ''decoded payload is not UTF-8''))
      | (None, Text t) \<Rightarrow> Ok t
      | _ \<Rightarrow> Err (Fault ''coordination protection''
                   ''payload representation does not match protection mode''))"

definition open_key ::
  "payload_protection option \<Rightarrow> string \<Rightarrow> string \<Rightarrow> string \<Rightarrow> string \<Rightarrow> string list \<Rightarrow> sql_value
    \<Rightarrow> (string, store_error) result" where
  "open_key prot plane owner resource index coordinate v =
     and_then (open_payload prot plane coordinate v)
       (\<lambda>key. if key_index prot plane owner resource key \<noteq> index
              then Err (Fault ''coordination protection'' ''decoded key does not match its index'')
              else Ok key)"

definition retained ::
  "payload_protection option \<Rightarrow> ('s \<Rightarrow> 's \<times> ('a, store_error) result) \<Rightarrow> 's
    \<Rightarrow> 's \<times> ('a, store_error) result" where
  "retained prot publish s =
     (case prot of Some p \<Rightarrow> retain (codec p) publish s | None \<Rightarrow> publish s)"

section \<open>Lemmas\<close>

text \<open>The codec's documented laws: it opens what it sealed under the same associated data, and it
  calls the publication once and passes its answer on.\<close>

definition codec_opens_sealed :: "payload_codec \<Rightarrow> bool" where
  "codec_opens_sealed c \<longleftrightarrow>
     (\<forall>ad v b. codec_seal c ad v = Inr b \<longrightarrow> codec_open c ad b = Inr v)"

definition codec_publishes_once :: "payload_codec \<Rightarrow> bool" where
  "codec_publishes_once c \<longleftrightarrow> retain_calls c = 1 \<and> (\<forall>r. retain_answer c [r] = r)"

text \<open>A retained operation leaves the store as it was or as the operation leaves it, and it reports
  a value only when the operation ran once and returned it.\<close>

lemma retain_state: "fst (retain c publish s) = s \<or> fst (retain c publish s) = fst (publish s)"
  by (auto simp: retain_def Let_def split: nat.splits prod.splits)

lemma retain_Ok: "snd (retain c publish s) = Inr a \<Longrightarrow> publish s = (fst (publish s), Inr a) \<and> fst (retain c publish s) = fst (publish s)"
  by (cases "publish s") (auto simp: retain_def Let_def res_simps split: nat.splits prod.splits if_splits sum.splits)

lemma retained_None [simp]: "retained None publish = publish"
  by (simp add: retained_def fun_eq_iff)

lemma retained_state: "fst (retained prot publish s) = s \<or> fst (retained prot publish s) = fst (publish s)"
  by (cases prot) (simp_all add: retained_def retain_state)

lemma retained_Ok:
  "snd (retained prot publish s) = Inr a \<Longrightarrow>
     snd (publish s) = Inr a \<and> fst (retained prot publish s) = fst (publish s)"
  using retain_Ok [of _ publish s a] by (cases prot) (auto simp: retained_def, metis snd_conv)

lemma retained_once:
  assumes "codec_publishes_once (codec p)"
  shows "retained (Some p) publish = publish"
proof
  fix s
  obtain s' r where "publish s = (s', r)" by (cases "publish s")
  then show "retained (Some p) publish s = publish s"
    using assms by (cases r) (simp_all add: retained_def retain_def codec_publishes_once_def)
qed

lemma seal_None [simp]: "seal None plane coordinate v = Inr (Text v)"
  by (simp add: seal_def)

lemma key_index_None [simp]: "key_index None plane owner resource key = key"
  by (simp add: key_index_def)

lemma open_payload_None [simp]: "open_payload None plane coordinate (Text v) = Inr v"
  by (simp add: open_payload_def)

lemma open_key_None [simp]:
  "open_key None plane owner resource key coordinate (Text v) =
     (if v = key then Inr key else Err (Fault ''coordination protection'' ''decoded key does not match its index''))"
  by (simp add: open_key_def)

lemma open_sealed:
  assumes "case prot of None \<Rightarrow> True | Some p \<Rightarrow> codec_opens_sealed (codec p)" and "utf8 v"
    and "seal prot plane coordinate v = Inr w"
  shows "open_payload prot plane coordinate w = Inr v"
  using assms by (cases prot)
    (auto simp: seal_def open_payload_def protection_seal_def protection_open_def
      codec_opens_sealed_def res_simps)

lemma open_key_index: "open_key prot plane owner resource index coordinate w = Inr key \<Longrightarrow> key_index prot plane owner resource key = index"
  by (auto simp: open_key_def res_simps split: if_splits)

end
