(* ===== verification/Coordination.thy ===== *)
theory Coordination
  imports Payload_Protection
begin

text \<open>
  The native coordination store (\<^verbatim>\<open>whipplescript-store/src/coordination.rs\<close>): leases with slots
  and expiry, ledgers with per-ledger sequence numbers, counters with a cap and a lazy period
  reset, and the table of applied effects that makes appends and consumes exactly-once.

  The state is the five tables. An operation takes the state to a new state and a result; inside a
  transaction an error discards the writes. The protection of the store is fixed when it is
  opened; \<open>None\<close> is a plaintext store. \<^verbatim>\<open>applied_at\<close> of the applied table is written by its default
  and read by no statement, so it has no column here. \<^verbatim>\<open>ORDER BY\<close> leaves ties open; here they keep
  the order of insertion, and no theorem speaks of it.
\<close>

section \<open>Outcomes and rows\<close>

definition DEFAULT_COORDINATION_OWNER :: string where
  "DEFAULT_COORDINATION_OWNER = ''shared''"

datatype acquire_outcome = Held | Contended "string list"

datatype consume_outcome = ConsumeOk int | ConsumeOver int

definition format_consume_outcome :: "consume_outcome \<Rightarrow> string" where
  "format_consume_outcome outcome =
     (case outcome of
        ConsumeOk remaining \<Rightarrow> ''Ok:'' @ show_int remaining
      | ConsumeOver remaining \<Rightarrow> ''Over:'' @ show_int remaining)"

definition parse_consume_outcome :: "string \<Rightarrow> consume_outcome option" where
  "parse_consume_outcome recorded =
     (case split_once (CHR '':'') recorded of
        None \<Rightarrow> None
      | Some (variant, remaining) \<Rightarrow>
          (case parse_i64 remaining of
             None \<Rightarrow> None
           | Some r \<Rightarrow>
               if variant = ''Ok'' then Some (ConsumeOk r)
               else if variant = ''Over'' then Some (ConsumeOver r)
               else None))"

record lease_row =
  lease_owner :: string
  lease_resource :: string
  lease_key :: string
  lease_holder :: string
  acquired_at :: string
  expires_at :: string

record ledger_entry =
  entry_owner :: string
  entry_ledger :: string
  entry_partition :: string
  entry_seq :: int
  payload_json :: string
  appended_by :: string
  appended_at :: string

record counter_row =
  counter_owner :: string
  counter_name :: string
  counter_key :: string
  consumed :: int
  counter_period :: string

text \<open>
  The tables. A lease or counter row carries its \<^verbatim>\<open>key_payload\<close> column, a ledger row its payload
  and \<^verbatim>\<open>partition_payload\<close> columns; the \<^verbatim>\<open>payload_json\<close> field of a stored ledger row is empty, as in
  the row the listing builds before it opens the payload.
\<close>

record coordination =
  leases :: "(lease_row \<times> sql_value) list"
  ledger_entries :: "(ledger_entry \<times> sql_value \<times> sql_value) list"
  ledger_seq :: "(string \<times> string \<times> int) list"
  counters :: "(counter_row \<times> sql_value) list"
  coord_applied :: "(string \<times> string \<times> string) list"

definition empty_coordination :: coordination where
  "empty_coordination =
     \<lparr>leases = [], ledger_entries = [], ledger_seq = [], counters = [], coord_applied = []\<rparr>"

text \<open>Their primary keys.\<close>

definition lease_pk :: "lease_row \<Rightarrow> string \<times> string \<times> string \<times> string" where
  "lease_pk l = (lease_owner l, lease_resource l, lease_key l, lease_holder l)"

definition entry_pk :: "ledger_entry \<Rightarrow> string \<times> string \<times> int" where
  "entry_pk e = (entry_owner e, entry_ledger e, entry_seq e)"

definition seq_pk :: "string \<times> string \<times> int \<Rightarrow> string \<times> string" where
  "seq_pk r = (fst r, fst (snd r))"

definition counter_pk :: "counter_row \<Rightarrow> string \<times> string \<times> string" where
  "counter_pk c = (counter_owner c, counter_name c, counter_key c)"

definition applied_pk :: "string \<times> string \<times> string \<Rightarrow> string \<times> string" where
  "applied_pk r = (fst r, fst (snd r))"

definition normalized_owner :: "string \<Rightarrow> string" where
  "normalized_owner owner = (if blank owner then DEFAULT_COORDINATION_OWNER else owner)"

text \<open>A transaction: an error drops it, which rolls its writes back.\<close>

definition transaction ::
  "('s \<Rightarrow> ('s \<times> 'a, store_error) result) \<Rightarrow> 's \<Rightarrow> 's \<times> ('a, store_error) result" where
  "transaction body s = (case body s of Inr (s', a) \<Rightarrow> (s', Ok a) | Inl e \<Rightarrow> (s, Err e))"

section \<open>Leases\<close>

definition lease_at :: "string \<Rightarrow> string \<Rightarrow> string \<Rightarrow> lease_row \<Rightarrow> bool" where
  "lease_at owner resource key l \<longleftrightarrow>
     lease_owner l = owner \<and> lease_resource l = resource \<and> lease_key l = key"

text \<open>
  The transaction of an acquire: drop the expired leases of the key, then hold what is already
  held, take a free slot, or report the holders.
\<close>

definition acquire_tx ::
  "clock \<Rightarrow> clock \<Rightarrow> string \<Rightarrow> string \<Rightarrow> string \<Rightarrow> sql_value \<Rightarrow> int \<Rightarrow> int \<Rightarrow> string
    \<Rightarrow> coordination \<Rightarrow> (coordination \<times> acquire_outcome, store_error) result" where
  "acquire_tx t1 t2 owner resource key key_payload slots ttl_seconds holder s =
     (let live = filter (\<lambda>(l, _). \<not> (lease_at owner resource key l \<and> expires_at l \<le> now t1)) (leases s);
          here = filter (\<lambda>(l, _). lease_at owner resource key l) live;
          already_held = length (filter (\<lambda>(l, _). lease_holder l = holder) here)
      in if already_held > 0 then Ok (s\<lparr>leases := live\<rparr>, Held)
         else if int (length here) < slots
         then (case datetime t2 (''+'' @ show_int ttl_seconds @ '' seconds'') of
                 None \<Rightarrow> Err (Sqlite NotNullViolation)
               | Some expiry \<Rightarrow>
                   and_then (map_err Sqlite (sql_insert (lease_pk \<circ> fst)
                     (\<lparr>lease_owner = owner, lease_resource = resource, lease_key = key,
                       lease_holder = holder, acquired_at = now t2, expires_at = expiry\<rparr>,
                      key_payload) live))
                   (\<lambda>rows. Ok (s\<lparr>leases := rows\<rparr>, Held)))
         else Ok (s\<lparr>leases := live\<rparr>, Contended (map (lease_holder \<circ> fst) (sort_key (acquired_at \<circ> fst) here))))"

definition try_acquire_for_owner ::
  "payload_protection option \<Rightarrow> clock \<Rightarrow> clock \<Rightarrow> string \<Rightarrow> string \<Rightarrow> string \<Rightarrow> int \<Rightarrow> int \<Rightarrow> string
    \<Rightarrow> coordination \<Rightarrow> coordination \<times> (acquire_outcome, store_error) result" where
  "try_acquire_for_owner prot t1 t2 owner resource key slots ttl_seconds holder =
     retained prot (\<lambda>store.
       let owner = normalized_owner owner;
           index = key_index prot ''coord.lease.key'' owner resource key
       in case seal prot ''coord.lease.key'' [owner, resource, index, holder] key of
            Inl e \<Rightarrow> (store, Err e)
          | Inr key_payload \<Rightarrow>
              transaction (acquire_tx t1 t2 owner resource index key_payload slots ttl_seconds holder) store)"

definition try_acquire ::
  "payload_protection option \<Rightarrow> clock \<Rightarrow> clock \<Rightarrow> string \<Rightarrow> string \<Rightarrow> int \<Rightarrow> int \<Rightarrow> string
    \<Rightarrow> coordination \<Rightarrow> coordination \<times> (acquire_outcome, store_error) result" where
  "try_acquire prot t1 t2 = try_acquire_for_owner prot t1 t2 DEFAULT_COORDINATION_OWNER"

definition release_for_owner ::
  "payload_protection option \<Rightarrow> string \<Rightarrow> string \<Rightarrow> string \<Rightarrow> string
    \<Rightarrow> coordination \<Rightarrow> coordination \<times> (bool, store_error) result" where
  "release_for_owner prot owner resource key holder =
     retained prot (\<lambda>store.
       let owner = normalized_owner owner;
           key = key_index prot ''coord.lease.key'' owner resource key;
           (rows, changed) = sql_delete
             (\<lambda>(l, _). lease_at owner resource key l \<and> lease_holder l = holder) (leases store)
       in (store\<lparr>leases := rows\<rparr>, Ok (changed \<ge> 1)))"

definition release ::
  "payload_protection option \<Rightarrow> string \<Rightarrow> string \<Rightarrow> string
    \<Rightarrow> coordination \<Rightarrow> coordination \<times> (bool, store_error) result" where
  "release prot = release_for_owner prot DEFAULT_COORDINATION_OWNER"

text \<open>
  A renewal is one update of a live hold. The new expiry is evaluated for a matching row only, so a
  modifier SQLite does not read fails the statement only then.
\<close>

definition renew_lease_for_owner ::
  "payload_protection option \<Rightarrow> clock \<Rightarrow> string \<Rightarrow> string \<Rightarrow> string \<Rightarrow> int \<Rightarrow> string
    \<Rightarrow> coordination \<Rightarrow> coordination \<times> (string option, store_error) result" where
  "renew_lease_for_owner prot t owner resource key ttl_seconds holder =
     retained prot (\<lambda>store.
       let owner = normalized_owner owner;
           key = key_index prot ''coord.lease.key'' owner resource key;
           live = (\<lambda>(l, _). lease_at owner resource key l \<and> lease_holder l = holder \<and> now t < expires_at l)
       in if \<not> list_ex live (leases store) then (store, Ok None)
          else (case datetime t (''+'' @ show_int ttl_seconds @ '' seconds'') of
                  None \<Rightarrow> (store, Err (Sqlite NotNullViolation))
                | Some expiry \<Rightarrow>
                    (store\<lparr>leases := sql_update live (\<lambda>(l, p). (l\<lparr>expires_at := expiry\<rparr>, p)) (leases store)\<rparr>,
                     Ok (Some expiry))))"

definition release_all_for_holder ::
  "payload_protection option \<Rightarrow> string \<Rightarrow> coordination \<Rightarrow> coordination \<times> (nat, store_error) result" where
  "release_all_for_holder prot holder =
     retained prot (\<lambda>store.
       let (rows, changed) = sql_delete (\<lambda>(l, _). lease_holder l = holder) (leases store)
       in (store\<lparr>leases := rows\<rparr>, Ok changed))"

section \<open>Ledgers\<close>

definition applied_outcome :: "string \<Rightarrow> string \<Rightarrow> coordination \<Rightarrow> string option" where
  "applied_outcome owner effect_id s =
     map_option (snd \<circ> snd) (List.find (\<lambda>r. applied_pk r = (owner, effect_id)) (coord_applied s))"

definition record_applied ::
  "string \<Rightarrow> string option \<Rightarrow> string \<Rightarrow> coordination \<Rightarrow> (coordination, store_error) result" where
  "record_applied owner effect_id outcome s =
     (case effect_id of
        None \<Rightarrow> Ok s
      | Some i \<Rightarrow>
          and_then (map_err Sqlite (sql_insert applied_pk (owner, i, outcome) (coord_applied s)))
            (\<lambda>rows. Ok (s\<lparr>coord_applied := rows\<rparr>)))"

definition corrupt_outcome :: "string \<Rightarrow> string \<Rightarrow> store_error" where
  "corrupt_outcome effect_id recorded =
     Conflict (Format ''corrupt coord_applied outcome for effect `{effect_id}`: `{recorded}`''
       [effect_id, recorded])"

text \<open>
  Minting a sequence number: \<^verbatim>\<open>next_seq + 1\<close> past the 64-bit range is a SQLite REAL, which the
  typed read of \<^verbatim>\<open>next_seq - 1\<close> refuses.
\<close>

definition mint_seq :: "string \<Rightarrow> string \<Rightarrow> (string \<times> string \<times> int) list
    \<Rightarrow> ((string \<times> string \<times> int) list \<times> int, sqlite_error) result" where
  "mint_seq owner ledger rows =
     (let rows = sql_insert_or_ignore seq_pk (owner, ledger, 1) rows;
          rows' = sql_update (\<lambda>r. seq_pk r = (owner, ledger)) (\<lambda>(o', l, n). (o', l, n + 1)) rows
      in and_then (query_row (\<lambda>r. seq_pk r = (owner, ledger)) rows')
           (\<lambda>(_, _, n). if in_i64 n then Ok (rows', n - 1) else Err InvalidColumnType))"

definition append_tx ::
  "payload_protection option \<Rightarrow> clock \<Rightarrow> clock \<Rightarrow> string \<Rightarrow> string \<Rightarrow> string \<Rightarrow> string \<Rightarrow> string \<Rightarrow> string
    \<Rightarrow> int \<Rightarrow> string option \<Rightarrow> coordination \<Rightarrow> (coordination \<times> int, store_error) result" where
  "append_tx prot t1 t2 owner ledger partition_index part payload author retain_seconds effect_id s =
     and_then (map_err Sqlite (mint_seq owner ledger (ledger_seq s)))
      (\<lambda>(seqs, seq). let coordinate = [owner, ledger, show_int seq] in
     and_then (seal prot ''coord.ledger.partition'' coordinate part) (\<lambda>partition_payload.
     and_then (seal prot ''coord.ledger.body'' coordinate payload) (\<lambda>body.
     and_then (map_err Sqlite (sql_insert (entry_pk \<circ> fst)
         (\<lparr>entry_owner = owner, entry_ledger = ledger, entry_partition = partition_index,
           entry_seq = seq, payload_json = [], appended_by = author, appended_at = now t1\<rparr>,
          body, partition_payload) (ledger_entries s))) (\<lambda>entries.
     let kept = (case datetime t2 (''-'' @ show_int retain_seconds @ '' seconds'') of
                   None \<Rightarrow> entries
                 | Some horizon \<Rightarrow>
                     filter (\<lambda>(e, _). \<not> (entry_owner e = owner \<and> entry_ledger e = ledger
                       \<and> appended_at e \<le> horizon)) entries)
     in and_then (record_applied owner effect_id (show_int seq)
           (s\<lparr>ledger_seq := seqs, ledger_entries := kept\<rparr>)) (\<lambda>s'. Ok (s', seq))))))"

definition append_for_owner_marked ::
  "payload_protection option \<Rightarrow> clock \<Rightarrow> clock \<Rightarrow> string \<Rightarrow> string \<Rightarrow> string \<Rightarrow> string \<Rightarrow> string \<Rightarrow> int
    \<Rightarrow> string option \<Rightarrow> coordination \<Rightarrow> coordination \<times> (int, store_error) result" where
  "append_for_owner_marked prot t1 t2 owner ledger part payload author retain_seconds effect_id =
     retained prot (\<lambda>store.
       let owner = normalized_owner owner;
           partition_index = key_index prot ''coord.ledger.partition'' owner ledger part
       in case (case effect_id of None \<Rightarrow> None
                | Some i \<Rightarrow> map_option (Pair i) (applied_outcome owner i store)) of
            Some (i, recorded) \<Rightarrow>
              (store, case parse_i64 recorded of None \<Rightarrow> Err (corrupt_outcome i recorded) | Some seq \<Rightarrow> Ok seq)
          | None \<Rightarrow>
              transaction (append_tx prot t1 t2 owner ledger partition_index part payload author
                retain_seconds effect_id) store)"

definition append_for_owner ::
  "payload_protection option \<Rightarrow> clock \<Rightarrow> clock \<Rightarrow> string \<Rightarrow> string \<Rightarrow> string \<Rightarrow> string \<Rightarrow> string \<Rightarrow> int
    \<Rightarrow> coordination \<Rightarrow> coordination \<times> (int, store_error) result" where
  "append_for_owner prot t1 t2 owner ledger part payload author retain_seconds =
     append_for_owner_marked prot t1 t2 owner ledger part payload author retain_seconds None"

definition append_for_owner_idempotent ::
  "payload_protection option \<Rightarrow> clock \<Rightarrow> clock \<Rightarrow> string \<Rightarrow> string \<Rightarrow> string \<Rightarrow> string \<Rightarrow> string \<Rightarrow> int
    \<Rightarrow> string \<Rightarrow> coordination \<Rightarrow> coordination \<times> (int, store_error) result" where
  "append_for_owner_idempotent prot t1 t2 owner ledger part payload author retain_seconds effect_id =
     append_for_owner_marked prot t1 t2 owner ledger part payload author retain_seconds (Some effect_id)"

definition append_shared ::
  "payload_protection option \<Rightarrow> clock \<Rightarrow> clock \<Rightarrow> string \<Rightarrow> string \<Rightarrow> string \<Rightarrow> string \<Rightarrow> int
    \<Rightarrow> coordination \<Rightarrow> coordination \<times> (int, store_error) result" where
  "append_shared prot t1 t2 = append_for_owner prot t1 t2 DEFAULT_COORDINATION_OWNER"

section \<open>Counters\<close>

text \<open>The counter's row, made when it is missing and reset when the period rolled.\<close>

definition current_counter ::
  "string \<times> string \<times> string \<Rightarrow> sql_value \<Rightarrow> string \<Rightarrow> (counter_row \<times> sql_value) list
    \<Rightarrow> (counter_row \<times> sql_value) list" where
  "current_counter k key_payload period rows =
     sql_update (\<lambda>r. (counter_pk \<circ> fst) r = k \<and> counter_period (fst r) \<noteq> period)
       (\<lambda>r. ((fst r)\<lparr>consumed := 0, counter_period := period\<rparr>, snd r))
       (sql_insert_or_ignore (counter_pk \<circ> fst)
         (\<lparr>counter_owner = fst k, counter_name = fst (snd k), counter_key = snd (snd k), consumed = 0,
           counter_period = period\<rparr>, key_payload) rows)"

definition charge_counter ::
  "string \<times> string \<times> string \<Rightarrow> int \<Rightarrow> (counter_row \<times> sql_value) list \<Rightarrow> (counter_row \<times> sql_value) list" where
  "charge_counter k amount rows =
     sql_update (\<lambda>r. (counter_pk \<circ> fst) r = k)
       (\<lambda>r. ((fst r)\<lparr>consumed := consumed (fst r) + amount\<rparr>, snd r)) rows"

text \<open>
  The transaction of a consume: charge the counter when the total stays in range and under the
  cap. \<^verbatim>\<open>cap - consumed\<close> wraps at 64 bits.
\<close>

definition consume_tx ::
  "string \<Rightarrow> string \<Rightarrow> string \<Rightarrow> sql_value \<Rightarrow> int \<Rightarrow> int \<Rightarrow> string \<Rightarrow> string option
    \<Rightarrow> coordination \<Rightarrow> (coordination \<times> consume_outcome, store_error) result" where
  "consume_tx owner counter key key_payload amount cap period effect_id s =
     (let k = (owner, counter, key);
          current = current_counter k key_payload period (counters s)
      in and_then (map_err Sqlite (query_row (\<lambda>r. (counter_pk \<circ> fst) r = k) current)) (\<lambda>r.
           let used = consumed (fst r);
               (rows, outcome) =
             (case checked_add_i64 used amount of
                Some tot \<Rightarrow>
                  if amount \<ge> 0 \<and> tot \<le> cap
                  then (charge_counter k amount current, ConsumeOk (wrap_i64 (cap - tot)))
                  else (current, ConsumeOver (max (wrap_i64 (cap - used)) 0))
              | None \<Rightarrow> (current, ConsumeOver (max (wrap_i64 (cap - used)) 0)))
           in and_then (record_applied owner effect_id (format_consume_outcome outcome) (s\<lparr>counters := rows\<rparr>))
                (\<lambda>s'. Ok (s', outcome))))"

definition consume_for_owner_marked ::
  "payload_protection option \<Rightarrow> string \<Rightarrow> string \<Rightarrow> string \<Rightarrow> int \<Rightarrow> int \<Rightarrow> string \<Rightarrow> string option
    \<Rightarrow> coordination \<Rightarrow> coordination \<times> (consume_outcome, store_error) result" where
  "consume_for_owner_marked prot owner counter key amount cap period effect_id =
     retained prot (\<lambda>store.
       let owner = normalized_owner owner;
           index = key_index prot ''coord.counter.key'' owner counter key
       in case seal prot ''coord.counter.key'' [owner, counter, index] key of
            Inl e \<Rightarrow> (store, Err e)
          | Inr key_payload \<Rightarrow>
              (case (case effect_id of None \<Rightarrow> None
                     | Some i \<Rightarrow> map_option (Pair i) (applied_outcome owner i store)) of
                 Some (i, recorded) \<Rightarrow>
                   (store, case parse_consume_outcome recorded of
                      None \<Rightarrow> Err (corrupt_outcome i recorded) | Some outcome \<Rightarrow> Ok outcome)
               | None \<Rightarrow>
                   transaction (consume_tx owner counter index key_payload amount cap period effect_id) store))"

definition consume_for_owner ::
  "payload_protection option \<Rightarrow> string \<Rightarrow> string \<Rightarrow> string \<Rightarrow> int \<Rightarrow> int \<Rightarrow> string
    \<Rightarrow> coordination \<Rightarrow> coordination \<times> (consume_outcome, store_error) result" where
  "consume_for_owner prot owner counter key amount cap period =
     consume_for_owner_marked prot owner counter key amount cap period None"

definition consume_for_owner_idempotent ::
  "payload_protection option \<Rightarrow> string \<Rightarrow> string \<Rightarrow> string \<Rightarrow> int \<Rightarrow> int \<Rightarrow> string \<Rightarrow> string
    \<Rightarrow> coordination \<Rightarrow> coordination \<times> (consume_outcome, store_error) result" where
  "consume_for_owner_idempotent prot owner counter key amount cap period effect_id =
     consume_for_owner_marked prot owner counter key amount cap period (Some effect_id)"

definition consume_shared ::
  "payload_protection option \<Rightarrow> string \<Rightarrow> string \<Rightarrow> int \<Rightarrow> int \<Rightarrow> string
    \<Rightarrow> coordination \<Rightarrow> coordination \<times> (consume_outcome, store_error) result" where
  "consume_shared prot = consume_for_owner prot DEFAULT_COORDINATION_OWNER"

section \<open>Listings\<close>

definition ledger_positions_impl :: "coordination \<Rightarrow> (string \<times> string \<times> int) list" where
  "ledger_positions_impl s = sort_key seq_pk (ledger_seq s)"

definition list_leases_for_owner ::
  "payload_protection option \<Rightarrow> string option \<Rightarrow> string option \<Rightarrow> coordination
    \<Rightarrow> (lease_row list, store_error) result" where
  "list_leases_for_owner prot owner resource s =
     (let order = (\<lambda>l. (lease_owner l, lease_resource l, lease_key l, acquired_at l));
          raw = sort_key (order \<circ> fst)
            (filter (\<lambda>(l, _). null_or (map_option normalized_owner owner) (lease_owner l)
               \<and> null_or resource (lease_resource l)) (leases s))
      in and_then (try_map (\<lambda>(l, v).
             and_then (open_key prot ''coord.lease.key'' (lease_owner l) (lease_resource l) (lease_key l)
               [lease_owner l, lease_resource l, lease_key l, lease_holder l] v)
             (\<lambda>k. Ok (l\<lparr>lease_key := k\<rparr>))) raw)
           (\<lambda>rows. Ok (sort_key order rows)))"

definition list_leases ::
  "payload_protection option \<Rightarrow> string option \<Rightarrow> coordination \<Rightarrow> (lease_row list, store_error) result" where
  "list_leases prot resource s = list_leases_for_owner prot None resource s"

definition list_entries_for_owner ::
  "payload_protection option \<Rightarrow> string option \<Rightarrow> string option \<Rightarrow> string option \<Rightarrow> coordination
    \<Rightarrow> (ledger_entry list, store_error) result" where
  "list_entries_for_owner prot owner ledger part s =
     try_map (\<lambda>(e, payload, partition_payload).
         let coordinate = [entry_owner e, entry_ledger e, show_int (entry_seq e)]
         in and_then (open_key prot ''coord.ledger.partition'' (entry_owner e) (entry_ledger e)
                (entry_partition e) coordinate partition_payload) (\<lambda>opened.
            and_then (open_payload prot ''coord.ledger.body'' coordinate payload) (\<lambda>body.
            Ok (e\<lparr>entry_partition := opened, payload_json := body\<rparr>))))
       (filter (\<lambda>(e, _). case part of
            None \<Rightarrow> True
          | Some p \<Rightarrow> key_index prot ''coord.ledger.partition'' (entry_owner e) (entry_ledger e) p = entry_partition e)
         (sort_key (entry_pk \<circ> fst)
           (filter (\<lambda>(e, _). null_or (map_option normalized_owner owner) (entry_owner e)
              \<and> null_or ledger (entry_ledger e)) (ledger_entries s))))"

definition list_entries ::
  "payload_protection option \<Rightarrow> string option \<Rightarrow> string option \<Rightarrow> coordination
    \<Rightarrow> (ledger_entry list, store_error) result" where
  "list_entries prot ledger part s = list_entries_for_owner prot None ledger part s"

definition list_counters_for_owner ::
  "payload_protection option \<Rightarrow> string option \<Rightarrow> string option \<Rightarrow> coordination
    \<Rightarrow> (counter_row list, store_error) result" where
  "list_counters_for_owner prot owner counter s =
     (let raw = sort_key (counter_pk \<circ> fst)
            (filter (\<lambda>(c, _). null_or (map_option normalized_owner owner) (counter_owner c)
               \<and> null_or counter (counter_name c)) (counters s))
      in and_then (try_map (\<lambda>(c, v).
             and_then (open_key prot ''coord.counter.key'' (counter_owner c) (counter_name c) (counter_key c)
               [counter_owner c, counter_name c, counter_key c] v)
             (\<lambda>k. Ok (c\<lparr>counter_key := k\<rparr>))) raw)
           (\<lambda>rows. Ok (sort_key counter_pk rows)))"

definition list_counters ::
  "payload_protection option \<Rightarrow> string option \<Rightarrow> coordination \<Rightarrow> (counter_row list, store_error) result" where
  "list_counters prot counter s = list_counters_for_owner prot None counter s"

end
