(* ===== verification/Coordination_Contract.thy ===== *)
theory Coordination_Contract
  imports Main
begin

text \<open>
  The promises of the \<^verbatim>\<open>Coordination\<close> trait (\<^verbatim>\<open>whipplescript-store/src/coordination.rs\<close>) that its
  implementations share, each as an interface over a step function of the implementation: slots
  bound the holders of a lease, ledger positions only grow, a counter stays under its cap. The
  consequences for whole sequences of calls are proved here once.
\<close>

locale slot_bounded =
  fixes step :: "'s \<Rightarrow> 'op \<Rightarrow> 's"
    and ok :: "'s \<Rightarrow> bool"
    and held :: "'k \<Rightarrow> 's \<Rightarrow> 'h list"
    and grant :: "'op \<Rightarrow> ('k \<times> int) option"
  assumes step_ok: "ok s \<Longrightarrow> ok (step s op)"
    and held_distinct: "ok s \<Longrightarrow> distinct (held k s)"
    and held_step: "length (held k (step s op)) \<le> length (held k s)
      \<or> (\<exists>n. grant op = Some (k, n) \<and> int (length (held k (step s op))) \<le> n)"
begin

lemma run_ok: "ok s \<Longrightarrow> ok (foldl step s ops)"
  by (induction ops arbitrary: s) (simp_all add: step_ok)

lemma run_bounded:
  assumes "\<And>op n. op \<in> set ops \<Longrightarrow> grant op = Some (k, n) \<Longrightarrow> n = slots"
  shows "int (length (held k (foldl step s ops))) \<le> max (int (length (held k s))) slots"
  using assms
proof (induction ops arbitrary: s)
  case (Cons op ops)
  have "int (length (held k (step s op))) \<le> max (int (length (held k s))) slots"
    using held_step [of k s op] Cons.prems [of op] by (auto simp: max_def)
  moreover have "int (length (held k (foldl step (step s op) ops)))
      \<le> max (int (length (held k (step s op)))) slots"
    by (rule Cons.IH) (use Cons.prems in auto)
  ultimately show ?case by simp
qed simp

end

locale monotone_positions =
  fixes step :: "'s \<Rightarrow> 'op \<Rightarrow> 's"
    and position :: "'s \<Rightarrow> 'l \<Rightarrow> int"
  assumes position_step: "position s l \<le> position (step s op) l"
begin

lemma run_position: "position s l \<le> position (foldl step s ops) l"
proof (induction ops arbitrary: s)
  case (Cons op ops)
  show ?case using position_step [of s l op] Cons [of "step s op"] by simp
qed simp

end

locale capped =
  fixes step :: "'s \<Rightarrow> 'op \<Rightarrow> 's"
    and used :: "'s \<Rightarrow> 'k \<Rightarrow> int"
    and limit :: "'op \<Rightarrow> ('k \<times> int) option"
  assumes used_step: "used (step s op) k = used s k \<or> used (step s op) k = 0
      \<or> (\<exists>n. limit op = Some (k, n) \<and> used (step s op) k \<le> n)"
begin

lemma run_capped:
  assumes "\<And>op n. op \<in> set ops \<Longrightarrow> limit op = Some (k, n) \<Longrightarrow> n = cap" and "used s k \<le> max 0 cap"
  shows "used (foldl step s ops) k \<le> max 0 cap"
  using assms
proof (induction ops arbitrary: s)
  case (Cons op ops)
  have "used (step s op) k \<le> max 0 cap"
    using used_step [of s op k] Cons.prems(1) [of op] Cons.prems(2) by auto
  with Cons.prems(1) have "used (foldl step (step s op) ops) k \<le> max 0 cap" by (intro Cons.IH) auto
  then show ?case by simp
qed simp

end

end
