(* ===== verification/Coordination_Props.thy ===== *)
theory Coordination_Props
  imports Coordination Coordination_Contract "HOL-Library.Multiset"
begin

text \<open>
  Correctness of the native coordination store. The operations that write are collected in one
  type, so that the claims range over every sequence of calls: slots are never oversubscribed, an
  effect is applied once, sequence numbers only grow, counters stay within their cap.
\<close>

section \<open>Sequences of calls\<close>

datatype coord_op =
    Acquire clock clock string string string int int string
  | Release string string string string
  | Renew clock string string string int string
  | ReleaseAll string
  | Append clock clock string string string string string int "string option"
  | Consume string string string int int string "string option"

fun perform :: "payload_protection option \<Rightarrow> coordination \<Rightarrow> coord_op \<Rightarrow> coordination" where
  "perform prot s (Acquire t1 t2 owner resource key slots ttl holder) =
     fst (try_acquire_for_owner prot t1 t2 owner resource key slots ttl holder s)"
| "perform prot s (Release owner resource key holder) =
     fst (release_for_owner prot owner resource key holder s)"
| "perform prot s (Renew t owner resource key ttl holder) =
     fst (renew_lease_for_owner prot t owner resource key ttl holder s)"
| "perform prot s (ReleaseAll holder) = fst (release_all_for_holder prot holder s)"
| "perform prot s (Append t1 t2 owner ledger part payload author keep effect_id) =
     fst (append_for_owner_marked prot t1 t2 owner ledger part payload author keep effect_id s)"
| "perform prot s (Consume owner counter key amount cap period effect_id) =
     fst (consume_for_owner_marked prot owner counter key amount cap period effect_id s)"

abbreviation run_ops :: "payload_protection option \<Rightarrow> coordination \<Rightarrow> coord_op list \<Rightarrow> coordination" where
  "run_ops prot \<equiv> foldl (perform prot)"

text \<open>What a store operation keeps, a retained operation and a transaction keep.\<close>

lemma retained_keeps: "P s \<Longrightarrow> P (fst (publish s)) \<Longrightarrow> P (fst (retained prot publish s))"
  using retained_state [of prot publish s] by auto

lemma transaction_keeps: "P s \<Longrightarrow> (\<And>s' a. body s = Inr (s', a) \<Longrightarrow> P s') \<Longrightarrow> P (fst (transaction body s))"
  by (auto simp: transaction_def split: sum.splits)

section \<open>The invariant of the tables\<close>

definition next_seq_of :: "(string \<times> string \<times> int) list \<Rightarrow> string \<times> string \<Rightarrow> int" where
  "next_seq_of rows k = (case List.find (\<lambda>r. seq_pk r = k) rows of None \<Rightarrow> 1 | Some r \<Rightarrow> snd (snd r))"

definition keys_ok :: "coordination \<Rightarrow> bool" where
  "keys_ok s \<longleftrightarrow>
     distinct (map (lease_pk \<circ> fst) (leases s)) \<and> distinct (map (entry_pk \<circ> fst) (ledger_entries s))
     \<and> distinct (map seq_pk (ledger_seq s)) \<and> distinct (map (counter_pk \<circ> fst) (counters s))
     \<and> distinct (map applied_pk (coord_applied s))"

definition seqs_ok :: "coordination \<Rightarrow> bool" where
  "seqs_ok s \<longleftrightarrow>
     (\<forall>k. 1 \<le> next_seq_of (ledger_seq s) k \<and> in_i64 (next_seq_of (ledger_seq s) k))
     \<and> (\<forall>e. e \<in> fst ` set (ledger_entries s) \<longrightarrow>
          1 \<le> entry_seq e \<and> entry_seq e < next_seq_of (ledger_seq s) (entry_owner e, entry_ledger e))"

definition counters_ok :: "coordination \<Rightarrow> bool" where
  "counters_ok s \<longleftrightarrow>
     (\<forall>k r. List.find (\<lambda>r. (counter_pk \<circ> fst) r = k) (counters s) = Some r \<longrightarrow>
        0 \<le> consumed (fst r) \<and> in_i64 (consumed (fst r)))"

definition coord_ok :: "coordination \<Rightarrow> bool" where
  "coord_ok s \<longleftrightarrow> keys_ok s \<and> seqs_ok s \<and> counters_ok s"

lemma coord_ok_empty [simp]: "coord_ok empty_coordination"
  by (simp add: coord_ok_def keys_ok_def seqs_ok_def counters_ok_def empty_coordination_def
      next_seq_of_def in_i64_def i64_min_def i64_max_def)

lemma seq_pk_simp [simp]: "seq_pk (a, b, n) = (a, b)"
  by (simp add: seq_pk_def)

lemma applied_pk_simp [simp]: "applied_pk (a, b, n) = (a, b)"
  by (simp add: applied_pk_def)

text \<open>The sequence table: a ledger without a row stands at 1, and minting moves one ledger by one.\<close>

lemma next_seq_of_ignore [simp]:
  "next_seq_of (sql_insert_or_ignore seq_pk (owner, ledger, 1) rows) k = next_seq_of rows k"
  by (auto simp: sql_insert_or_ignore_def next_seq_of_def find_append split: option.splits)

lemma find_update_seq:
  "List.find (\<lambda>r. seq_pk r = k') (sql_update (\<lambda>r. seq_pk r = k) (\<lambda>(o', l, n). (o', l, n + 1)) rows) =
     map_option (\<lambda>(o', l, n). (o', l, if k' = k then n + 1 else n)) (List.find (\<lambda>r. seq_pk r = k') rows)"
  by (induction rows) (auto simp: sql_update_def)

lemma update_seq_pk [simp]:
  "map seq_pk (sql_update p (\<lambda>(o', l, n). (o', l, n + 1)) rows) = map seq_pk rows"
  by (rule sql_update_pk) auto

lemma mint_seq_Ok:
  assumes "mint_seq owner ledger rows = Inr (rows', seq)"
  shows "seq = next_seq_of rows (owner, ledger)" and "in_i64 (seq + 1)"
    and "next_seq_of rows' k = (if k = (owner, ledger) then seq + 1 else next_seq_of rows k)"
    and "distinct (map seq_pk rows) \<Longrightarrow> distinct (map seq_pk rows')"
proof -
  define made where "made = sql_insert_or_ignore seq_pk (owner, ledger, 1) rows"
  have rows': "rows' = sql_update (\<lambda>r. seq_pk r = (owner, ledger)) (\<lambda>(o', l, n). (o', l, n + 1)) made"
    using assms by (auto simp: mint_seq_def made_def Let_def res_simps split: if_splits)
  obtain r where r: "List.find (\<lambda>r. seq_pk r = (owner, ledger)) made = Some r"
    "seq = snd (snd r)" "in_i64 (seq + 1)"
    using assms
    by (auto simp: mint_seq_def made_def [symmetric] Let_def res_simps query_row_def find_update_seq
        split: if_splits option.splits)
  show "in_i64 (seq + 1)" by (rule r(3))
  have made_next: "next_seq_of made = next_seq_of rows" unfolding made_def by (rule ext) simp
  then show seq: "seq = next_seq_of rows (owner, ledger)" using r by (metis next_seq_of_def option.simps(5))
  show "next_seq_of rows' k = (if k = (owner, ledger) then seq + 1 else next_seq_of rows k)"
  proof (cases "k = (owner, ledger)")
    case True
    then show ?thesis using r by (cases r) (simp add: rows' next_seq_of_def find_update_seq)
  next
    case False
    then have "next_seq_of rows' k = next_seq_of made k"
      by (auto simp: rows' next_seq_of_def find_update_seq split: option.splits)
    with False show ?thesis by (simp add: made_next)
  qed
  show "distinct (map seq_pk rows) \<Longrightarrow> distinct (map seq_pk rows')" by (simp add: rows' made_def)
qed

lemma mint_seq_total:
  assumes "next_seq_of rows (owner, ledger) < i64_max" and "i64_min \<le> next_seq_of rows (owner, ledger)"
  shows "\<exists>rows'. mint_seq owner ledger rows = Inr (rows', next_seq_of rows (owner, ledger))"
proof -
  define made where "made = sql_insert_or_ignore seq_pk (owner, ledger, 1) rows"
  have "List.find (\<lambda>r. seq_pk r = (owner, ledger)) made \<noteq> None"
    unfolding find_pk_None by (auto simp: made_def sql_insert_or_ignore_def)
  then obtain r where r: "List.find (\<lambda>r. seq_pk r = (owner, ledger)) made = Some r" by blast
  then have "snd (snd r) = next_seq_of rows (owner, ledger)"
    using next_seq_of_ignore [of owner ledger rows "(owner, ledger)"]
    by (simp add: made_def [symmetric] next_seq_of_def [of made])
  with r assms show ?thesis
    by (cases r) (simp add: mint_seq_def made_def [symmetric] Let_def query_row_def find_update_seq in_i64_def)
qed

section \<open>What each transaction does to the tables\<close>

definition lease_frame :: "coordination \<Rightarrow> coordination \<Rightarrow> bool" where
  "lease_frame s s' \<longleftrightarrow> s' = s\<lparr>leases := leases s'\<rparr>"

lemma lease_frame_simps:
  assumes "lease_frame s s'"
  shows "ledger_entries s' = ledger_entries s" "ledger_seq s' = ledger_seq s"
    "counters s' = counters s" "coord_applied s' = coord_applied s"
proof -
  have *: "s' = s\<lparr>leases := leases s'\<rparr>" using assms by (simp add: lease_frame_def)
  show "ledger_entries s' = ledger_entries s" by (subst *) simp
  show "ledger_seq s' = ledger_seq s" by (subst *) simp
  show "counters s' = counters s" by (subst *) simp
  show "coord_applied s' = coord_applied s" by (subst *) simp
qed

lemma lease_frame_update [simp]: "lease_frame s (s\<lparr>leases := rows\<rparr>)" "lease_frame s s"
  by (simp_all add: lease_frame_def)

text \<open>The leases of a key.\<close>

definition held_at :: "string \<times> string \<times> string \<Rightarrow> coordination \<Rightarrow> (lease_row \<times> sql_value) list" where
  "held_at k s = filter (\<lambda>(l, _). (lease_owner l, lease_resource l, lease_key l) = k) (leases s)"

lemma lease_at_held: "lease_at owner resource key l \<longleftrightarrow> (lease_owner l, lease_resource l, lease_key l) = (owner, resource, key)"
  by (simp add: lease_at_def)

lemma acquire_tx_Ok:
  assumes "acquire_tx t1 t2 owner resource key payload slots ttl holder s = Inr (s', out)"
  defines "live \<equiv> filter (\<lambda>(l, _). \<not> (lease_at owner resource key l \<and> expires_at l \<le> now t1)) (leases s)"
  shows "lease_frame s s'"
    and "leases s' = live \<or> (\<exists>l. out = Held \<and> leases s' = live @ [(l, payload)]
           \<and> lease_pk l = (owner, resource, key, holder) \<and> lease_pk l \<notin> lease_pk ` fst ` set live
           \<and> int (length (filter (\<lambda>(l, _). lease_at owner resource key l) live)) < slots)"
proof -
  show "lease_frame s s'" using assms(1)
    by (auto simp: acquire_tx_def Let_def res_simps split: if_splits option.splits)
  show "leases s' = live \<or> (\<exists>l. out = Held \<and> leases s' = live @ [(l, payload)]
           \<and> lease_pk l = (owner, resource, key, holder) \<and> lease_pk l \<notin> lease_pk ` fst ` set live
           \<and> int (length (filter (\<lambda>(l, _). lease_at owner resource key l) live)) < slots)"
    using assms(1) unfolding acquire_tx_def Let_def live_def [symmetric]
    by (auto simp: res_simps lease_pk_def image_image split: if_splits option.splits)
qed

lemma record_applied_Ok:
  "record_applied owner effect_id outcome s = Inr s' \<longleftrightarrow>
     (case effect_id of
        None \<Rightarrow> s' = s
      | Some i \<Rightarrow> (owner, i) \<notin> applied_pk ` set (coord_applied s)
          \<and> s' = s\<lparr>coord_applied := coord_applied s @ [(owner, i, outcome)]\<rparr>)"
  by (cases effect_id) (auto simp: record_applied_def res_simps)

lemma append_tx_Ok:
  assumes "append_tx prot t1 t2 owner ledger index part payload author keep effect_id s = Inr (s', seq)"
  obtains e row u v where "mint_seq owner ledger (ledger_seq s) = Inr (ledger_seq s', seq)"
    and "entry_pk e = (owner, ledger, seq)" and "row = (e, u, v)" and "entry_partition e = index"
    and "seal prot ''coord.ledger.partition'' [owner, ledger, show_int seq] part = Inr v"
    and "seal prot ''coord.ledger.body'' [owner, ledger, show_int seq] payload = Inr u"
    and "entry_pk e \<notin> entry_pk ` fst ` set (ledger_entries s)"
    and "\<exists>p. ledger_entries s' = filter p (ledger_entries s @ [row])"
    and "leases s' = leases s" and "counters s' = counters s"
    and "coord_applied s' = coord_applied s @ (case effect_id of None \<Rightarrow> [] | Some i \<Rightarrow> [(owner, i, show_int seq)])"
    and "\<forall>i. effect_id = Some i \<longrightarrow> (owner, i) \<notin> applied_pk ` set (coord_applied s)"
proof -
  have all: "\<exists>p. xs = filter p xs" for xs :: "'x list"
    by (rule exI [of _ "\<lambda>_. True"]) simp
  from assms obtain seqs u v entries s1 where sealed:
      "seal prot ''coord.ledger.partition'' [owner, ledger, show_int seq] part = Inr v"
      "seal prot ''coord.ledger.body'' [owner, ledger, show_int seq] payload = Inr u"
    and mint: "mint_seq owner ledger (ledger_seq s) = Inr (seqs, seq)"
    and ins: "sql_insert (entry_pk \<circ> fst)
         (\<lparr>entry_owner = owner, entry_ledger = ledger, entry_partition = index,
           entry_seq = seq, payload_json = [], appended_by = author, appended_at = now t1\<rparr>, u, v)
         (ledger_entries s) = Inr entries"
    and s1: "s1 = s\<lparr>ledger_seq := seqs, ledger_entries :=
        (case datetime t2 (''-'' @ show_int keep @ '' seconds'') of
                   None \<Rightarrow> entries
                 | Some horizon \<Rightarrow>
                     filter (\<lambda>(e, _). \<not> (entry_owner e = owner \<and> entry_ledger e = ledger
                       \<and> appended_at e \<le> horizon)) entries)\<rparr>"
    and rec: "record_applied owner effect_id (show_int seq) s1 = Inr s'"
    by (auto simp: append_tx_def res_simps Let_def)
  have kept: "\<exists>p. ledger_entries s1 = filter p entries"
    using all [of entries] by (cases "datetime t2 (''-'' @ show_int keep @ '' seconds'')") (auto simp: s1)
  let ?e = "\<lparr>entry_owner = owner, entry_ledger = ledger, entry_partition = index,
      entry_seq = seq, payload_json = [], appended_by = author, appended_at = now t1\<rparr>"
  show thesis
  proof (rule that [of ?e "(?e, u, v)" u v])
    show "\<exists>p. ledger_entries s' = filter p (ledger_entries s @ [(?e, u, v)])"
      using kept ins rec by (auto simp: res_simps record_applied_Ok split: option.splits)
  qed (use mint sealed ins rec in \<open>auto simp: res_simps record_applied_Ok s1 entry_pk_def image_image
      split: option.splits\<close>)
qed

text \<open>
  What a counter has charged in a period: a missing row or a row of another period counts as 0.
\<close>

definition used_in :: "(counter_row \<times> sql_value) list \<Rightarrow> string \<times> string \<times> string \<Rightarrow> string \<Rightarrow> int" where
  "used_in rows k period =
     (case List.find (\<lambda>r. (counter_pk \<circ> fst) r = k) rows of
        None \<Rightarrow> 0
      | Some r \<Rightarrow> if counter_period (fst r) = period then consumed (fst r) else 0)"

definition charged :: "int \<Rightarrow> int \<Rightarrow> int \<Rightarrow> bool" where
  "charged used amount cap \<longleftrightarrow> 0 \<le> amount \<and> used + amount \<le> cap \<and> in_i64 (used + amount)"

lemma counter_pk_upd [simp]:
  "counter_pk (c\<lparr>consumed := n, counter_period := q\<rparr>) = counter_pk c" "counter_pk (c\<lparr>consumed := n\<rparr>) = counter_pk c"
  by (simp_all add: counter_pk_def)

text \<open>The current row of a counter: it is there, in the period, with what was used in it.\<close>

lemma counter_roll_pk:
  "(counter_pk \<circ> fst) ((fst r)\<lparr>consumed := n, counter_period := q\<rparr>, snd r) = (counter_pk \<circ> fst) r"
  by simp

lemma find_sat: "List.find P xs = Some x \<Longrightarrow> P x"
  by (induction xs) (auto split: if_splits)

lemma find_current_counter:
  "List.find (\<lambda>r. (counter_pk \<circ> fst) r = k') (current_counter k payload period rows) =
     (case List.find (\<lambda>r. (counter_pk \<circ> fst) r = k') rows of
        None \<Rightarrow> if k' = k then Some (\<lparr>counter_owner = fst k, counter_name = fst (snd k),
            counter_key = snd (snd k), consumed = 0, counter_period = period\<rparr>, payload) else None
      | Some r \<Rightarrow> Some (if k' = k \<and> counter_period (fst r) \<noteq> period
            then ((fst r)\<lparr>consumed := 0, counter_period := period\<rparr>, snd r) else r))"
proof (cases "List.find (\<lambda>r. (counter_pk \<circ> fst) r = k') rows")
  case None
  then show ?thesis
    unfolding current_counter_def find_update [where pk = "counter_pk \<circ> fst", OF counter_roll_pk]
      find_insert_or_ignore [where pk = "counter_pk \<circ> fst"] None
    by (cases k) (auto simp: counter_pk_def)
next
  case (Some r)
  then have "counter_pk (fst r) = k'" by (auto dest: find_sat)
  then show ?thesis
    unfolding current_counter_def find_update [where pk = "counter_pk \<circ> fst", OF counter_roll_pk]
      find_insert_or_ignore [where pk = "counter_pk \<circ> fst"] Some
    by auto
qed

lemma find_current:
  "\<exists>r. List.find (\<lambda>r. (counter_pk \<circ> fst) r = k) (current_counter k payload period rows) = Some r
     \<and> counter_period (fst r) = period \<and> consumed (fst r) = used_in rows k period"
  unfolding find_current_counter used_in_def by (simp split: option.split)

lemma find_current_other:
  "k' \<noteq> k \<Longrightarrow> List.find (\<lambda>r. (counter_pk \<circ> fst) r = k') (current_counter k payload period rows) =
     List.find (\<lambda>r. (counter_pk \<circ> fst) r = k') rows"
  unfolding find_current_counter by (simp split: option.split)

lemma find_charge:
  "List.find (\<lambda>r. (counter_pk \<circ> fst) r = k') (charge_counter k amount rows) =
     map_option (\<lambda>r. if k' = k then ((fst r)\<lparr>consumed := consumed (fst r) + amount\<rparr>, snd r) else r)
       (List.find (\<lambda>r. (counter_pk \<circ> fst) r = k') rows)"
  unfolding charge_counter_def
  by (subst find_update [where pk = "counter_pk \<circ> fst"]) (auto dest: find_sat intro!: map_option_cong)

lemma current_counter_distinct [simp]:
  "distinct (map (counter_pk \<circ> fst) rows) \<Longrightarrow> distinct (map (counter_pk \<circ> fst) (current_counter k payload period rows))"
  unfolding current_counter_def by (subst sql_update_pk) simp_all

lemma charge_counter_distinct [simp]:
  "distinct (map (counter_pk \<circ> fst) rows) \<Longrightarrow> distinct (map (counter_pk \<circ> fst) (charge_counter k amount rows))"
  unfolding charge_counter_def by (subst sql_update_pk) simp_all

lemma consume_tx_eq:
  "consume_tx owner counter key payload amount cap period effect_id s =
     (let k = (owner, counter, key);
          used = used_in (counters s) k period;
          current = current_counter k payload period (counters s);
          (rows, out) = (if charged used amount cap
             then (charge_counter k amount current, ConsumeOk (wrap_i64 (cap - (used + amount))))
             else (current, ConsumeOver (max (wrap_i64 (cap - used)) 0)))
      in and_then (record_applied owner effect_id (format_consume_outcome out) (s\<lparr>counters := rows\<rparr>))
           (\<lambda>s'. Ok (s', out)))"
proof -
  obtain r where "List.find (\<lambda>r. (counter_pk \<circ> fst) r = (owner, counter, key))
      (current_counter (owner, counter, key) payload period (counters s)) = Some r"
    "consumed (fst r) = used_in (counters s) (owner, counter, key) period"
    using find_current by blast
  then show ?thesis
    by (simp add: consume_tx_def Let_def query_row_def checked_add_i64_def charged_def)
qed

lemma consume_tx_Ok:
  fixes owner counter key s period
  defines "k \<equiv> (owner, counter, key)"
  defines "used \<equiv> used_in (counters s) k period"
  assumes "consume_tx owner counter key payload amount cap period effect_id s = Inr (s', out)"
  shows "out = (if charged used amount cap then ConsumeOk (wrap_i64 (cap - (used + amount)))
           else ConsumeOver (max (wrap_i64 (cap - used)) 0))"
    and "used_in (counters s') k period = used + (if charged used amount cap then amount else 0)"
    and "\<And>k' q. k' \<noteq> k \<Longrightarrow> used_in (counters s') k' q = used_in (counters s) k' q"
    and "record_applied owner effect_id (format_consume_outcome out) (s\<lparr>counters := counters s'\<rparr>) = Inr s'"
    and "distinct (map (counter_pk \<circ> fst) (counters s)) \<Longrightarrow> distinct (map (counter_pk \<circ> fst) (counters s'))"
proof -
  define current where "current = current_counter k payload period (counters s)"
  define rows where "rows = (if charged used amount cap then charge_counter k amount current else current)"
  from assms(3) show out: "out = (if charged used amount cap then ConsumeOk (wrap_i64 (cap - (used + amount)))
      else ConsumeOver (max (wrap_i64 (cap - used)) 0))"
    unfolding consume_tx_eq k_def [symmetric] used_def by (auto simp: Let_def res_simps split: if_splits)
  from assms(3) have rec: "record_applied owner effect_id (format_consume_outcome out) (s\<lparr>counters := rows\<rparr>) = Inr s'"
    unfolding consume_tx_eq k_def [symmetric] used_def [symmetric] out rows_def current_def
    by (auto simp: Let_def res_simps split: if_splits)
  then have counters: "counters s' = rows" by (auto simp: record_applied_Ok split: option.splits)
  with rec show "record_applied owner effect_id (format_consume_outcome out) (s\<lparr>counters := counters s'\<rparr>) = Inr s'"
    by simp
  obtain r where r: "List.find (\<lambda>r. (counter_pk \<circ> fst) r = k) current = Some r"
    "counter_period (fst r) = period" "consumed (fst r) = used"
    unfolding current_def used_def using find_current by blast
  then show "used_in (counters s') k period = used + (if charged used amount cap then amount else 0)"
    by (simp add: counters rows_def used_in_def find_charge [simplified])
  show "used_in (counters s') k' q = used_in (counters s) k' q" if "k' \<noteq> k" for k' q
    using that find_current_other [OF that, of payload period "counters s"]
    by (simp add: counters rows_def used_in_def find_charge [simplified] current_def option.map_ident)
  show "distinct (map (counter_pk \<circ> fst) (counters s)) \<Longrightarrow> distinct (map (counter_pk \<circ> fst) (counters s'))"
    by (simp add: counters rows_def current_def)
qed

section \<open>Every call keeps the invariant\<close>

lemma keys_ok_lease:
  "keys_ok s \<Longrightarrow> distinct (map (lease_pk \<circ> fst) rows) \<Longrightarrow> keys_ok (s\<lparr>leases := rows\<rparr>)"
  by (simp add: keys_ok_def)

lemma coord_ok_leases:
  "coord_ok s \<Longrightarrow> distinct (map (lease_pk \<circ> fst) rows) \<Longrightarrow> coord_ok (s\<lparr>leases := rows\<rparr>)"
  by (simp add: coord_ok_def keys_ok_lease seqs_ok_def counters_ok_def)

lemma coord_ok_distinct_leases: "coord_ok s \<Longrightarrow> distinct (map (lease_pk \<circ> fst) (leases s))"
  by (simp add: coord_ok_def keys_ok_def)

lemma acquire_tx_ok:
  assumes "coord_ok s" and "acquire_tx t1 t2 owner resource key payload slots ttl holder s = Inr (s', out)"
  shows "coord_ok s'"
proof -
  note tx = acquire_tx_Ok [OF assms(2)]
  have "distinct (map (lease_pk \<circ> fst) (leases s'))"
    using tx(2) filter_distinct_pk [OF coord_ok_distinct_leases [OF assms(1)]]
    by (auto simp: image_image)
  moreover have "s' = s\<lparr>leases := leases s'\<rparr>" using tx(1) by (simp add: lease_frame_def)
  ultimately show ?thesis using coord_ok_leases [OF assms(1)] by metis
qed

lemma append_tx_ok:
  assumes "coord_ok s"
    and "append_tx prot t1 t2 owner ledger index part payload author keep effect_id s = Inr (s', seq)"
  shows "coord_ok s'"
  using assms(2)
proof (rule append_tx_Ok)
  fix e row u v
  assume mint: "mint_seq owner ledger (ledger_seq s) = Inr (ledger_seq s', seq)"
    and e: "entry_pk e = (owner, ledger, seq)" and row: "row = (e, u, v)"
    and fresh: "entry_pk e \<notin> entry_pk ` fst ` set (ledger_entries s)"
    and kept: "\<exists>p. ledger_entries s' = filter p (ledger_entries s @ [row])"
    and frame: "leases s' = leases s" "counters s' = counters s"
    and applied: "coord_applied s' = coord_applied s @ (case effect_id of None \<Rightarrow> [] | Some i \<Rightarrow> [(owner, i, show_int seq)])"
    and new: "\<forall>i. effect_id = Some i \<longrightarrow> (owner, i) \<notin> applied_pk ` set (coord_applied s)"
  note mints = mint_seq_Ok [OF mint]
  have seqs: "seqs_ok s" and keys: "keys_ok s" using assms(1) by (simp_all add: coord_ok_def)
  have base: "1 \<le> next_seq_of (ledger_seq s) k" "in_i64 (next_seq_of (ledger_seq s) k)" for k
    using seqs unfolding seqs_ok_def by blast+
  have "keys_ok s'"
    using keys kept fresh row frame applied new mints(4)
    by (auto simp: keys_ok_def image_image split: option.splits intro!: filter_distinct_pk)
  moreover have "seqs_ok s'"
    unfolding seqs_ok_def
  proof (intro conjI allI impI)
    fix k show "1 \<le> next_seq_of (ledger_seq s') k" "in_i64 (next_seq_of (ledger_seq s') k)"
      using base [of k] base [of "(owner, ledger)"] mints(1,2) mints(3) [of k]
      by (cases "k = (owner, ledger)"; simp)+
  next
    fix x assume "x \<in> fst ` set (ledger_entries s')"
    moreover have "fst ` set (ledger_entries s') \<subseteq> fst ` insert row (set (ledger_entries s))"
      by (rule image_mono) (use kept in \<open>auto split: if_splits\<close>)
    ultimately consider "x = e" | "x \<in> fst ` set (ledger_entries s)" using row by auto
    then have "1 \<le> entry_seq x \<and> entry_seq x < next_seq_of (ledger_seq s') (entry_owner x, entry_ledger x)"
    proof cases
      case 1
      with e mints(3) base show ?thesis by (simp add: entry_pk_def mints(1))
    next
      case 2
      then have "1 \<le> entry_seq x" "entry_seq x < next_seq_of (ledger_seq s) (entry_owner x, entry_ledger x)"
        using seqs unfolding seqs_ok_def by blast+
      then show ?thesis using mints(3) [of "(entry_owner x, entry_ledger x)"] mints(1) by auto
    qed
    then show "1 \<le> entry_seq x" "entry_seq x < next_seq_of (ledger_seq s') (entry_owner x, entry_ledger x)"
      by blast+
  qed
  moreover have "counters_ok s'" using assms(1) frame by (simp add: coord_ok_def counters_ok_def)
  ultimately show ?thesis by (simp add: coord_ok_def)
qed

lemma counters_okD:
  "counters_ok s \<Longrightarrow> List.find (\<lambda>r. (counter_pk \<circ> fst) r = k) (counters s) = Some r \<Longrightarrow>
     0 \<le> consumed (fst r) \<and> in_i64 (consumed (fst r))"
  unfolding counters_ok_def by blast

lemma used_in_ok: "counters_ok s \<Longrightarrow> 0 \<le> used_in (counters s) k period \<and> in_i64 (used_in (counters s) k period)"
  using counters_okD [of s k]
  by (cases "List.find (\<lambda>r. (counter_pk \<circ> fst) r = k) (counters s)")
    (auto simp: used_in_def in_i64_def i64_min_def i64_max_def)

lemma in_i64_0 [simp]: "in_i64 0"
  by (simp add: in_i64_def i64_min_def i64_max_def)

lemma current_counter_ok: "counters_ok s \<Longrightarrow> counters_ok (s\<lparr>counters := current_counter k payload period (counters s)\<rparr>)"
  unfolding counters_ok_def by (auto simp: find_current_counter [simplified] split: option.splits if_splits) blast+

lemma charge_counter_ok:
  assumes "counters_ok s" and "0 \<le> amount"
    and "\<And>r. List.find (\<lambda>r. (counter_pk \<circ> fst) r = k) (counters s) = Some r \<Longrightarrow> in_i64 (consumed (fst r) + amount)"
  shows "counters_ok (s\<lparr>counters := charge_counter k amount (counters s)\<rparr>)"
  unfolding counters_ok_def
proof (intro allI impI)
  fix k' r assume "List.find (\<lambda>r. (counter_pk \<circ> fst) r = k') (counters (s\<lparr>counters := charge_counter k amount (counters s)\<rparr>)) = Some r"
  then obtain q where q: "List.find (\<lambda>r. (counter_pk \<circ> fst) r = k') (counters s) = Some q"
    "r = (if k' = k then ((fst q)\<lparr>consumed := consumed (fst q) + amount\<rparr>, snd q) else q)"
    by (auto simp: find_charge [simplified])
  then show "0 \<le> consumed (fst r) \<and> in_i64 (consumed (fst r))"
    using counters_okD [OF assms(1) q(1)] assms(2) assms(3) [of q] by auto
qed

lemma record_applied_ok: "coord_ok s \<Longrightarrow> record_applied owner effect_id outcome s = Inr s' \<Longrightarrow> coord_ok s'"
  by (auto simp: record_applied_Ok coord_ok_def keys_ok_def seqs_ok_def counters_ok_def split: option.splits)

lemma coord_ok_counters:
  "coord_ok s \<Longrightarrow> distinct (map (counter_pk \<circ> fst) rows) \<Longrightarrow> counters_ok (s\<lparr>counters := rows\<rparr>) \<Longrightarrow> coord_ok (s\<lparr>counters := rows\<rparr>)"
  by (simp add: coord_ok_def keys_ok_def seqs_ok_def)

lemma consume_tx_ok:
  assumes "coord_ok s"
    and "consume_tx owner counter key payload amount cap period effect_id s = Inr (s', out)"
  shows "coord_ok s'"
proof -
  let ?k = "(owner, counter, key)"
  let ?used = "used_in (counters s) ?k period"
  let ?current = "current_counter ?k payload period (counters s)"
  define rows where "rows = (if charged ?used amount cap then charge_counter ?k amount ?current else ?current)"
  have rec: "\<exists>out. record_applied owner effect_id out (s\<lparr>counters := rows\<rparr>) = Inr s'"
    using assms(2) unfolding consume_tx_eq rows_def by (auto simp: Let_def res_simps split: if_splits)
  have "distinct (map (counter_pk \<circ> fst) rows)"
    using assms(1) by (auto simp: rows_def coord_ok_def keys_ok_def)
  moreover have "counters_ok (s\<lparr>counters := rows\<rparr>)"
  proof -
    have cur: "counters_ok (s\<lparr>counters := ?current\<rparr>)"
      using assms(1) by (simp add: coord_ok_def current_counter_ok)
    obtain r where "List.find (\<lambda>r. (counter_pk \<circ> fst) r = ?k) ?current = Some r" "consumed (fst r) = ?used"
      using find_current by blast
    then show ?thesis
      using cur charge_counter_ok [OF cur, of amount ?k] by (auto simp: rows_def charged_def)
  qed
  ultimately show ?thesis using rec coord_ok_counters [OF assms(1)] record_applied_ok by blast
qed

lemma record_applied_frame:
  assumes "record_applied owner effect_id outcome s = Inr s'"
  shows "leases s' = leases s" and "ledger_seq s' = ledger_seq s" and "ledger_entries s' = ledger_entries s"
    and "\<exists>new. coord_applied s' = coord_applied s @ new"
  using assms by (auto simp: record_applied_Ok split: option.splits)

lemma consume_tx_frame:
  assumes "consume_tx owner counter key payload amount cap period effect_id s = Inr (s', out)"
  shows "leases s' = leases s" and "ledger_seq s' = ledger_seq s" and "ledger_entries s' = ledger_entries s"
    and "\<exists>new. coord_applied s' = coord_applied s @ new"
  using record_applied_frame [OF consume_tx_Ok(4) [OF assms]] by simp_all

lemma sql_update_expires_distinct:
  "distinct (map (lease_pk \<circ> fst) rows) \<Longrightarrow>
     distinct (map (lease_pk \<circ> fst) (sql_update p (\<lambda>(l, q). (l\<lparr>expires_at := x\<rparr>, q)) rows))"
  by (subst sql_update_pk) (auto simp: lease_pk_def)

lemmas coord_ok_sub_leases = coord_ok_leases [OF _ filter_distinct_pk [OF coord_ok_distinct_leases]]

text \<open>
  What any call can do to the state: nothing, fewer leases, a later expiry, or one of the three
  transactions.
\<close>

lemma perform_keeps:
  assumes base: "P s"
    and sub: "\<And>p. P (s\<lparr>leases := filter p (leases s)\<rparr>)"
    and renew: "\<And>p x. P (s\<lparr>leases := sql_update p (\<lambda>(l, q). (l\<lparr>expires_at := x\<rparr>, q)) (leases s)\<rparr>)"
    and acquire: "\<And>t1 t2 owner resource key payload slots ttl holder s' out.
      op = Acquire t1 t2 owner resource key slots ttl holder \<Longrightarrow>
      seal prot ''coord.lease.key'' [normalized_owner owner, resource,
        key_index prot ''coord.lease.key'' (normalized_owner owner) resource key, holder] key = Inr payload \<Longrightarrow>
      acquire_tx t1 t2 (normalized_owner owner) resource
        (key_index prot ''coord.lease.key'' (normalized_owner owner) resource key) payload slots ttl holder s
        = Inr (s', out) \<Longrightarrow> P s'"
    and append: "\<And>t1 t2 owner ledger index part payload author keep effect_id s' seq.
      index = key_index prot ''coord.ledger.partition'' owner ledger part \<Longrightarrow>
      append_tx prot t1 t2 owner ledger index part payload author keep effect_id s = Inr (s', seq) \<Longrightarrow> P s'"
    and consume: "\<And>owner counter key payload amount cap period effect_id s' out.
      op = Consume owner counter key amount cap period effect_id \<Longrightarrow>
      seal prot ''coord.counter.key'' [normalized_owner owner, counter,
        key_index prot ''coord.counter.key'' (normalized_owner owner) counter key] key = Inr payload \<Longrightarrow>
      consume_tx (normalized_owner owner) counter
        (key_index prot ''coord.counter.key'' (normalized_owner owner) counter key) payload amount cap period
        effect_id s = Inr (s', out) \<Longrightarrow> P s'"
  shows "P (perform prot s op)"
proof (cases op)
  case (Acquire t1 t2 owner resource key slots ttl holder)
  show ?thesis unfolding Acquire perform.simps try_acquire_for_owner_def
    by (rule retained_keeps [of P, OF base]) (auto simp: Let_def base Acquire split: sum.splits
        intro!: transaction_keeps [of P, OF base] intro: acquire [OF Acquire])
next
  case (Release owner resource key holder)
  show ?thesis unfolding Release perform.simps release_for_owner_def
    by (rule retained_keeps [of P, OF base]) (simp add: Let_def sql_delete_def sub)
next
  case (Renew t owner resource key ttl holder)
  show ?thesis unfolding Renew perform.simps renew_lease_for_owner_def
    by (rule retained_keeps [of P, OF base]) (auto simp: Let_def base renew split: option.splits)
next
  case (ReleaseAll holder)
  show ?thesis unfolding ReleaseAll perform.simps release_all_for_holder_def
    by (rule retained_keeps [of P, OF base]) (simp add: sql_delete_def sub)
next
  case (Append t1 t2 owner ledger part payload author keep effect_id)
  show ?thesis unfolding Append perform.simps append_for_owner_marked_def
    by (rule retained_keeps [of P, OF base]) (auto simp: Let_def base split: option.splits
        intro!: transaction_keeps [of P, OF base] intro: append [OF refl])
next
  case (Consume owner counter key amount cap period effect_id)
  show ?thesis unfolding Consume perform.simps consume_for_owner_marked_def
    by (rule retained_keeps [of P, OF base]) (auto simp: Let_def base split: option.splits sum.splits
        intro!: transaction_keeps [of P, OF base] intro: consume [OF Consume])
qed

lemma perform_ok: "coord_ok s \<Longrightarrow> coord_ok (perform prot s op)"
  by (rule perform_keeps [where P = coord_ok])
    (auto intro: acquire_tx_ok append_tx_ok consume_tx_ok coord_ok_sub_leases coord_ok_leases
      sql_update_expires_distinct coord_ok_distinct_leases)

lemma run_ops_ok: "coord_ok s \<Longrightarrow> coord_ok (run_ops prot s ops)"
  by (induction ops arbitrary: s) (simp_all add: perform_ok)

section \<open>The contract of the trait\<close>

text \<open>The key an acquire asks a slot of, and the counter a consume charges.\<close>

fun grant :: "payload_protection option \<Rightarrow> coord_op \<Rightarrow> ((string \<times> string \<times> string) \<times> int) option" where
  "grant prot (Acquire t1 t2 owner resource key slots ttl holder) =
     Some ((normalized_owner owner, resource,
            key_index prot ''coord.lease.key'' (normalized_owner owner) resource key), slots)"
| "grant prot _ = None"

fun limit :: "payload_protection option \<Rightarrow> coord_op \<Rightarrow> ((string \<times> string \<times> string) \<times> int) option" where
  "limit prot (Consume owner counter key amount cap period effect_id) =
     Some ((normalized_owner owner, counter,
            key_index prot ''coord.counter.key'' (normalized_owner owner) counter key), cap)"
| "limit prot _ = None"

definition holders_at :: "string \<times> string \<times> string \<Rightarrow> coordination \<Rightarrow> string list" where
  "holders_at k s = map (lease_holder \<circ> fst) (held_at k s)"

lemma holders_distinct: "coord_ok s \<Longrightarrow> distinct (holders_at k s)"
proof -
  assume "coord_ok s"
  then have "distinct (map (lease_pk \<circ> fst) (held_at k s))"
    unfolding held_at_def by (intro filter_distinct_pk coord_ok_distinct_leases)
  moreover have "map (lease_pk \<circ> fst) (held_at k s) =
      map (\<lambda>h. (fst k, fst (snd k), snd (snd k), h)) (holders_at k s)"
    by (auto simp: holders_at_def held_at_def lease_pk_def)
  ultimately show ?thesis by (simp add: distinct_map)
qed

lemma held_filter: "length (filter p (filter q xs)) \<le> length (filter p xs)"
  by (induction xs) auto

lemma held_sub: "length (held_at k (s\<lparr>leases := filter p (leases s)\<rparr>)) \<le> length (held_at k s)"
  by (cases s) (simp only: held_at_def coordination.select_convs coordination.update_convs held_filter)

lemma held_update_expires:
  "length (held_at k (s\<lparr>leases := sql_update p (\<lambda>(l, q). (l\<lparr>expires_at := x\<rparr>, q)) (leases s)\<rparr>)) = length (held_at k s)"
proof -
  have "length (filter (\<lambda>(l, _). (lease_owner l, lease_resource l, lease_key l) = k)
      (sql_update p (\<lambda>(l, q). (l\<lparr>expires_at := x\<rparr>, q)) rows)) =
    length (filter (\<lambda>(l, _). (lease_owner l, lease_resource l, lease_key l) = k) rows)" for rows
    by (induction rows) (auto simp: sql_update_def)
  then show ?thesis by (simp add: held_at_def)
qed

lemma acquire_tx_held:
  assumes "acquire_tx t1 t2 owner resource key payload slots ttl holder s = Inr (s', out)"
  shows "length (held_at k s') \<le> length (held_at k s)
    \<or> k = (owner, resource, key) \<and> int (length (held_at k s')) \<le> slots"
proof -
  define live where "live = filter (\<lambda>(l, _). \<not> (lease_at owner resource key l \<and> expires_at l \<le> now t1)) (leases s)"
  have sub: "length (filter (\<lambda>(l, _). (lease_owner l, lease_resource l, lease_key l) = k) live) \<le> length (held_at k s)"
    unfolding live_def held_at_def by (rule held_filter)
  from acquire_tx_Ok(2) [OF assms, folded live_def] show ?thesis
  proof (elim disjE exE conjE)
    assume "leases s' = live"
    then show ?thesis using sub by (simp add: held_at_def)
  next
    fix l assume "leases s' = live @ [(l, payload)]" "lease_pk l = (owner, resource, key, holder)"
      "int (length (filter (\<lambda>(l, _). lease_at owner resource key l) live)) < slots"
    then show ?thesis using sub by (auto simp: held_at_def lease_at_held lease_pk_def)
  qed
qed

lemma perform_held:
  "length (held_at k (perform prot s op)) \<le> length (held_at k s)
    \<or> (\<exists>n. grant prot op = Some (k, n) \<and> int (length (held_at k (perform prot s op))) \<le> n)"
proof (rule perform_keeps [where P = "\<lambda>s'. length (held_at k s') \<le> length (held_at k s)
    \<or> (\<exists>n. grant prot op = Some (k, n) \<and> int (length (held_at k s')) \<le> n)"])
  fix t1 t2 owner resource key payload slots ttl holder s' out
  assume op: "op = Acquire t1 t2 owner resource key slots ttl holder"
    and tx: "acquire_tx t1 t2 (normalized_owner owner) resource
        (key_index prot ''coord.lease.key'' (normalized_owner owner) resource key) payload slots ttl holder s
        = Inr (s', out)"
  show "length (held_at k s') \<le> length (held_at k s)
    \<or> (\<exists>n. grant prot op = Some (k, n) \<and> int (length (held_at k s')) \<le> n)"
    using acquire_tx_held [OF tx, of k] by (auto simp: op)
next
  fix t1 t2 owner ledger index part payload author keep effect_id s' seq
  assume "append_tx prot t1 t2 owner ledger index part payload author keep effect_id s = Inr (s', seq)"
  then have "leases s' = leases s" by (rule append_tx_Ok)
  then show "length (held_at k s') \<le> length (held_at k s)
    \<or> (\<exists>n. grant prot op = Some (k, n) \<and> int (length (held_at k s')) \<le> n)" by (simp add: held_at_def)
next
  fix owner counter key payload amount cap period effect_id s' out
  assume "consume_tx (normalized_owner owner) counter
        (key_index prot ''coord.counter.key'' (normalized_owner owner) counter key) payload amount cap period
        effect_id s = Inr (s', out)"
  then have "leases s' = leases s" by (rule consume_tx_frame)
  then show "length (held_at k s') \<le> length (held_at k s)
    \<or> (\<exists>n. grant prot op = Some (k, n) \<and> int (length (held_at k s')) \<le> n)" by (simp add: held_at_def)
qed (simp_all add: held_update_expires held_sub)

interpretation native_slots: slot_bounded "perform prot" coord_ok holders_at "grant prot" for prot
proof (unfold_locales, goal_cases)
  case (3 k s op)
  then show ?case using perform_held [of k prot s op] by (simp add: holders_at_def)
qed (simp_all add: perform_ok holders_distinct)

lemma perform_position: "next_seq_of (ledger_seq s) k \<le> next_seq_of (ledger_seq (perform prot s op)) k"
proof (rule perform_keeps [where P = "\<lambda>s'. next_seq_of (ledger_seq s) k \<le> next_seq_of (ledger_seq s') k"])
  fix t1 t2 owner ledger index part payload author keep effect_id s' seq
  assume "append_tx prot t1 t2 owner ledger index part payload author keep effect_id s = Inr (s', seq)"
  then have "mint_seq owner ledger (ledger_seq s) = Inr (ledger_seq s', seq)" by (rule append_tx_Ok)
  then show "next_seq_of (ledger_seq s) k \<le> next_seq_of (ledger_seq s') k"
    using mint_seq_Ok(1,3) [of owner ledger "ledger_seq s" "ledger_seq s'" seq] by simp
qed (auto dest: acquire_tx_Ok(1) consume_tx_frame simp: lease_frame_simps)

interpretation native_positions: monotone_positions "perform prot" "\<lambda>s. next_seq_of (ledger_seq s)" for prot
  by unfold_locales (rule perform_position)

lemma perform_applied: "\<exists>new. coord_applied (perform prot s op) = coord_applied s @ new"
proof (rule perform_keeps [where P = "\<lambda>s'. \<exists>new. coord_applied s' = coord_applied s @ new"])
  fix t1 t2 owner ledger index part payload author keep effect_id s' seq
  assume "append_tx prot t1 t2 owner ledger index part payload author keep effect_id s = Inr (s', seq)"
  then show "\<exists>new. coord_applied s' = coord_applied s @ new" by (rule append_tx_Ok) blast
qed (auto dest: acquire_tx_Ok(1) consume_tx_frame simp: lease_frame_simps)

text \<open>What a counter stands at, whatever the period of its row.\<close>

definition consumed_of :: "coordination \<Rightarrow> string \<times> string \<times> string \<Rightarrow> int" where
  "consumed_of s k =
     (case List.find (\<lambda>r. (counter_pk \<circ> fst) r = k) (counters s) of None \<Rightarrow> 0 | Some r \<Rightarrow> consumed (fst r))"

lemma consume_tx_counters:
  assumes "consume_tx owner counter key payload amount cap period effect_id s = Inr (s', out)"
  shows "counters s' = (let k = (owner, counter, key); current = current_counter k payload period (counters s)
    in if charged (used_in (counters s) k period) amount cap then charge_counter k amount current else current)"
  using assms unfolding consume_tx_eq
  by (auto simp: Let_def res_simps record_applied_Ok split: if_splits option.splits)

lemma consume_tx_consumed:
  assumes tx: "consume_tx owner counter key payload amount cap period effect_id s = Inr (s', out)"
  shows "consumed_of s' k = consumed_of s k \<or> consumed_of s' k = 0 \<or> k = (owner, counter, key) \<and> consumed_of s' k \<le> cap"
proof (cases "k = (owner, counter, key)")
  case True
  obtain r where r: "List.find (\<lambda>r. (counter_pk \<circ> fst) r = k) (current_counter k payload period (counters s)) = Some r"
    "consumed (fst r) = used_in (counters s) k period"
    using find_current by blast
  have "used_in (counters s) k period = consumed_of s k \<or> used_in (counters s) k period = 0"
    by (simp add: used_in_def consumed_of_def split: option.split)
  then show ?thesis
    using r True by (auto simp: consumed_of_def consume_tx_counters [OF tx] Let_def charged_def find_charge [simplified])
next
  case False
  then show ?thesis
    using find_current_other [OF False, of payload period "counters s"]
    by (simp add: consumed_of_def consume_tx_counters [OF tx] Let_def find_charge [simplified] option.map_ident)
qed

lemma perform_consumed:
  "consumed_of (perform prot s op) k = consumed_of s k \<or> consumed_of (perform prot s op) k = 0
    \<or> (\<exists>n. limit prot op = Some (k, n) \<and> consumed_of (perform prot s op) k \<le> n)"
proof (rule perform_keeps [where P = "\<lambda>s'. consumed_of s' k = consumed_of s k \<or> consumed_of s' k = 0
    \<or> (\<exists>n. limit prot op = Some (k, n) \<and> consumed_of s' k \<le> n)"])
  fix owner counter key payload amount cap period effect_id s' out
  assume "op = Consume owner counter key amount cap period effect_id"
    and tx: "consume_tx (normalized_owner owner) counter
        (key_index prot ''coord.counter.key'' (normalized_owner owner) counter key) payload amount cap period
        effect_id s = Inr (s', out)"
  then show "consumed_of s' k = consumed_of s k \<or> consumed_of s' k = 0
    \<or> (\<exists>n. limit prot op = Some (k, n) \<and> consumed_of s' k \<le> n)"
    using consume_tx_consumed [OF tx, of k] by auto
next
  fix t1 t2 owner ledger index part payload author keep effect_id s' seq
  assume "append_tx prot t1 t2 owner ledger index part payload author keep effect_id s = Inr (s', seq)"
  then have "counters s' = counters s" by (rule append_tx_Ok)
  then show "consumed_of s' k = consumed_of s k \<or> consumed_of s' k = 0
    \<or> (\<exists>n. limit prot op = Some (k, n) \<and> consumed_of s' k \<le> n)" by (simp add: consumed_of_def)
qed (auto dest: acquire_tx_Ok(1) simp: lease_frame_simps consumed_of_def)

interpretation native_counters: capped "perform prot" consumed_of "limit prot" for prot
  by unfold_locales (rule perform_consumed)

section \<open>Replays and results\<close>

text \<open>A retained operation that returned a value ran its transaction to that value.\<close>

lemma transaction_Ok: "snd (transaction body s) = Inr a \<longleftrightarrow> (\<exists>s'. body s = Inr (s', a) \<and> transaction body s = (s', Inr a))"
  by (auto simp: transaction_def split: sum.splits)

lemma acquire_Ok:
  assumes "snd (try_acquire_for_owner prot t1 t2 owner resource key slots ttl holder s) = Inr out"
  shows "\<exists>payload. acquire_tx t1 t2 (normalized_owner owner) resource
      (key_index prot ''coord.lease.key'' (normalized_owner owner) resource key) payload slots ttl holder s
      = Inr (fst (try_acquire_for_owner prot t1 t2 owner resource key slots ttl holder s), out)"
  using retained_Ok [OF assms [unfolded try_acquire_for_owner_def]]
  by (auto simp: try_acquire_for_owner_def Let_def transaction_Ok split: sum.splits)

lemma append_Ok:
  assumes "snd (append_for_owner_marked prot t1 t2 owner ledger part payload author keep effect_id s) = Inr seq"
  defines "s' \<equiv> fst (append_for_owner_marked prot t1 t2 owner ledger part payload author keep effect_id s)"
  shows "(\<exists>i r. effect_id = Some i \<and> s' = s \<and> applied_outcome (normalized_owner owner) i s = Some r \<and> parse_i64 r = Some seq)
    \<or> append_tx prot t1 t2 (normalized_owner owner) ledger
        (key_index prot ''coord.ledger.partition'' (normalized_owner owner) ledger part) part payload author keep
        effect_id s = Inr (s', seq)"
  using retained_Ok [OF assms(1) [unfolded append_for_owner_marked_def]]
  by (auto simp: s'_def append_for_owner_marked_def Let_def transaction_Ok split: option.splits)

lemma consume_Ok:
  assumes "snd (consume_for_owner_marked prot owner counter key amount cap period effect_id s) = Inr out"
  defines "s' \<equiv> fst (consume_for_owner_marked prot owner counter key amount cap period effect_id s)"
  shows "(\<exists>i r. effect_id = Some i \<and> s' = s \<and> applied_outcome (normalized_owner owner) i s = Some r \<and> parse_consume_outcome r = Some out)
    \<or> (\<exists>payload. consume_tx (normalized_owner owner) counter
        (key_index prot ''coord.counter.key'' (normalized_owner owner) counter key) payload amount cap period
        effect_id s = Inr (s', out))"
  using retained_Ok [OF assms(1) [unfolded consume_for_owner_marked_def]]
  by (auto simp: s'_def consume_for_owner_marked_def Let_def transaction_Ok split: option.splits sum.splits)

lemma append_minted:
  assumes "snd (append_for_owner_marked prot t1 t2 owner ledger part payload author keep None s) = Inr seq"
  shows "seq = next_seq_of (ledger_seq s) (normalized_owner owner, ledger)"
    and "next_seq_of (ledger_seq (fst (append_for_owner_marked prot t1 t2 owner ledger part payload author keep None s)))
      (normalized_owner owner, ledger) = seq + 1"
proof -
  have "mint_seq (normalized_owner owner) ledger (ledger_seq s) = Inr (ledger_seq
      (fst (append_for_owner_marked prot t1 t2 owner ledger part payload author keep None s)), seq)"
    using append_Ok [OF assms] by (auto elim: append_tx_Ok)
  then show "seq = next_seq_of (ledger_seq s) (normalized_owner owner, ledger)"
    and "next_seq_of (ledger_seq (fst (append_for_owner_marked prot t1 t2 owner ledger part payload author keep None s)))
      (normalized_owner owner, ledger) = seq + 1"
    using mint_seq_Ok(1,3) by simp_all
qed

lemma find_row: "List.find (\<lambda>r. seq_pk r = (a, b)) rows = Some r \<Longrightarrow> (a, b, snd (snd r)) \<in> set rows"
  by (induction rows) (auto split: if_splits)

lemma replay_unchanged:
  assumes "fst (publish s) = s" and "\<And>a. snd (publish s) = Inr a \<Longrightarrow> a = out"
    and "prot = None \<Longrightarrow> snd (publish s) = Inr out"
  shows "fst (retained prot publish s) = s \<and> (\<forall>a. snd (retained prot publish s) = Inr a \<longrightarrow> a = out)
    \<and> (prot = None \<longrightarrow> snd (retained prot publish s) = Inr out)"
proof (intro conjI allI impI)
  show "fst (retained prot publish s) = s" using retained_state [of prot publish s] assms(1) by presburger
  show "a = out" if "snd (retained prot publish s) = Inr a" for a
    using retained_Ok [OF that] assms(2) by blast
  show "snd (retained prot publish s) = Inr out" if "prot = None" using assms(3) that by simp
qed

text \<open>The applied table: a recorded outcome stays, and a new one is found.\<close>

lemma applied_outcome_run:
  assumes "applied_outcome owner i s = Some r"
  shows "applied_outcome owner i (run_ops prot s ops) = Some r"
  using assms
proof (induction ops arbitrary: s)
  case (Cons op ops)
  obtain new where "coord_applied (perform prot s op) = coord_applied s @ new" using perform_applied by blast
  then have "applied_outcome owner i (perform prot s op) = Some r"
    using Cons.prems by (auto simp: applied_outcome_def find_append)
  then show ?case using Cons.IH by simp
qed simp

lemma applied_outcome_new:
  "(owner, i) \<notin> applied_pk ` set rows \<Longrightarrow> coord_applied s = rows @ [(owner, i, r)] \<Longrightarrow> applied_outcome owner i s = Some r"
  by (simp add: applied_outcome_def find_append find_pk_None [symmetric, of "(owner, i)" applied_pk])

lemma record_applied_new: "record_applied owner (Some i) r s = Inr s' \<Longrightarrow> applied_outcome owner i s' = Some r"
  by (auto simp: record_applied_Ok intro: applied_outcome_new)

lemma parse_format_outcome:
  "(case out of ConsumeOk r \<Rightarrow> in_i64 r | ConsumeOver r \<Rightarrow> in_i64 r) \<Longrightarrow>
     parse_consume_outcome (format_consume_outcome out) = Some out"
  by (cases out) (simp_all add: parse_consume_outcome_def format_consume_outcome_def)

lemma in_i64_max0: "in_i64 i \<Longrightarrow> in_i64 (max i 0)"
  by (auto simp: max_def)

lemma consume_records:
  assumes "snd (consume_for_owner_marked prot owner counter key amount cap period (Some i) s) = Inr out"
  shows "\<exists>r. applied_outcome (normalized_owner owner) i
        (fst (consume_for_owner_marked prot owner counter key amount cap period (Some i) s)) = Some r
      \<and> parse_consume_outcome r = Some out"
  using consume_Ok [OF assms]
proof (elim disjE exE conjE)
  fix payload
  assume tx: "consume_tx (normalized_owner owner) counter
        (key_index prot ''coord.counter.key'' (normalized_owner owner) counter key) payload amount cap period
        (Some i) s = Inr (fst (consume_for_owner_marked prot owner counter key amount cap period (Some i) s), out)"
  have "case out of ConsumeOk r \<Rightarrow> in_i64 r | ConsumeOver r \<Rightarrow> in_i64 r"
    using consume_tx_Ok(1) [OF tx] by (auto intro: in_i64_max0 split: if_splits)
  then show ?thesis
    using record_applied_new [OF consume_tx_Ok(4) [OF tx]] parse_format_outcome by blast
qed auto

lemma append_records:
  assumes "coord_ok s"
    and "snd (append_for_owner_marked prot t1 t2 owner ledger part payload author keep (Some i) s) = Inr seq"
  shows "\<exists>r. applied_outcome (normalized_owner owner) i
        (fst (append_for_owner_marked prot t1 t2 owner ledger part payload author keep (Some i) s)) = Some r
      \<and> parse_i64 r = Some seq"
  using append_Ok [OF assms(2)]
proof (elim disjE exE conjE)
  let ?s' = "fst (append_for_owner_marked prot t1 t2 owner ledger part payload author keep (Some i) s)"
  assume tx: "append_tx prot t1 t2 (normalized_owner owner) ledger
        (key_index prot ''coord.ledger.partition'' (normalized_owner owner) ledger part) part payload author keep
        (Some i) s = Inr (?s', seq)"
  show ?thesis
  proof (rule append_tx_Ok [OF tx])
    assume "mint_seq (normalized_owner owner) ledger (ledger_seq s) = Inr (ledger_seq ?s', seq)"
    then have "in_i64 seq"
      using mint_seq_Ok(1) assms(1) unfolding coord_ok_def seqs_ok_def by blast
    moreover assume "coord_applied ?s' = coord_applied s @ (case Some i of None \<Rightarrow> [] | Some i \<Rightarrow> [(normalized_owner owner, i, show_int seq)])"
      and "\<forall>j. Some i = Some j \<longrightarrow> (normalized_owner owner, j) \<notin> applied_pk ` set (coord_applied s)"
    ultimately show ?thesis by (auto intro!: applied_outcome_new)
  qed
qed auto

section \<open>The claims\<close>

text \<open>A clock for the concrete calls below.\<close>

definition sample_clock :: clock where
  "sample_clock = \<lparr>now = ''2030-01-01 00:00:00'', datetime = (\<lambda>m. Some ''2030-01-01 00:01:00'')\<rparr>"

lemmas append_eval = Let_def append_for_owner_marked_def transaction_def append_tx_def mint_seq_def query_row_def
  sql_insert_or_ignore_def sql_update_def sql_insert_def record_applied_def applied_outcome_def
  sample_clock_def empty_coordination_def in_i64_def i64_min_def i64_max_def entry_pk_def

text \<open>
  C11. Leases are never oversubscribed. Over any sequence of calls from an empty store, plaintext or
  protected, if every acquire on a key asks for the same number of slots, then the key's holders
  are distinct and there are at most that many of them.
\<close>

theorem leases_never_exceed_slots:
  assumes "\<forall>op n. op \<in> set ops \<longrightarrow> grant prot op = Some (k, n) \<longrightarrow> n = slots"
  shows "distinct (holders_at k (run_ops prot empty_coordination ops))
    \<and> int (length (holders_at k (run_ops prot empty_coordination ops))) \<le> max 0 slots"
proof -
  have "holders_at k empty_coordination = []" by (simp add: holders_at_def held_at_def empty_coordination_def)
  then show ?thesis
    using native_slots.run_bounded [of ops prot k slots empty_coordination] assms
      native_slots.held_distinct [OF run_ops_ok [OF coord_ok_empty], of k prot ops] by auto
qed

theorem leases_never_exceed_slots_witness:
  "int (length (holders_at (normalized_owner ''ci'', ''db'', ''main'')
     (run_ops None empty_coordination
       [Acquire sample_clock sample_clock ''ci'' ''db'' ''main'' 1 60 ''a'',
        Acquire sample_clock sample_clock ''ci'' ''db'' ''main'' 1 60 ''b'']))) \<le> 1"
  using leases_never_exceed_slots [of
      "[Acquire sample_clock sample_clock ''ci'' ''db'' ''main'' 1 60 ''a'',
        Acquire sample_clock sample_clock ''ci'' ''db'' ''main'' 1 60 ''b'']"
      None "(normalized_owner ''ci'', ''db'', ''main'')" 1] by simp

text \<open>
  C13. A counter stays within its cap. Over any sequence of calls from an empty store, if every consume
  on a counter names the same cap, what the counter stands at is never negative and never above it
  (nor above 0 for a negative cap).
\<close>

theorem counter_never_exceeds_cap:
  assumes "\<forall>op n. op \<in> set ops \<longrightarrow> limit prot op = Some (k, n) \<longrightarrow> n = cap"
  shows "0 \<le> consumed_of (run_ops prot empty_coordination ops) k
    \<and> consumed_of (run_ops prot empty_coordination ops) k \<le> max 0 cap"
proof -
  have "consumed_of empty_coordination k = 0" by (simp add: consumed_of_def empty_coordination_def)
  then have "consumed_of (run_ops prot empty_coordination ops) k \<le> max 0 cap"
    using assms by (intro native_counters.run_capped) auto
  moreover have "counters_ok (run_ops prot empty_coordination ops)"
    using run_ops_ok [OF coord_ok_empty, of prot ops] by (simp add: coord_ok_def)
  then have "0 \<le> consumed_of (run_ops prot empty_coordination ops) k"
    unfolding consumed_of_def by (auto dest: counters_okD split: option.splits)
  ultimately show ?thesis by blast
qed

theorem counter_never_exceeds_cap_witness:
  "consumed_of (run_ops None empty_coordination
     [Consume ''ci'' ''tokens'' ''day'' 3 5 ''p1'' None, Consume ''ci'' ''tokens'' ''day'' 3 5 ''p1'' None])
     (normalized_owner ''ci'', ''tokens'', ''day'') \<le> 5"
  using counter_never_exceeds_cap [of
      "[Consume ''ci'' ''tokens'' ''day'' 3 5 ''p1'' None, Consume ''ci'' ''tokens'' ''day'' 3 5 ''p1'' None]"
      None "(normalized_owner ''ci'', ''tokens'', ''day'')" 5] by simp

definition sample_held :: coordination where
  "sample_held = empty_coordination\<lparr>leases := [(\<lparr>lease_owner = normalized_owner ''ci'', lease_resource = ''db'',
     lease_key = ''main'', lease_holder = ''a'', acquired_at = ''2029-12-31 23:59:59'',
     expires_at = ''2030-01-01 00:00:30''\<rparr>, Text ''main'')]\<rparr>"

lemma acquire_tx_cases:
  assumes "acquire_tx t1 t2 owner resource key payload slots ttl holder s = Inr (s', out)"
    and "live = filter (\<lambda>(l, _). \<not> (lease_at owner resource key l \<and> expires_at l \<le> now t1)) (leases s)"
    and "here = filter (\<lambda>(l, _). lease_at owner resource key l) live"
  shows "out = Held \<and> leases s' = live \<and> holder \<in> set (map (lease_holder \<circ> fst) here)
    \<or> (\<exists>l. out = Held \<and> leases s' = live @ [(l, payload)] \<and> lease_pk l = (owner, resource, key, holder))
    \<or> out = Contended (map (lease_holder \<circ> fst) (sort_key (acquired_at \<circ> fst) here)) \<and> leases s' = live
      \<and> holder \<notin> set (map (lease_holder \<circ> fst) here) \<and> slots \<le> int (length here)"
  using assms(1) unfolding acquire_tx_def Let_def assms(2,3) [symmetric]
  by (auto simp: res_simps lease_pk_def filter_empty_conv image_iff Bex_def split: if_splits option.splits)

text \<open>
  What an acquire answers. It answers held exactly when the caller is among the key's holders
  afterwards; it answers contended with exactly the holders there are, at least as many as slots.
  It removes no lease of another key and none that is still live, and what it leaves on the key
  from before is live.
\<close>

theorem acquire_outcome_exact:
  assumes "snd (try_acquire_for_owner prot t1 t2 owner resource key slots ttl holder s) = Inr out"
    and "s' = fst (try_acquire_for_owner prot t1 t2 owner resource key slots ttl holder s)"
    and "k = (normalized_owner owner, resource, key_index prot ''coord.lease.key'' (normalized_owner owner) resource key)"
  shows "(out = Held \<longleftrightarrow> holder \<in> set (holders_at k s'))
    \<and> (\<forall>hs. out = Contended hs \<longrightarrow> mset hs = mset (holders_at k s') \<and> slots \<le> int (length hs))
    \<and> (\<forall>l v. (l, v) \<in> set (leases s) \<longrightarrow> (lease_owner l, lease_resource l, lease_key l) \<noteq> k \<or> now t1 < expires_at l
         \<longrightarrow> (l, v) \<in> set (leases s'))
    \<and> (\<forall>l v. (l, v) \<in> set (leases s) \<longrightarrow> (l, v) \<in> set (held_at k s') \<longrightarrow> now t1 < expires_at l \<or> lease_holder l = holder)"
proof -
  define live where "live = filter (\<lambda>(l, _). \<not> (lease_at (fst k) resource (snd (snd k)) l \<and> expires_at l \<le> now t1)) (leases s)"
  define here where "here = filter (\<lambda>(l, _). lease_at (fst k) resource (snd (snd k)) l) live"
  obtain payload where tx: "acquire_tx t1 t2 (fst k) resource (snd (snd k)) payload slots ttl holder s = Inr (s', out)"
    using acquire_Ok [OF assms(1)] assms(2,3) by auto
  have at: "lease_at (fst k) resource (snd (snd k)) l \<longleftrightarrow> (lease_owner l, lease_resource l, lease_key l) = k" for l
    using assms(3) by (auto simp: lease_at_def)
  have held: "held_at k s' = filter (\<lambda>(l, _). lease_at (fst k) resource (snd (snd k)) l) (leases s')"
    by (simp add: held_at_def at)
  have live: "(l, v) \<in> set live \<longleftrightarrow> (l, v) \<in> set (leases s)
      \<and> ((lease_owner l, lease_resource l, lease_key l) \<noteq> k \<or> now t1 < expires_at l)" for l v
    by (auto simp: live_def at)
  from acquire_tx_cases [OF tx live_def here_def] show ?thesis
  proof (elim disjE exE conjE)
    assume "out = Held" "leases s' = live" "holder \<in> set (map (lease_holder \<circ> fst) here)"
    then show ?thesis using live by (auto simp: holders_at_def held here_def at)
  next
    fix l assume "out = Held" "leases s' = live @ [(l, payload)]" "lease_pk l = (fst k, resource, snd (snd k), holder)"
    moreover from this have "(lease_owner l, lease_resource l, lease_key l) = k" "lease_holder l = holder"
      using assms(3) by (auto simp: lease_pk_def)
    moreover from calculation have "held_at k s' = here @ [(l, payload)]" by (simp add: held here_def at)
    ultimately show ?thesis using live by (auto simp: holders_at_def here_def at)
  next
    assume "out = Contended (map (lease_holder \<circ> fst) (sort_key (acquired_at \<circ> fst) here))" "leases s' = live"
      "holder \<notin> set (map (lease_holder \<circ> fst) here)" "slots \<le> int (length here)"
    moreover from this have "held_at k s' = here" by (simp add: held here_def)
    ultimately show ?thesis using live by (auto simp: holders_at_def here_def at)
  qed
qed

theorem acquire_outcome_exact_witness:
  "snd (try_acquire_for_owner None sample_clock sample_clock ''ci'' ''db'' ''main'' 1 60 ''b'' sample_held) = Inr (Contended [''a''])
   \<and> holders_at (normalized_owner ''ci'', ''db'', ''main'')
       (fst (try_acquire_for_owner None sample_clock sample_clock ''ci'' ''db'' ''main'' 1 60 ''b'' sample_held)) = [''a'']"
proof -
  have "snd (try_acquire_for_owner None sample_clock sample_clock ''ci'' ''db'' ''main'' 1 60 ''b'' sample_held) = Inr (Contended [''a''])"
    by (simp add: Let_def try_acquire_for_owner_def acquire_tx_def transaction_def sample_held_def
        empty_coordination_def sample_clock_def lease_at_def)
  with acquire_outcome_exact [OF this refl refl] show ?thesis by simp
qed

text \<open>
  C12. A consume is charged once. Once a call for an effect returned an outcome, then after any further
  calls a repetition for that effect and owner changes nothing, and what it returns is that
  outcome; in a plaintext store it does return it.
\<close>

theorem consume_applied_once:
  assumes "snd (consume_for_owner_idempotent prot owner counter key amount cap period i s) = Inr out"
    and "s2 = run_ops prot (fst (consume_for_owner_idempotent prot owner counter key amount cap period i s)) ops"
    and "normalized_owner owner' = normalized_owner owner"
  shows "fst (consume_for_owner_idempotent prot owner' counter' key' amount' cap' period' i s2) = s2
    \<and> (\<forall>out'. snd (consume_for_owner_idempotent prot owner' counter' key' amount' cap' period' i s2) = Inr out' \<longrightarrow> out' = out)
    \<and> (prot = None \<longrightarrow> snd (consume_for_owner_idempotent prot owner' counter' key' amount' cap' period' i s2) = Inr out)"
proof -
  obtain r where "applied_outcome (normalized_owner owner) i s2 = Some r" "parse_consume_outcome r = Some out"
    using consume_records [OF assms(1) [unfolded consume_for_owner_idempotent_def]] applied_outcome_run
    unfolding assms(2) consume_for_owner_idempotent_def by blast
  then show ?thesis
    unfolding consume_for_owner_idempotent_def consume_for_owner_marked_def
    by (intro replay_unchanged) (auto simp: Let_def assms(3) split: sum.splits)
qed

theorem consume_applied_once_witness:
  "snd (consume_for_owner_idempotent None ''ci'' ''tokens'' ''day'' 3 5 ''p1'' ''e1'' empty_coordination) = Inr (ConsumeOk 2)
   \<and> snd (consume_for_owner_idempotent None ''ci'' ''tokens'' ''day'' 3 5 ''p1'' ''e1''
        (run_ops None (fst (consume_for_owner_idempotent None ''ci'' ''tokens'' ''day'' 3 5 ''p1'' ''e1'' empty_coordination))
          [Consume ''ci'' ''tokens'' ''day'' 2 5 ''p1'' None])) = Inr (ConsumeOk 2)"
proof -
  have "snd (consume_for_owner_idempotent None ''ci'' ''tokens'' ''day'' 3 5 ''p1'' ''e1'' empty_coordination) = Inr (ConsumeOk 2)"
    by (simp add: Let_def consume_for_owner_idempotent_def consume_for_owner_marked_def transaction_def consume_tx_eq
        applied_outcome_def empty_coordination_def used_in_def charged_def record_applied_def sql_insert_def
        in_i64_def i64_min_def i64_max_def)
  with consume_applied_once [OF this refl refl] show ?thesis by blast
qed

text \<open>
  An append is written once, in the same sense: a repetition for an effect that was answered with
  a sequence number changes nothing and returns that number.
\<close>

theorem append_applied_once:
  assumes "coord_ok s"
    and "snd (append_for_owner_idempotent prot t1 t2 owner ledger part payload author keep i s) = Inr seq"
    and "s2 = run_ops prot (fst (append_for_owner_idempotent prot t1 t2 owner ledger part payload author keep i s)) ops"
    and "normalized_owner owner' = normalized_owner owner"
  shows "fst (append_for_owner_idempotent prot t3 t4 owner' ledger' part' payload' author' keep' i s2) = s2
    \<and> (\<forall>seq'. snd (append_for_owner_idempotent prot t3 t4 owner' ledger' part' payload' author' keep' i s2) = Inr seq' \<longrightarrow> seq' = seq)
    \<and> (prot = None \<longrightarrow> snd (append_for_owner_idempotent prot t3 t4 owner' ledger' part' payload' author' keep' i s2) = Inr seq)"
proof -
  obtain r where "applied_outcome (normalized_owner owner) i s2 = Some r" "parse_i64 r = Some seq"
    using append_records [OF assms(1) assms(2) [unfolded append_for_owner_idempotent_def]] applied_outcome_run
    unfolding assms(3) append_for_owner_idempotent_def by blast
  then show ?thesis
    unfolding append_for_owner_idempotent_def append_for_owner_marked_def
    by (intro replay_unchanged) (auto simp: Let_def assms(4))
qed

theorem append_applied_once_witness:
  "snd (append_for_owner_idempotent None sample_clock sample_clock ''ci'' ''log'' ''p'' ''{}'' ''w'' 60 ''e1'' empty_coordination) = Inr 1
   \<and> snd (append_for_owner_idempotent None sample_clock sample_clock ''ci'' ''log'' ''p'' ''{}'' ''w'' 60 ''e1''
        (run_ops None (fst (append_for_owner_idempotent None sample_clock sample_clock ''ci'' ''log'' ''p'' ''{}'' ''w'' 60 ''e1'' empty_coordination))
          [Append sample_clock sample_clock ''ci'' ''log'' ''p'' ''{}'' ''w'' 60 None])) = Inr 1"
proof -
  have "snd (append_for_owner_idempotent None sample_clock sample_clock ''ci'' ''log'' ''p'' ''{}'' ''w'' 60 ''e1'' empty_coordination) = Inr 1"
    by (simp add: append_for_owner_idempotent_def append_eval)
  with append_applied_once [OF coord_ok_empty this refl refl] show ?thesis by blast
qed

text \<open>
  C14. Sequence numbers only grow. Of two appends to one ledger with any calls between them, the later
  gets the larger number; the first number a ledger gives is at least 1, and the ledger's
  position right after an append is the number after it.
\<close>

theorem ledger_sequence_grows:
  assumes "s = run_ops prot empty_coordination before"
    and "snd (append_for_owner prot t1 t2 owner ledger part payload author keep s) = Inr q"
    and "s1 = fst (append_for_owner prot t1 t2 owner ledger part payload author keep s)"
    and "snd (append_for_owner prot t3 t4 owner' ledger part' payload' author' keep' (run_ops prot s1 ops)) = Inr q'"
    and "normalized_owner owner' = normalized_owner owner"
  shows "1 \<le> q \<and> q < q' \<and> (normalized_owner owner, ledger, q + 1) \<in> set (ledger_positions_impl s1)"
proof -
  let ?k = "(normalized_owner owner, ledger)"
  have q: "q = next_seq_of (ledger_seq s) ?k" "next_seq_of (ledger_seq s1) ?k = q + 1"
    using append_minted [OF assms(2) [unfolded append_for_owner_def]] assms(3)
    by (simp_all add: append_for_owner_def)
  have "q' = next_seq_of (ledger_seq (run_ops prot s1 ops)) ?k"
    using append_minted(1) [OF assms(4) [unfolded append_for_owner_def]] assms(5) by simp
  then have "q < q'" using q native_positions.run_position [of s1 ?k prot ops] by simp
  moreover have "seqs_ok s" using run_ops_ok [OF coord_ok_empty, of prot before] assms(1) by (simp add: coord_ok_def)
  then have "1 \<le> q" using q(1) by (simp add: seqs_ok_def)
  moreover have "(normalized_owner owner, ledger, q + 1) \<in> set (ledger_seq s1)"
    using q(2) \<open>1 \<le> q\<close> by (auto simp: next_seq_of_def dest: find_row split: option.splits)
  ultimately show ?thesis by (simp add: ledger_positions_impl_def)
qed

theorem ledger_sequence_grows_witness:
  "(normalized_owner ''ci'', ''log'', 2) \<in> set (ledger_positions_impl
     (fst (append_for_owner None sample_clock sample_clock ''ci'' ''log'' ''p'' ''{}'' ''w'' 60 empty_coordination)))"
proof -
  let ?s1 = "fst (append_for_owner None sample_clock sample_clock ''ci'' ''log'' ''p'' ''{}'' ''w'' 60 empty_coordination)"
  have first: "empty_coordination = run_ops None empty_coordination []"
    "snd (append_for_owner None sample_clock sample_clock ''ci'' ''log'' ''p'' ''{}'' ''w'' 60 empty_coordination) = Inr 1"
    by (simp_all add: append_for_owner_def append_eval)
  have "snd (append_for_owner None sample_clock sample_clock ''ci'' ''log'' ''p'' ''{}'' ''w'' 60 (run_ops None ?s1 [])) = Inr 2"
    by (simp add: append_for_owner_def append_eval)
  from ledger_sequence_grows [OF first refl this refl] show ?thesis by simp
qed

text \<open>
  What a consume answers, without an effect id, for a cap that is not negative: it charges exactly
  when the amount is not negative and the total stays within the cap, and it reports what remains
  of the cap in the period. No arithmetic wraps.
\<close>

theorem consume_outcome_exact:
  assumes "coord_ok s" and "0 \<le> cap" and "in_i64 cap" and "in_i64 amount"
    and "snd (consume_for_owner prot owner counter key amount cap period s) = Inr out"
    and "k = (normalized_owner owner, counter, key_index prot ''coord.counter.key'' (normalized_owner owner) counter key)"
    and "s' = fst (consume_for_owner prot owner counter key amount cap period s)"
  shows "if 0 \<le> amount \<and> used_in (counters s) k period + amount \<le> cap
    then out = ConsumeOk (cap - (used_in (counters s) k period + amount))
      \<and> used_in (counters s') k period = used_in (counters s) k period + amount
    else out = ConsumeOver (max (cap - used_in (counters s) k period) 0)
      \<and> used_in (counters s') k period = used_in (counters s) k period"
proof -
  let ?used = "used_in (counters s) k period"
  obtain payload where "consume_tx (fst k) counter (snd (snd k)) payload amount cap period None s = Inr (s', out)"
    using consume_Ok [OF assms(5) [unfolded consume_for_owner_def]] assms(6,7)
    by (auto simp: consume_for_owner_def)
  note tx = consume_tx_Ok(1,2) [OF this]
  have k: "(fst k, counter, snd (snd k)) = k" using assms(6) by simp
  have "0 \<le> ?used \<and> in_i64 ?used"
    using assms(1) by (intro used_in_ok) (simp add: coord_ok_def)
  then have "charged ?used amount cap \<longleftrightarrow> 0 \<le> amount \<and> ?used + amount \<le> cap"
    and "0 \<le> amount \<and> ?used + amount \<le> cap \<Longrightarrow> in_i64 (cap - (?used + amount))" and "in_i64 (cap - ?used)"
    using assms(2-4) by (auto simp: charged_def in_i64_def i64_min_def i64_max_def)
  then show ?thesis using tx unfolding k by simp
qed

theorem consume_outcome_exact_witness:
  "used_in (counters (fst (consume_for_owner None ''ci'' ''tokens'' ''day'' 3 5 ''p1'' empty_coordination)))
     (normalized_owner ''ci'', ''tokens'', ''day'') ''p1'' = 3"
proof -
  have "snd (consume_for_owner None ''ci'' ''tokens'' ''day'' 3 5 ''p1'' empty_coordination) = Inr (ConsumeOk 2)"
    by (simp add: Let_def consume_for_owner_def consume_for_owner_marked_def transaction_def consume_tx_eq
        empty_coordination_def used_in_def charged_def record_applied_def in_i64_def i64_min_def i64_max_def)
  moreover have "(0::int) \<le> 5" "in_i64 5" "in_i64 3" by (simp_all add: in_i64_def i64_min_def i64_max_def)
  moreover have "used_in (counters empty_coordination) k q = 0" for k q
    by (simp add: used_in_def empty_coordination_def)
  ultimately show ?thesis
    using consume_outcome_exact [OF coord_ok_empty, of 5 3 None "''ci''" "''tokens''" "''day''" "''p1''"] by simp
qed

text \<open>
  The recorded form of an outcome reads back as the outcome, for every 64-bit remainder.
\<close>

theorem outcome_round_trip:
  "in_i64 r \<Longrightarrow> parse_consume_outcome (format_consume_outcome (ConsumeOk r)) = Some (ConsumeOk r)
    \<and> parse_consume_outcome (format_consume_outcome (ConsumeOver r)) = Some (ConsumeOver r)"
  by (simp add: parse_format_outcome)

theorem outcome_round_trip_witness:
  "parse_consume_outcome (format_consume_outcome (ConsumeOver (- 9223372036854775808)))
     = Some (ConsumeOver (- 9223372036854775808))"
  using outcome_round_trip [of "- 9223372036854775808"] by (simp add: in_i64_def i64_min_def i64_max_def)

end
