(* ===== verification/Coordination_DO.thy ===== *)
theory Coordination_DO
  imports Coordination_Props
begin

text \<open>
  The Durable Object implementation of the \<^verbatim>\<open>Coordination\<close> trait
  (\<^verbatim>\<open>whipplescript-host-do/src/do_store.rs\<close>, over the tables of
  \<^verbatim>\<open>whipplescript-host-do/worker/do_schema.sql\<close>), and its agreement with the native store.

  There is no transaction here: every statement takes effect as it runs, so an error leaves the
  statements before it in place. Rows hold their keys and payloads as text. \<^verbatim>\<open>sql_err\<close> wraps a failed
  statement as \<^verbatim>\<open>StoreError::Io\<close>. The SQL handle is taken to answer as the one over rusqlite in the
  same file does: the count of an \<^verbatim>\<open>execute\<close> is the number of rows it changed, and an integer cell is
  read back exactly. (The Worker's bridge carries cells as JSON numbers, which are exact up to
  \<open>2 ^ 53\<close>.) A cell that has left the integers is cast back to them, in both handles.
\<close>

section \<open>The store\<close>

record do_coordination =
  coord_leases :: "lease_row list"
  coord_ledger_entries :: "ledger_entry list"
  coord_ledger_seq :: "(string \<times> string \<times> int) list"
  coord_counters :: "counter_row list"

definition do_empty :: do_coordination where
  "do_empty = \<lparr>coord_leases = [], coord_ledger_entries = [], coord_ledger_seq = [], coord_counters = []\<rparr>"

definition do_norm_owner :: "string \<Rightarrow> string" where
  "do_norm_owner owner = (if blank owner then ''shared'' else owner)"

text \<open>
  The column \<^verbatim>\<open>next_seq\<close>. One above the largest 64-bit integer is, for SQLite, the REAL \<open>2 ^ 63\<close>;
  adding or subtracting one leaves that REAL as it is, and the handle's cast reads it as the largest
  integer.
\<close>

definition sqlite_succ :: "int \<Rightarrow> int" where
  "sqlite_succ n = (if n < i64_max then n + 1 else i64_max + 1)"

definition sqlite_pred :: "int \<Rightarrow> int" where
  "sqlite_pred n = (if n \<le> i64_max then n - 1 else n)"

definition cell_i64 :: "int \<Rightarrow> int" where
  "cell_i64 n = min n i64_max"


definition do_try_acquire_for_owner ::
  "clock \<Rightarrow> clock \<Rightarrow> string \<Rightarrow> string \<Rightarrow> string \<Rightarrow> int \<Rightarrow> int \<Rightarrow> string
    \<Rightarrow> do_coordination \<Rightarrow> do_coordination \<times> (acquire_outcome, store_error) result" where
  "do_try_acquire_for_owner t1 t2 owner resource key slots ttl_seconds holder s =
     (let owner = do_norm_owner owner;
          live = filter (\<lambda>l. \<not> (lease_at owner resource key l \<and> expires_at l \<le> now t1)) (coord_leases s);
          s1 = s\<lparr>coord_leases := live\<rparr>;
          already = length (filter (\<lambda>l. lease_at owner resource key l \<and> lease_holder l = holder) live);
          here = filter (lease_at owner resource key) live
      in if already > 0 then (s1, Ok Held)
         else if int (length here) < slots
         then (case datetime t2 (''+'' @ show_int ttl_seconds @ '' seconds'') of
                 None \<Rightarrow> (s1, Err (Io NotNullViolation))
               | Some expiry \<Rightarrow>
                   (case sql_insert lease_pk
                      \<lparr>lease_owner = owner, lease_resource = resource, lease_key = key,
                       lease_holder = holder, acquired_at = now t2, expires_at = expiry\<rparr> live of
                      Inl e \<Rightarrow> (s1, Err (Io e))
                    | Inr rows \<Rightarrow> (s1\<lparr>coord_leases := rows\<rparr>, Ok Held)))
         else (s1, Ok (Contended (map lease_holder (sort_key acquired_at here)))))"

definition do_release_for_owner ::
  "string \<Rightarrow> string \<Rightarrow> string \<Rightarrow> string \<Rightarrow> do_coordination \<Rightarrow> do_coordination \<times> (bool, store_error) result" where
  "do_release_for_owner owner resource key holder s =
     (let owner = do_norm_owner owner;
          (rows, changed) = sql_delete (\<lambda>l. lease_at owner resource key l \<and> lease_holder l = holder) (coord_leases s)
      in (s\<lparr>coord_leases := rows\<rparr>, Ok (changed \<ge> 1)))"

text \<open>A renewal: the update, then, when it changed a row, the read of its expiry.\<close>

definition do_renew_lease_for_owner ::
  "clock \<Rightarrow> string \<Rightarrow> string \<Rightarrow> string \<Rightarrow> int \<Rightarrow> string
    \<Rightarrow> do_coordination \<Rightarrow> do_coordination \<times> (string option, store_error) result" where
  "do_renew_lease_for_owner t owner resource key ttl_seconds holder s =
     (let owner = do_norm_owner owner;
          live = (\<lambda>l. lease_at owner resource key l \<and> lease_holder l = holder \<and> now t < expires_at l);
          changed = length (filter live (coord_leases s))
      in if changed = 0 then (s, Ok None)
         else (case datetime t (''+'' @ show_int ttl_seconds @ '' seconds'') of
                 None \<Rightarrow> (s, Err (Io NotNullViolation))
               | Some expiry \<Rightarrow>
                   (let rows = sql_update live (\<lambda>l. l\<lparr>expires_at := expiry\<rparr>) (coord_leases s)
                    in (s\<lparr>coord_leases := rows\<rparr>,
                        Ok (map_option expires_at
                          (List.find (\<lambda>l. lease_at owner resource key l \<and> lease_holder l = holder) rows))))))"

definition do_release_all_for_holder ::
  "string \<Rightarrow> do_coordination \<Rightarrow> do_coordination \<times> (nat, store_error) result" where
  "do_release_all_for_holder holder s =
     (let (rows, changed) = sql_delete (\<lambda>l. lease_holder l = holder) (coord_leases s)
      in (s\<lparr>coord_leases := rows\<rparr>, Ok changed))"

definition do_mint_seq ::
  "string \<Rightarrow> string \<Rightarrow> (string \<times> string \<times> int) list \<Rightarrow> (string \<times> string \<times> int) list \<times> int option" where
  "do_mint_seq owner ledger rows =
     (let rows = sql_insert_or_ignore seq_pk (owner, ledger, 1) rows;
          rows' = sql_update (\<lambda>r. seq_pk r = (owner, ledger)) (\<lambda>(o', l, n). (o', l, sqlite_succ n)) rows
      in (rows', map_option (\<lambda>(_, _, n). cell_i64 (sqlite_pred n)) (List.find (\<lambda>r. seq_pk r = (owner, ledger)) rows')))"

definition do_append_for_owner ::
  "clock \<Rightarrow> clock \<Rightarrow> string \<Rightarrow> string \<Rightarrow> string \<Rightarrow> string \<Rightarrow> string \<Rightarrow> int
    \<Rightarrow> do_coordination \<Rightarrow> do_coordination \<times> (int, store_error) result" where
  "do_append_for_owner t1 t2 owner ledger part payload author retain_seconds s =
     (let owner = do_norm_owner owner;
          (seqs, bumped) = do_mint_seq owner ledger (coord_ledger_seq s);
          s1 = s\<lparr>coord_ledger_seq := seqs\<rparr>
      in case bumped of
           None \<Rightarrow> (s1, Err (Fault ''coord_ledger_seq row'' ''missing immediately after the write that should have created it''))
         | Some seq \<Rightarrow>
             (case sql_insert entry_pk
                \<lparr>entry_owner = owner, entry_ledger = ledger, entry_partition = part, entry_seq = seq,
                 payload_json = payload, appended_by = author, appended_at = now t1\<rparr>
                (coord_ledger_entries s1) of
                Inl e \<Rightarrow> (s1, Err (Io e))
              | Inr entries \<Rightarrow>
                  (s1\<lparr>coord_ledger_entries :=
                     (case datetime t2 (''-'' @ show_int retain_seconds @ '' seconds'') of
                        None \<Rightarrow> entries
                      | Some horizon \<Rightarrow>
                          filter (\<lambda>e. \<not> (entry_owner e = owner \<and> entry_ledger e = ledger
                            \<and> appended_at e \<le> horizon)) entries)\<rparr>,
                   Ok seq)))"

text \<open>The counter's row is missing only if the insert before failed; the code then reads 0.\<close>

definition do_consume_for_owner ::
  "string \<Rightarrow> string \<Rightarrow> string \<Rightarrow> int \<Rightarrow> int \<Rightarrow> string
    \<Rightarrow> do_coordination \<Rightarrow> do_coordination \<times> (consume_outcome, store_error) result" where
  "do_consume_for_owner owner counter key amount cap period s =
     (let owner = do_norm_owner owner;
          k = (owner, counter, key);
          made = sql_insert_or_ignore counter_pk
            \<lparr>counter_owner = owner, counter_name = counter, counter_key = key, consumed = 0,
             counter_period = period\<rparr> (coord_counters s);
          current = sql_update (\<lambda>c. counter_pk c = k \<and> counter_period c \<noteq> period)
            (\<lambda>c. c\<lparr>consumed := 0, counter_period := period\<rparr>) made;
          s1 = s\<lparr>coord_counters := current\<rparr>;
          used = (case List.find (\<lambda>c. counter_pk c = k) current of None \<Rightarrow> 0 | Some c \<Rightarrow> consumed c);
          over = (s1, Ok (ConsumeOver (max (wrap_i64 (cap - used)) 0)))
      in case checked_add_i64 used amount of
           Some tot \<Rightarrow>
             if amount \<ge> 0 \<and> tot \<le> cap
             then (s1\<lparr>coord_counters := sql_update (\<lambda>c. counter_pk c = k)
                     (\<lambda>c. c\<lparr>consumed := consumed c + amount\<rparr>) current\<rparr>,
                   Ok (ConsumeOk (wrap_i64 (cap - tot))))
             else over
         | None \<Rightarrow> over)"

text \<open>The trait's defaults: the effect id is ignored where the host commits all writes together.\<close>

definition do_append_for_owner_idempotent ::
  "clock \<Rightarrow> clock \<Rightarrow> string \<Rightarrow> string \<Rightarrow> string \<Rightarrow> string \<Rightarrow> string \<Rightarrow> int \<Rightarrow> string
    \<Rightarrow> do_coordination \<Rightarrow> do_coordination \<times> (int, store_error) result" where
  "do_append_for_owner_idempotent t1 t2 owner ledger part payload author retain_seconds effect_id =
     do_append_for_owner t1 t2 owner ledger part payload author retain_seconds"

definition do_consume_for_owner_idempotent ::
  "string \<Rightarrow> string \<Rightarrow> string \<Rightarrow> int \<Rightarrow> int \<Rightarrow> string \<Rightarrow> string
    \<Rightarrow> do_coordination \<Rightarrow> do_coordination \<times> (consume_outcome, store_error) result" where
  "do_consume_for_owner_idempotent owner counter key amount cap period effect_id =
     do_consume_for_owner owner counter key amount cap period"




section \<open>The native store seen as this one\<close>

definition text_of :: "sql_value \<Rightarrow> string" where
  "text_of v = (case v of Text t \<Rightarrow> t | Blob b \<Rightarrow> b)"

definition entry_view :: "ledger_entry \<times> sql_value \<times> sql_value \<Rightarrow> ledger_entry" where
  "entry_view r = (fst r)\<lparr>payload_json := text_of (fst (snd r))\<rparr>"


lemma do_norm_owner_eq [simp]: "do_norm_owner = normalized_owner"
  by (simp add: fun_eq_iff do_norm_owner_def normalized_owner_def DEFAULT_COORDINATION_OWNER_def)









section \<open>Agreement, call by call\<close>























lemma lease_pk_expiry [simp]: "lease_pk (l\<lparr>expires_at := e\<rparr>) = lease_pk l"
  by (simp add: lease_pk_def)




lemma entry_view_pk [simp]: "entry_pk (entry_view r) = entry_pk (fst r)"
  "entry_owner (entry_view r) = entry_owner (fst r)" "entry_ledger (entry_view r) = entry_ledger (fst r)"
  "entry_partition (entry_view r) = entry_partition (fst r)" "appended_at (entry_view r) = appended_at (fst r)"
  by (simp_all add: entry_view_def entry_pk_def)






section \<open>Listings\<close>






section \<open>Runs\<close>

















section \<open>The slots of the Durable Object\<close>

fun do_perform :: "do_coordination \<Rightarrow> coord_op \<Rightarrow> do_coordination" where
  "do_perform s (Acquire t1 t2 owner resource key slots ttl holder) =
     fst (do_try_acquire_for_owner t1 t2 owner resource key slots ttl holder s)"
| "do_perform s (Release owner resource key holder) = fst (do_release_for_owner owner resource key holder s)"
| "do_perform s (Renew t owner resource key ttl holder) =
     fst (do_renew_lease_for_owner t owner resource key ttl holder s)"
| "do_perform s (ReleaseAll holder) = fst (do_release_all_for_holder holder s)"
| "do_perform s (Append t1 t2 owner ledger part payload author keep _) =
     fst (do_append_for_owner t1 t2 owner ledger part payload author keep s)"
| "do_perform s (Consume owner counter key amount cap period _) =
     fst (do_consume_for_owner owner counter key amount cap period s)"

definition do_holders :: "string \<times> string \<times> string \<Rightarrow> do_coordination \<Rightarrow> string list" where
  "do_holders k s = map lease_holder (filter (\<lambda>l. (lease_owner l, lease_resource l, lease_key l) = k) (coord_leases s))"

text \<open>What any call does to the leases.\<close>

lemma do_perform_leases:
  obtains (same) "coord_leases (do_perform s op) = coord_leases s"
  | (sub) p where "coord_leases (do_perform s op) = filter p (coord_leases s)"
  | (renewed) p x where "coord_leases (do_perform s op) = sql_update p (\<lambda>l. l\<lparr>expires_at := x\<rparr>) (coord_leases s)"
  | (granted) p l k n where "coord_leases (do_perform s op) = filter p (coord_leases s) @ [l]"
      and "lease_pk l \<notin> lease_pk ` set (filter p (coord_leases s))" and "grant None op = Some (k, n)"
      and "(lease_owner l, lease_resource l, lease_key l) = k"
      and "int (length (filter (\<lambda>l. (lease_owner l, lease_resource l, lease_key l) = k) (filter p (coord_leases s)))) < n"
proof (cases op)
  case (Acquire t1 t2 owner resource key slots ttl holder)
  define live where "live = filter (\<lambda>l. \<not> (lease_at (normalized_owner owner) resource key l \<and> expires_at l \<le> now t1)) (coord_leases s)"
  have "coord_leases (do_perform s op) = live \<or> (\<exists>l. coord_leases (do_perform s op) = live @ [l] \<and> lease_pk l \<notin> lease_pk ` set live
      \<and> (lease_owner l, lease_resource l, lease_key l) = (normalized_owner owner, resource, key)
      \<and> int (length (filter (lease_at (normalized_owner owner) resource key) live)) < slots)"
    unfolding Acquire do_perform.simps do_try_acquire_for_owner_def Let_def do_norm_owner_eq live_def [symmetric]
    by (auto simp: res_simps split: option.split sum.split)
  then show thesis
  proof (elim disjE exE conjE)
    assume "coord_leases (do_perform s op) = live"
    then show thesis unfolding live_def by (rule sub)
  next
    fix l assume "coord_leases (do_perform s op) = live @ [l]" "lease_pk l \<notin> lease_pk ` set live"
      and k: "(lease_owner l, lease_resource l, lease_key l) = (normalized_owner owner, resource, key)"
      and "int (length (filter (lease_at (normalized_owner owner) resource key) live)) < slots"
    then show thesis
      unfolding live_def lease_at_held by (intro granted [where n = slots]) (assumption | simp add: Acquire)+
  qed
next
  case (Renew t owner resource key ttl holder)
  have "coord_leases (do_perform s op) = coord_leases s
      \<or> (\<exists>p x. coord_leases (do_perform s op) = sql_update p (\<lambda>l. l\<lparr>expires_at := x\<rparr>) (coord_leases s))"
    by (auto simp: Renew do_renew_lease_for_owner_def Let_def split: option.split)
  then show thesis using same renewed by blast
next
  case (Append t1 t2 owner ledger part payload author keep effect_id)
  have "coord_leases (do_perform s op) = coord_leases s"
    by (auto simp: Append do_append_for_owner_def Let_def split: sum.split option.split prod.split)
  then show thesis by (rule same)
next
  case (Consume owner counter key amount cap period effect_id)
  have "coord_leases (do_perform s op) = coord_leases s"
    by (auto simp: Consume do_consume_for_owner_def Let_def split: option.split)
  then show thesis by (rule same)
qed (use sub in \<open>auto simp: do_release_for_owner_def do_release_all_for_holder_def sql_delete_def Let_def\<close>)

lemma do_perform_distinct:
  assumes "distinct (map lease_pk (coord_leases s))"
  shows "distinct (map lease_pk (coord_leases (do_perform s op)))"
proof (cases rule: do_perform_leases [of s op])
  case (renewed p x)
  then show ?thesis using assms sql_update_pk [of lease_pk "\<lambda>l. l\<lparr>expires_at := x\<rparr>" p] by (simp add: lease_pk_def)
qed (use assms filter_distinct_pk [OF assms] in auto)

lemma do_perform_held:
  "length (do_holders k (do_perform s op)) \<le> length (do_holders k s)
    \<or> (\<exists>n. grant None op = Some (k, n) \<and> int (length (do_holders k (do_perform s op))) \<le> n)"
proof (cases rule: do_perform_leases [of s op])
  case same
  then show ?thesis by (simp add: do_holders_def)
next
  case (sub p)
  then show ?thesis by (simp only: do_holders_def length_map held_filter simp_thms)
next
  case (renewed p x)
  have "length (filter (\<lambda>l. (lease_owner l, lease_resource l, lease_key l) = k) (sql_update p (\<lambda>l. l\<lparr>expires_at := x\<rparr>) rows)) =
      length (filter (\<lambda>l. (lease_owner l, lease_resource l, lease_key l) = k) rows)" for rows
    by (induction rows) (auto simp: sql_update_def)
  with renewed show ?thesis by (simp add: do_holders_def)
next
  case (granted p l k' n)
  show ?thesis
  proof (cases "k' = k")
    case True
    with granted show ?thesis by (simp add: do_holders_def)
  next
    case False
    have "length (filter (\<lambda>l. (lease_owner l, lease_resource l, lease_key l) = k) (filter p (coord_leases s)))
        \<le> length (filter (\<lambda>l. (lease_owner l, lease_resource l, lease_key l) = k) (coord_leases s))" by (rule held_filter)
    with granted False show ?thesis by (simp add: do_holders_def)
  qed
qed

interpretation do_slots: slot_bounded do_perform "\<lambda>s. distinct (map lease_pk (coord_leases s))" do_holders "grant None"
proof (unfold_locales, goal_cases)
  case (2 s k)
  let ?here = "filter (\<lambda>l. (lease_owner l, lease_resource l, lease_key l) = k) (coord_leases s)"
  have "map lease_pk ?here = map (\<lambda>h. (fst k, fst (snd k), snd (snd k), h)) (do_holders k s)"
    by (auto simp: do_holders_def lease_pk_def)
  moreover have "distinct (map lease_pk ?here)" by (rule filter_distinct_pk [OF 2])
  ultimately have "distinct (map (\<lambda>h. (fst k, fst (snd k), snd (snd k), h)) (do_holders k s))" by simp
  then show ?case by (simp add: distinct_map)
qed (simp_all only: do_perform_distinct do_perform_held)

section \<open>The claims\<close>







text \<open>
  Leases are never oversubscribed on the Durable Object either, over every sequence of calls, failed
  calls included: the holders of a key are distinct and at most as many as its slots.
\<close>

theorem do_leases_never_exceed_slots:
  assumes "\<forall>op n. op \<in> set ops \<longrightarrow> grant None op = Some (k, n) \<longrightarrow> n = slots"
  shows "distinct (do_holders k (foldl do_perform do_empty ops))
    \<and> int (length (do_holders k (foldl do_perform do_empty ops))) \<le> max 0 slots"
proof -
  have "do_holders k do_empty = []" "distinct (map lease_pk (coord_leases do_empty))"
    by (simp_all add: do_holders_def do_empty_def)
  then show ?thesis
    using do_slots.run_bounded [of ops k slots do_empty] do_slots.run_ok [of do_empty ops]
      do_slots.held_distinct assms by auto
qed

theorem do_leases_never_exceed_slots_witness:
  "int (length (do_holders (normalized_owner ''ci'', ''db'', ''main'')
     (foldl do_perform do_empty
       [Acquire sample_clock sample_clock ''ci'' ''db'' ''main'' 1 60 ''a'',
        Acquire sample_clock sample_clock ''ci'' ''db'' ''main'' 1 60 ''b'']))) \<le> 1"
  using do_leases_never_exceed_slots [of
      "[Acquire sample_clock sample_clock ''ci'' ''db'' ''main'' 1 60 ''a'',
        Acquire sample_clock sample_clock ''ci'' ''db'' ''main'' 1 60 ''b'']"
      "(normalized_owner ''ci'', ''db'', ''main'')" 1] by simp

end
