(* ===== verification/Instance_Machine.thy ===== *)
theory Instance_Machine
  imports Ordered_Maps
begin

text \<open>
  The sans-IO vocabulary (\<^verbatim>\<open>whipplescript-kernel/src/sansio.rs\<close>) and the instance scheduler on top
  of it (\<^verbatim>\<open>whipplescript-kernel/src/instance_machine.rs\<close>).

  The scheduler drives an \<^verbatim>\<open>InstanceDriver\<close>, the host's rule pass and effect execution over its
  store: a record of functions on the driver's state, since its implementations are host code. The
  JSON values, effects, events and errors that only pass through are type parameters. The loops may
  run forever, so they are partial functions whose value \<open>None\<close> is not returning.
\<close>

section \<open>Provenance of model content\<close>

record model_content_provenance =
  source_handles :: "string list"
  complete :: bool

datatype model_wire_input_format = AnthropicMessages | OpenAiResponses | OpenAiChatCompat | CoercedTools

record model_wire_input_provenance =
  wire_format :: model_wire_input_format
  wire_items :: "model_content_provenance list"
  wire_system :: "model_content_provenance option"

record model_request_provenance =
  messages :: "model_content_provenance list"
  tools :: model_content_provenance
  wire :: "model_wire_input_provenance option"

record initial_model_provenance =
  initial_system :: model_content_provenance
  initial_user :: model_content_provenance
  initial_world :: model_content_provenance
  initial_tools :: model_content_provenance
  workspace_content :: model_content_provenance

text \<open>The handles go through a \<^verbatim>\<open>BTreeSet\<close>: they come out ascending and without duplicates.\<close>

definition derived_from :: "model_content_provenance list \<Rightarrow> model_content_provenance" where
  "derived_from parts =
     (let (handles, complete) =
        fold (\<lambda>part (handles, complete). (handles @ source_handles part, complete \<and> model_content_provenance.complete part))
          parts ([], True)
      in \<lparr>source_handles = ascending handles, complete = complete\<rparr>)"

section \<open>Requests, responses and step machines\<close>

record 'v http_request =
  url :: string
  headers :: "(string \<times> string) list"
  body :: 'v
  model_provenance :: "model_request_provenance option"

record 'v http_response =
  status :: nat
  response_body :: 'v

datatype transport_error = Timeout | Transport string | RetryBudgetExhausted string

datatype 'v io_request = HttpRequested "'v http_request"

datatype 'v io_result = HttpAnswered "('v http_response, transport_error) result"

datatype ('v, 'o) outcome = NeedsIo "'v io_request" | Settle 'o

text \<open>
  A step machine is its \<^verbatim>\<open>step\<close> on the machine's state, which may fail to return. The host's
  \<^verbatim>\<open>fulfill\<close> takes a request to its result; it is a function of the request and of the host's own
  state, which the loop threads along.
\<close>

type_synonym ('m, 'v, 'o) step_machine = "'m \<Rightarrow> 'v io_result option \<Rightarrow> ('m \<times> ('v, 'o) outcome) option"

type_synonym ('h, 'v) host_driver = "'h \<Rightarrow> 'v io_request \<Rightarrow> 'h \<times> 'v io_result"

partial_function (option) drive ::
  "('m, 'v, 'o) step_machine \<Rightarrow> ('h, 'v) host_driver \<Rightarrow> 'm \<Rightarrow> 'h \<Rightarrow> 'v io_result option \<Rightarrow> ('m \<times> 'h \<times> 'o) option"
where
  "drive step fulfill m h incoming =
     (case step m incoming of
        None \<Rightarrow> None
      | Some (m', result) \<Rightarrow>
          (case result of
             Settle output \<Rightarrow> Some (m', h, output)
           | NeedsIo request \<Rightarrow>
               (case fulfill h request of (h', answer) \<Rightarrow> drive step fulfill m' h' (Some answer))))"

definition run_to_completion ::
  "('m, 'v, 'o) step_machine \<Rightarrow> ('h, 'v) host_driver \<Rightarrow> 'm \<Rightarrow> 'h \<Rightarrow> ('m \<times> 'h \<times> 'o) option" where
  "run_to_completion step fulfill m h = drive step fulfill m h None"

section \<open>The instance scheduler\<close>

datatype ('v, 'ev) effect_step =
    Done 'ev
  | Deferred 'ev
  | NeedsHttp "'v http_request"
  | StepParked

record ('d, 'e, 'v, 'ev, 'x) instance_driver =
  advance_rules :: "'d \<Rightarrow> 'd \<times> (bool, 'x) result"
  next_ready_effect :: "'d \<Rightarrow> 'd \<times> ('e option, 'x) result"
  run_effect :: "'e \<Rightarrow> ('v http_response, transport_error) result option \<Rightarrow> 'd
    \<Rightarrow> 'd \<times> (('v, 'ev) effect_step, 'x) result"

datatype 'x instance_outcome = Terminal | Parked | Failed 'x

record ('d, 'e) instance_step_machine =
  driver :: 'd
  in_flight :: "'e option"

definition new_machine :: "'d \<Rightarrow> ('d, 'e) instance_step_machine" where
  "new_machine d = \<lparr>driver = d, in_flight = None\<rparr>"

definition into_driver :: "('d, 'e) instance_step_machine \<Rightarrow> 'd" where
  "into_driver m = driver m"

text \<open>The loop of \<^verbatim>\<open>step\<close>: rule pass, ready effect, dispatch, repeat.\<close>

partial_function (option) fixpoint ::
  "('d, 'e, 'v, 'ev, 'x) instance_driver \<Rightarrow> 'd
    \<Rightarrow> (('d, 'e) instance_step_machine \<times> ('v, 'x instance_outcome) outcome) option"
where
  "fixpoint D d =
     (case advance_rules D d of (d1, advanced) \<Rightarrow>
        (case advanced of
           Inl x \<Rightarrow> Some (\<lparr>driver = d1, in_flight = None\<rparr>, Settle (Failed x))
         | Inr terminal \<Rightarrow>
             if terminal then Some (\<lparr>driver = d1, in_flight = None\<rparr>, Settle Terminal)
             else (case next_ready_effect D d1 of (d2, next) \<Rightarrow>
               (case next of
                  Inl x \<Rightarrow> Some (\<lparr>driver = d2, in_flight = None\<rparr>, Settle (Failed x))
                | Inr ready \<Rightarrow>
                    (case ready of
                       None \<Rightarrow> Some (\<lparr>driver = d2, in_flight = None\<rparr>, Settle Parked)
                     | Some e \<Rightarrow>
                         (case run_effect D e None d2 of (d3, settled) \<Rightarrow>
                            (case settled of
                               Inl x \<Rightarrow> Some (\<lparr>driver = d3, in_flight = None\<rparr>, Settle (Failed x))
                             | Inr s \<Rightarrow>
                                 (case s of
                                    Done ev \<Rightarrow> fixpoint D d3
                                  | Deferred ev \<Rightarrow> fixpoint D d3
                                  | NeedsHttp request \<Rightarrow>
                                      Some (\<lparr>driver = d3, in_flight = Some e\<rparr>, NeedsIo (HttpRequested request))
                                  | StepParked \<Rightarrow>
                                      Some (\<lparr>driver = d3, in_flight = None\<rparr>, Settle Parked)))))))))"

definition instance_step ::
  "('d, 'e, 'v, 'ev, 'x) instance_driver
    \<Rightarrow> (('d, 'e) instance_step_machine, 'v, 'x instance_outcome) step_machine" where
  "instance_step D m incoming =
     (case in_flight m of
        None \<Rightarrow> fixpoint D (driver m)
      | Some e \<Rightarrow>
          (case run_effect D e (map_option (\<lambda>r. case r of HttpAnswered a \<Rightarrow> a) incoming) (driver m) of
             (d, settled) \<Rightarrow>
               (case settled of
                  Inl x \<Rightarrow> Some (\<lparr>driver = d, in_flight = None\<rparr>, Settle (Failed x))
                | Inr s \<Rightarrow>
                    (case s of
                       Done ev \<Rightarrow> fixpoint D d
                     | Deferred ev \<Rightarrow> fixpoint D d
                     | NeedsHttp request \<Rightarrow>
                         Some (\<lparr>driver = d, in_flight = Some e\<rparr>, NeedsIo (HttpRequested request))
                     | StepParked \<Rightarrow> Some (\<lparr>driver = d, in_flight = None\<rparr>, Settle Parked)))))"

section \<open>Executions\<close>

text \<open>
  The calls a host driver sees, with what it answered. \<open>performed\<close> says that a list of calls is what
  happens when the driver is called so from a state, and gives the state it is left in.
\<close>

datatype ('e, 'v, 'ev, 'x) driver_call =
    Advance "(bool, 'x) result"
  | Next "('e option, 'x) result"
  | Run 'e "('v http_response, transport_error) result option" "(('v, 'ev) effect_step, 'x) result"

fun performed ::
  "('d, 'e, 'v, 'ev, 'x) instance_driver \<Rightarrow> 'd \<Rightarrow> ('e, 'v, 'ev, 'x) driver_call list \<Rightarrow> 'd \<Rightarrow> bool" where
  "performed D d [] d' \<longleftrightarrow> d = d'"
| "performed D d (Advance r # cs) d' \<longleftrightarrow>
     snd (advance_rules D d) = r \<and> performed D (fst (advance_rules D d)) cs d'"
| "performed D d (Next r # cs) d' \<longleftrightarrow>
     snd (next_ready_effect D d) = r \<and> performed D (fst (next_ready_effect D d)) cs d'"
| "performed D d (Run e i r # cs) d' \<longleftrightarrow>
     snd (run_effect D e i d) = r \<and> performed D (fst (run_effect D e i d)) cs d'"

text \<open>
  The protocol of the scheduler: which call may follow which. A suspended effect is run next, with
  what the host answered its request; an effect is run first only right after it was found ready;
  readiness is asked only after a rule pass that did not end the workflow.
\<close>

fun follows ::
  "('h, 'v) host_driver \<Rightarrow> ('e, 'v, 'ev, 'x) driver_call \<Rightarrow> ('e, 'v, 'ev, 'x) driver_call \<Rightarrow> bool" where
  "follows fulfill (Advance r) c \<longleftrightarrow> r = Inr False \<and> (\<exists>q. c = Next q)"
| "follows fulfill (Next r) c \<longleftrightarrow> (\<exists>e q. r = Inr (Some e) \<and> c = Run e None q)"
| "follows fulfill (Run e i r) c \<longleftrightarrow>
     (case r of
        Inr (Done ev) \<Rightarrow> (\<exists>q. c = Advance q)
      | Inr (Deferred ev) \<Rightarrow> (\<exists>q. c = Advance q)
      | Inr (NeedsHttp request) \<Rightarrow>
          (\<exists>h a q. snd (fulfill h (HttpRequested request)) = HttpAnswered a \<and> c = Run e (Some a) q)
      | _ \<Rightarrow> False)"

text \<open>
  The host's part, with its own state threaded along: each suspended call is answered by the host in
  the state it is in then, and that answer is what the effect is run with next.
\<close>

fun suspends :: "('e, 'v, 'ev, 'x) driver_call \<Rightarrow> bool" where
  "suspends (Run e i (Inr (NeedsHttp request))) \<longleftrightarrow> True"
| "suspends c \<longleftrightarrow> False"

fun hosted ::
  "('h, 'v) host_driver \<Rightarrow> 'h \<Rightarrow> ('e, 'v, 'ev, 'x) driver_call list \<Rightarrow> 'h \<Rightarrow> bool" where
  "hosted fulfill h [] h' \<longleftrightarrow> h = h'"
| "hosted fulfill h (Run e i (Inr (NeedsHttp request)) # cs) h' \<longleftrightarrow>
     (\<exists>a q cs'. snd (fulfill h (HttpRequested request)) = HttpAnswered a \<and> cs = Run e (Some a) q # cs')
     \<and> hosted fulfill (fst (fulfill h (HttpRequested request))) cs h'"
| "hosted fulfill h (c # cs) h' \<longleftrightarrow> hosted fulfill h cs h'"

text \<open>The outcome a call ends the schedule with, if it ends it.\<close>

fun verdict :: "('e, 'v, 'ev, 'x) driver_call \<Rightarrow> 'x instance_outcome option" where
  "verdict (Advance r) = (case r of Inl x \<Rightarrow> Some (Failed x) | Inr terminal \<Rightarrow> if terminal then Some Terminal else None)"
| "verdict (Next r) = (case r of Inl x \<Rightarrow> Some (Failed x) | Inr None \<Rightarrow> Some Parked | Inr (Some _) \<Rightarrow> None)"
| "verdict (Run e i r) = (case r of Inl x \<Rightarrow> Some (Failed x) | Inr StepParked \<Rightarrow> Some Parked | Inr _ \<Rightarrow> None)"

text \<open>How a list of calls ends when \<^verbatim>\<open>step\<close> returned an outcome.\<close>

definition ends_with ::
  "('e, 'v, 'ev, 'x) driver_call \<Rightarrow> 'e option \<Rightarrow> ('v, 'x instance_outcome) outcome \<Rightarrow> bool" where
  "ends_with c flight result \<longleftrightarrow>
     (case result of
        Settle out \<Rightarrow> verdict c = Some out \<and> flight = None
      | NeedsIo (HttpRequested request) \<Rightarrow> \<exists>e i. flight = Some e \<and> c = Run e i (Inr (NeedsHttp request)))"

definition starts_with_rules :: "('e, 'v, 'ev, 'x) driver_call list \<Rightarrow> bool" where
  "starts_with_rules cs \<longleftrightarrow> (\<exists>r cs'. cs = Advance r # cs')"

text \<open>A schedule: the calls of one \<^verbatim>\<open>step\<close> from its loop on.\<close>

definition schedule ::
  "('h, 'v) host_driver \<Rightarrow> ('d, 'e, 'v, 'ev, 'x) instance_driver \<Rightarrow> 'd \<Rightarrow> ('d, 'e) instance_step_machine
    \<Rightarrow> ('v, 'x instance_outcome) outcome \<Rightarrow> ('e, 'v, 'ev, 'x) driver_call list \<Rightarrow> bool" where
  "schedule fulfill D d m result cs \<longleftrightarrow> performed D d cs (driver m) \<and> starts_with_rules cs
     \<and> successively (follows fulfill) cs \<and> \<not> list_ex suspends (butlast cs)
     \<and> ends_with (last cs) (in_flight m) result"

lemmas call_splits = prod.splits sum.splits option.splits effect_step.splits if_splits

text \<open>One round of the loop: it ends, or an effect ran and the loop goes on.\<close>

lemma schedule_end:
  "performed D d (Advance r # cs) (driver m) \<Longrightarrow> successively (follows fulfill) (Advance r # cs)
    \<Longrightarrow> \<not> list_ex suspends (butlast (Advance r # cs)) \<Longrightarrow> ends_with (last (Advance r # cs)) (in_flight m) result \<Longrightarrow> \<exists>cs. schedule fulfill D d m result cs"
  unfolding schedule_def starts_with_rules_def by blast

lemma schedule_more:
  assumes "schedule fulfill D d' m result cs"
    and "advance_rules D d = (d1, Inr False)" and "next_ready_effect D d1 = (d2, Inr (Some e))"
    and "run_effect D e None d2 = (d', Inr s)" and "\<exists>ev. s = Done ev \<or> s = Deferred ev"
  shows "\<exists>cs. schedule fulfill D d m result cs"
proof -
  from assms(1) obtain r cs' where cs: "cs = Advance r # cs'" by (auto simp: schedule_def starts_with_rules_def)
  show ?thesis
    by (rule schedule_end [of D d "Inr False" "Next (Inr (Some e)) # Run e None (Inr s) # cs"])
      (use assms in \<open>auto simp: schedule_def cs split: if_splits\<close>)
qed

text \<open>The rounds of the loop body, whatever the recursive call is.\<close>

lemma fixpoint_body_cases:
  fixes D :: "('d, 'e, 'v, 'ev, 'x) instance_driver"
  assumes "(case advance_rules D d of (d1, advanced) \<Rightarrow>
        (case advanced of
           Inl x \<Rightarrow> Some (\<lparr>driver = d1, in_flight = None\<rparr>, Settle (Failed x))
         | Inr terminal \<Rightarrow>
             if terminal then Some (\<lparr>driver = d1, in_flight = None\<rparr>, Settle Terminal)
             else (case next_ready_effect D d1 of (d2, next) \<Rightarrow>
               (case next of
                  Inl x \<Rightarrow> Some (\<lparr>driver = d2, in_flight = None\<rparr>, Settle (Failed x))
                | Inr ready \<Rightarrow>
                    (case ready of
                       None \<Rightarrow> Some (\<lparr>driver = d2, in_flight = None\<rparr>, Settle Parked)
                     | Some e \<Rightarrow>
                         (case run_effect D e None d2 of (d3, settled) \<Rightarrow>
                            (case settled of
                               Inl x \<Rightarrow> Some (\<lparr>driver = d3, in_flight = None\<rparr>, Settle (Failed x))
                             | Inr s \<Rightarrow>
                                 (case s of
                                    Done ev \<Rightarrow> f d3
                                  | Deferred ev \<Rightarrow> f d3
                                  | NeedsHttp request \<Rightarrow>
                                      Some (\<lparr>driver = d3, in_flight = Some e\<rparr>, NeedsIo (HttpRequested request))
                                  | StepParked \<Rightarrow>
                                      Some (\<lparr>driver = d3, in_flight = None\<rparr>, Settle Parked))))))))) = Some y"
  obtains (rules) r where "snd (advance_rules D d) = r" and "r \<noteq> Inr False"
      and "driver (fst y) = fst (advance_rules D d)" and "ends_with (Advance r :: ('e, 'v, 'ev, 'x) driver_call) (in_flight (fst y)) (snd y)"
  | (ready) d1 r where "advance_rules D d = (d1, Inr False)" and "snd (next_ready_effect D d1) = r"
      and "driver (fst y) = fst (next_ready_effect D d1)" and "ends_with (Next r :: ('e, 'v, 'ev, 'x) driver_call) (in_flight (fst y)) (snd y)"
  | (effect) d1 d2 e r where "advance_rules D d = (d1, Inr False)" and "next_ready_effect D d1 = (d2, Inr (Some e))"
      and "snd (run_effect D e None d2) = r" and "driver (fst y) = fst (run_effect D e None d2)"
      and "ends_with (Run e None r :: ('e, 'v, 'ev, 'x) driver_call) (in_flight (fst y)) (snd y)"
  | (more) d1 d2 e d3 s where "advance_rules D d = (d1, Inr False)" and "next_ready_effect D d1 = (d2, Inr (Some e))"
      and "run_effect D e None d2 = (d3, Inr s)" and "\<exists>ev. s = Done ev \<or> s = Deferred ev" and "f d3 = Some y"
  using assms by (auto simp: ends_with_def split: call_splits)

lemma fixpoint_schedule:
  assumes "fixpoint D d = Some y"
  shows "\<exists>cs. schedule fulfill D d (fst y) (snd y) cs"
  using _ assms
proof (rule fixpoint.raw_induct [where P = "\<lambda>D d y. \<exists>cs. schedule fulfill D d (fst y) (snd y) cs"], goal_cases)
  case (1 f D d y)
  from 1(2) show ?case
  proof (cases rule: fixpoint_body_cases [where D = D and d = d and f = "f D" and y = y])
    case (rules r)
    then show ?thesis by (intro schedule_end [of D d r "[]"]) auto
  next
    case (ready d1 r)
    then show ?thesis by (intro schedule_end [of D d "Inr False" "[Next r]"]) auto
  next
    case (effect d1 d2 e r)
    then show ?thesis by (intro schedule_end [of D d "Inr False" "[Next (Inr (Some e)), Run e None r]"]) auto
  next
    case (more d1 d2 e d3 s)
    obtain cs where "schedule fulfill D d3 (fst y) (snd y) cs" using 1(1) [OF more(5)] by blast
    then show ?thesis by (rule schedule_more [OF _ more(1-4)])
  qed
qed

text \<open>The first call of a step: the rule pass, or the suspended effect with the answer.\<close>

definition first_call ::
  "('d, 'e) instance_step_machine \<Rightarrow> 'v io_result option \<Rightarrow> ('e, 'v, 'ev, 'x) driver_call \<Rightarrow> bool" where
  "first_call m incoming c \<longleftrightarrow>
     (case in_flight m of
        None \<Rightarrow> \<exists>r. c = Advance r
      | Some e \<Rightarrow> \<exists>r. c = Run e (map_option (\<lambda>r. case r of HttpAnswered a \<Rightarrow> a) incoming) r)"

lemma performed_append: "performed D d (cs @ cs') d' \<longleftrightarrow> (\<exists>d1. performed D d cs d1 \<and> performed D d1 cs' d')"
  by (induction D d cs d' rule: performed.induct) auto

lemma step_calls:
  fixes fulfill :: "('h, 'v) host_driver" and D :: "('d, 'e, 'v, 'ev, 'x) instance_driver"
  assumes "instance_step D m incoming = Some (m1, result)"
  obtains c cs where "performed D (driver m) (c # cs) (driver m1)" and "first_call m incoming c"
    and "successively (follows fulfill) (c # cs)" and "\<not> list_ex suspends (butlast (c # cs))"
    and "ends_with (last (c # cs)) (in_flight m1) result"
proof (cases "in_flight m")
  case None
  then have "fixpoint D (driver m) = Some (m1, result)" using assms by (simp add: instance_step_def)
  from fixpoint_schedule [OF this, of fulfill] obtain cs where cs: "schedule fulfill D (driver m) m1 result cs" by auto
  then obtain r cs' where "cs = Advance r # cs'" by (auto simp: schedule_def starts_with_rules_def)
  with cs None show thesis by (intro that [of "Advance r" cs']) (simp_all add: schedule_def first_call_def)
next
  case (Some e)
  let ?i = "map_option (\<lambda>r. case r of HttpAnswered a \<Rightarrow> a) incoming"
  obtain d q where run: "run_effect D e ?i (driver m) = (d, q)" by fastforce
  show thesis
  proof (cases "\<exists>s ev. q = Inr s \<and> (s = Done ev \<or> s = Deferred ev)")
    case True
    then have "fixpoint D d = Some (m1, result)" using assms Some run by (auto simp: instance_step_def)
    from fixpoint_schedule [OF this, of fulfill] obtain cs where cs: "schedule fulfill D d m1 result cs" by auto
    then obtain r cs' where "cs = Advance r # cs'" by (auto simp: schedule_def starts_with_rules_def)
    with cs Some run True show thesis
      by (intro that [of "Run e ?i q" cs]) (auto simp: schedule_def first_call_def)
  next
    case False
    then show thesis using assms Some run
      by (intro that [of "Run e ?i q" "[]"])
        (auto simp: instance_step_def first_call_def ends_with_def split: call_splits)
  qed
qed

lemma quiet_end: "\<not> list_ex suspends (butlast cs) \<Longrightarrow> verdict (last cs) = Some out \<Longrightarrow> \<not> list_ex suspends cs"
proof (induction cs)
  case (Cons c cs)
  have "\<not> suspends c" if "verdict c = Some out" using that by (cases c rule: suspends.cases) simp_all
  with Cons show ?case by (auto split: if_splits)
qed simp

lemma hosted_quiet: "\<not> list_ex suspends cs \<Longrightarrow> hosted fulfill h cs h' \<longleftrightarrow> h = h'"
  by (induction fulfill h cs h' rule: hosted.induct) auto

lemma hosted_suspended:
  assumes "\<not> list_ex suspends cs" and "fulfill h (HttpRequested q) = (h1, HttpAnswered a)"
    and "hosted fulfill h1 (Run e (Some a) r # cs') h'"
  shows "hosted fulfill h (cs @ Run e i (Inr (NeedsHttp q)) # Run e (Some a) r # cs') h'"
  using assms
proof (induction fulfill h cs h' rule: hosted.induct)
  case (1 fulfill h h')
  then show ?case by (simp del: hosted.simps add: hosted.simps(2))
qed simp_all

text \<open>A run to completion, from any state of the machine.\<close>

definition protocol_run ::
  "('h, 'v) host_driver \<Rightarrow> ('d, 'e, 'v, 'ev, 'x) instance_driver \<Rightarrow> ('d, 'e) instance_step_machine \<Rightarrow> 'h
    \<Rightarrow> 'v io_result option \<Rightarrow> ('d, 'e) instance_step_machine \<Rightarrow> 'h \<Rightarrow> 'x instance_outcome
    \<Rightarrow> ('e, 'v, 'ev, 'x) driver_call list \<Rightarrow> bool" where
  "protocol_run fulfill D m h incoming m' h' out cs \<longleftrightarrow>
     cs \<noteq> [] \<and> first_call m incoming (hd cs) \<and> performed D (driver m) cs (driver m') \<and> hosted fulfill h cs h'
     \<and> successively (follows fulfill) cs \<and> verdict (last cs) = Some out \<and> in_flight m' = None"

text \<open>A step that suspended, the host's answer, and the rest of the run.\<close>

lemma protocol_combine:
  assumes "performed D (driver m) (c # cs) (driver m1)" and "first_call m incoming c"
    and "successively (follows fulfill) (c # cs)" and "\<not> list_ex suspends (butlast (c # cs))"
    and "ends_with (last (c # cs)) (in_flight m1) (NeedsIo request)"
    and "fulfill h request = (h1, answer)" and "protocol_run fulfill D m1 h1 (Some answer) m' h' out cs2"
  shows "protocol_run fulfill D m h incoming m' h' out (c # cs @ cs2)"
proof -
  obtain q where q: "request = HttpRequested q" by (cases request)
  obtain a where a: "answer = HttpAnswered a" by (cases answer)
  from assms(5) obtain e i where e: "in_flight m1 = Some e" "last (c # cs) = Run e i (Inr (NeedsHttp q))"
    by (auto simp: ends_with_def q)
  from assms(7) obtain r cs' where cs2: "cs2 = Run e (Some a) r # cs'"
    by (cases cs2) (auto simp: protocol_run_def first_call_def e a)
  have calls: "c # cs = butlast (c # cs) @ [Run e i (Inr (NeedsHttp q))]"
    by (metis e(2) append_butlast_last_id list.distinct(1))
  have "follows fulfill (last (c # cs)) (hd cs2)"
    unfolding e(2) using assms(6) by (auto simp: cs2 q a intro!: exI [of _ h])
  then have "successively (follows fulfill) ((c # cs) @ cs2)"
    using assms(3,7) unfolding successively_append_iff by (auto simp: protocol_run_def cs2)
  moreover have "performed D (driver m) ((c # cs) @ cs2) (driver m')"
    using assms(1,7) unfolding performed_append by (auto simp: protocol_run_def)
  moreover have "hosted fulfill h ((c # cs) @ cs2) h'"
    using hosted_suspended [OF assms(4), of fulfill h q h1 a e r cs' h' i] assms(6,7)
    by (subst calls) (simp add: protocol_run_def cs2 q a)
  ultimately show ?thesis using assms(2,7) by (auto simp: protocol_run_def cs2)
qed

lemma drive_protocol:
  fixes fulfill :: "('h, 'v) host_driver" and D :: "('d, 'e, 'v, 'ev, 'x) instance_driver"
  assumes "drive (instance_step D) fulfill m h incoming = Some y"
  shows "\<exists>cs. protocol_run fulfill D m h incoming (fst y) (fst (snd y)) (snd (snd y)) cs"
proof -
  have "step = instance_step D \<longrightarrow> fulfill' = fulfill
      \<longrightarrow> (\<exists>cs. protocol_run fulfill D m h incoming (fst y) (fst (snd y)) (snd (snd y)) cs)"
    if "drive step fulfill' m h incoming = Some y" for step fulfill'
    using _ that
  proof (rule drive.raw_induct [where P = "\<lambda>step fulfill' m h incoming y. step = instance_step D \<longrightarrow> fulfill' = fulfill
      \<longrightarrow> (\<exists>cs. protocol_run fulfill D m h incoming (fst y) (fst (snd y)) (snd (snd y)) cs)"], goal_cases)
    case (1 f step fulfill' m h incoming y)
    show ?case
    proof (intro impI)
      assume eqs: "step = instance_step D" "fulfill' = fulfill"
      from 1(2) obtain m1 result where step: "instance_step D m incoming = Some (m1, result)"
        by (auto simp: eqs split: option.splits)
      then show "\<exists>cs. protocol_run fulfill D m h incoming (fst y) (fst (snd y)) (snd (snd y)) cs"
      proof (rule step_calls [where fulfill = fulfill])
        fix c cs
        assume calls: "performed D (driver m) (c # cs) (driver m1)" "first_call m incoming c"
          "successively (follows fulfill) (c # cs)" "\<not> list_ex suspends (butlast (c # cs))"
          "ends_with (last (c # cs)) (in_flight m1) result"
        show ?thesis
        proof (cases result)
          case (Settle out)
          then have "y = (m1, h, out)" using 1(2) step by (simp add: eqs)
          moreover have "hosted fulfill h (c # cs) h"
            using quiet_end [OF calls(4), of out] calls(5) Settle hosted_quiet [of "c # cs" fulfill h h]
            by (simp add: ends_with_def)
          ultimately show ?thesis
            using calls Settle by (intro exI [of _ "c # cs"]) (simp add: protocol_run_def ends_with_def)
        next
          case (NeedsIo request)
          obtain h1 answer where host: "fulfill h request = (h1, answer)" by fastforce
          then have "f step fulfill' m1 h1 (Some answer) = Some y" using 1(2) step NeedsIo by (simp add: eqs)
          from 1(1) [OF this] eqs
          obtain cs2 where "protocol_run fulfill D m1 h1 (Some answer) (fst y) (fst (snd y)) (snd (snd y)) cs2" by blast
          with protocol_combine [OF calls(1-4) _ host] calls(5) NeedsIo show ?thesis by blast
        qed
      qed
    qed
  qed
  with assms show ?thesis by blast
qed

section \<open>When a run returns\<close>

text \<open>The run read call by call: from its loop, and from an effect about to be run.\<close>

lemma drive_rules:
  assumes "in_flight m = None"
  shows "drive (instance_step D) fulfill m h incoming =
     (case advance_rules D (driver m) of (d1, advanced) \<Rightarrow>
        (case advanced of
           Inl x \<Rightarrow> Some (\<lparr>driver = d1, in_flight = None\<rparr>, h, Failed x)
         | Inr terminal \<Rightarrow>
             if terminal then Some (\<lparr>driver = d1, in_flight = None\<rparr>, h, Terminal)
             else (case next_ready_effect D d1 of (d2, next) \<Rightarrow>
               (case next of
                  Inl x \<Rightarrow> Some (\<lparr>driver = d2, in_flight = None\<rparr>, h, Failed x)
                | Inr None \<Rightarrow> Some (\<lparr>driver = d2, in_flight = None\<rparr>, h, Parked)
                | Inr (Some e) \<Rightarrow> drive (instance_step D) fulfill \<lparr>driver = d2, in_flight = Some e\<rparr> h None))))"
  by (subst (1 2) drive.simps, simp add: instance_step_def assms, subst fixpoint.simps)
    (auto simp: instance_step_def split: call_splits)

lemma drive_effect:
  assumes "in_flight m = Some e"
  shows "drive (instance_step D) fulfill m h incoming =
     (case run_effect D e (map_option (\<lambda>r. case r of HttpAnswered a \<Rightarrow> a) incoming) (driver m) of (d, settled) \<Rightarrow>
        (case settled of
           Inl x \<Rightarrow> Some (\<lparr>driver = d, in_flight = None\<rparr>, h, Failed x)
         | Inr s \<Rightarrow>
             (case s of
                Done ev \<Rightarrow> drive (instance_step D) fulfill \<lparr>driver = d, in_flight = None\<rparr> h None
              | Deferred ev \<Rightarrow> drive (instance_step D) fulfill \<lparr>driver = d, in_flight = None\<rparr> h None
              | NeedsHttp request \<Rightarrow>
                  (case fulfill h (HttpRequested request) of (h1, answer) \<Rightarrow>
                     drive (instance_step D) fulfill \<lparr>driver = d, in_flight = Some e\<rparr> h1 (Some answer))
              | StepParked \<Rightarrow> Some (\<lparr>driver = d, in_flight = None\<rparr>, h, Parked))))"
  by (subst drive.simps, simp add: instance_step_def assms, subst (2 3) drive.simps)
    (auto simp: instance_step_def split: call_splits)

text \<open>
  Every finite list of calls that keeps the protocol and ends with a verdict is a run: from its first
  call on, given that the shorter ones are.
\<close>

lemma complete_from_rules:
  assumes "protocol_run fulfill D m h incoming m' h' out cs" and None: "in_flight m = None"
    and shorter: "\<And>m1 h1 inc cs1. length cs1 < length cs \<Longrightarrow> protocol_run fulfill D m1 h1 inc m' h' out cs1
      \<Longrightarrow> drive (instance_step D) fulfill m1 h1 inc = Some (m', h', out)"
  shows "drive (instance_step D) fulfill m h incoming = Some (m', h', out)"
proof -
  note run = assms(1) [unfolded protocol_run_def]
  obtain d' where m': "m' = \<lparr>driver = d', in_flight = None\<rparr>" using run by (cases m') simp
  from run None obtain r cs1 where cs: "cs = Advance r # cs1" by (cases cs) (auto simp: first_call_def)
  show ?thesis
  proof (cases cs1)
    case Nil
    with run cs show ?thesis by (subst drive_rules [OF None]) (auto simp: m' split: call_splits)
  next
    case cs1: (Cons c cs2)
    with run cs obtain q where c: "c = Next q" "r = Inr False" by auto
    show ?thesis
    proof (cases cs2)
      case Nil
      with run cs cs1 c show ?thesis by (subst drive_rules [OF None]) (auto simp: m' split: call_splits)
    next
      case cs2: (Cons c' cs3)
      let ?d = "fst (next_ready_effect D (fst (advance_rules D (driver m))))"
      from run cs cs1 cs2 c obtain e r' where e: "q = Inr (Some e)" "c' = Run e None r'" by auto
      have "drive (instance_step D) fulfill \<lparr>driver = ?d, in_flight = Some e\<rparr> h None = Some (m', h', out)"
        by (rule shorter [of cs2]) (use run cs cs1 cs2 c e in \<open>auto simp: protocol_run_def first_call_def\<close>)
      then show ?thesis
        using run cs cs1 c e by (subst drive_rules [OF None]) (auto simp: case_prod_unfold)
    qed
  qed
qed

lemma complete_from_effect:
  assumes "protocol_run fulfill D m h incoming m' h' out cs" and Some: "in_flight m = Some e"
    and shorter: "\<And>m1 h1 inc cs1. length cs1 < length cs \<Longrightarrow> protocol_run fulfill D m1 h1 inc m' h' out cs1
      \<Longrightarrow> drive (instance_step D) fulfill m1 h1 inc = Some (m', h', out)"
  shows "drive (instance_step D) fulfill m h incoming = Some (m', h', out)"
proof -
  note run = assms(1) [unfolded protocol_run_def]
  obtain d' where m': "m' = \<lparr>driver = d', in_flight = None\<rparr>" using run by (cases m') simp
  let ?i = "map_option (\<lambda>r. case r of HttpAnswered a \<Rightarrow> a) incoming"
  let ?d = "fst (run_effect D e ?i (driver m))"
  from run Some obtain r cs1 where cs: "cs = Run e ?i r # cs1" by (cases cs) (auto simp: first_call_def)
  show ?thesis
  proof (cases cs1)
    case Nil
    with run cs show ?thesis by (subst drive_effect [OF Some]) (auto simp: m' split: call_splits)
  next
    case (Cons c cs2)
    have r: "snd (run_effect D e ?i (driver m)) = r" and c: "follows fulfill (Run e ?i r) c"
      using run cs Cons by simp_all
    from c consider (settled) ev q where "r = Inr (Done ev) \<or> r = Inr (Deferred ev)" "c = Advance q"
      | (suspended) request where "r = Inr (NeedsHttp request)"
      by (auto split: sum.splits effect_step.splits)
    then show ?thesis
    proof cases
      case settled
      then have "drive (instance_step D) fulfill \<lparr>driver = ?d, in_flight = None\<rparr> h None = Some (m', h', out)"
        by (intro shorter [of cs1]) (use run cs Cons in \<open>auto simp: protocol_run_def first_call_def\<close>)
      with settled r show ?thesis by (subst drive_effect [OF Some]) (auto simp: case_prod_unfold)
    next
      case suspended
      then obtain a q where a: "snd (fulfill h (HttpRequested request)) = HttpAnswered a" "c = Run e (Some a) q"
        using run cs Cons by auto
      with suspended have "drive (instance_step D) fulfill \<lparr>driver = ?d, in_flight = Some e\<rparr>
          (fst (fulfill h (HttpRequested request))) (Some (HttpAnswered a)) = Some (m', h', out)"
        by (intro shorter [of cs1]) (use run cs Cons in \<open>auto simp: protocol_run_def first_call_def\<close>)
      with suspended r a show ?thesis by (subst drive_effect [OF Some]) (auto simp: case_prod_unfold)
    qed
  qed
qed

lemma drive_complete:
  "protocol_run fulfill D m h incoming m' h' out cs \<Longrightarrow> drive (instance_step D) fulfill m h incoming = Some (m', h', out)"
proof (induction "length cs" arbitrary: m h incoming cs rule: less_induct)
  case less
  then show ?case
    by (cases "in_flight m") (blast intro: complete_from_rules complete_from_effect)+
qed

section \<open>The claims\<close>






text \<open>
  C7. The scheduler returns exactly when its protocol can end. A run to completion returns, with a
  given machine, host and outcome, if and only if there is a finite list of calls that keeps the
  protocol, with the host answering each suspended effect in the state the answers before have left
  it in, and whose last call ends it with that outcome. So the scheduler never stops early, never
  goes on past an end, and fails to return only when no such list exists; nothing is assumed of the
  driver or of the host.
\<close>

theorem scheduler_returns_iff:
  "run_to_completion (instance_step D) fulfill (new_machine d) h = Some (m, h', out) \<longleftrightarrow>
     (\<exists>cs. starts_with_rules cs \<and> performed D d cs (into_driver m) \<and> hosted fulfill h cs h'
        \<and> successively (follows fulfill) cs \<and> verdict (last cs) = Some out \<and> in_flight m = None)"
proof -
  have "protocol_run fulfill D (new_machine d) h None m h' out cs \<longleftrightarrow>
      starts_with_rules cs \<and> performed D d cs (into_driver m) \<and> hosted fulfill h cs h'
        \<and> successively (follows fulfill) cs \<and> verdict (last cs) = Some out \<and> in_flight m = None" for cs
    by (cases cs) (auto simp: protocol_run_def first_call_def starts_with_rules_def new_machine_def into_driver_def)
  moreover have "run_to_completion (instance_step D) fulfill (new_machine d) h = Some (m, h', out) \<longleftrightarrow>
      (\<exists>cs. protocol_run fulfill D (new_machine d) h None m h' out cs)"
    unfolding run_to_completion_def using drive_protocol [of D fulfill "new_machine d" h None "(m, h', out)"] drive_complete
    by fastforce
  ultimately show ?thesis by simp
qed

lemma derived_from_eq:
  "derived_from parts = \<lparr>source_handles = ascending (concat (map source_handles parts)), complete = list_all complete parts\<rparr>"
proof -
  have "fold (\<lambda>part (handles, c). (handles @ source_handles part, c \<and> complete part)) parts (hs, c) =
      (hs @ concat (map source_handles parts), c \<and> list_all complete parts)" for hs c
    by (induction parts arbitrary: hs c) auto
  then show ?thesis by (simp add: derived_from_def)
qed

lemma ascending_cong: "set xs = set ys \<Longrightarrow> ascending xs = ascending ys"
  by (rule sorted_distinct_set_unique) (simp_all add: ascending_def)

text \<open>
  Derived provenance: the result is complete exactly when every part is, its handles are those of
  the parts, ascending and without duplicates, and deriving in stages gives what deriving at once
  gives.
\<close>

theorem derived_provenance:
  "(complete (derived_from parts) \<longleftrightarrow> list_all complete parts)
   \<and> set (source_handles (derived_from parts)) = \<Union> (set ` source_handles ` set parts)
   \<and> sorted_wrt (<) (source_handles (derived_from parts))
   \<and> derived_from (map derived_from groups) = derived_from (concat groups)"
proof -
  have "derived_from (map derived_from groups) = derived_from (concat groups)"
    unfolding derived_from_eq by (auto simp: list_all_iff intro!: ascending_cong)
  then show ?thesis by (simp add: derived_from_eq)
qed

end
