(* ===== verification/Text_Diff.thy ===== *)
theory Text_Diff
  imports Whip_Prelude "HOL-Library.Word" "HOL-Library.Multiset"
begin

text \<open>
  The alignment half of the token-level text merge (\<^verbatim>\<open>whipplescript-store/src/text_merge.rs\<close>):
  tokens, content-defined segments, patience diff and the edit scripts over base tokens.

  \<^verbatim>\<open>char::is_alphanumeric\<close> is a property of the Unicode tables; it is the parameter \<open>alnum\<close> on a
  character given by its UTF-8 encoding. The hash maps are iterated where the result is sorted
  afterwards or only looked up, so their iteration order is fixed here by first occurrence.
\<close>

unbundle bit_operations_syntax

section \<open>Configuration\<close>

record text_merge_config =
  proximity_gap :: nat
  max_bytes :: nat
  segment_min :: nat
  segment_avg_bits :: nat
  segment_max :: nat

definition default_config :: text_merge_config where
  "default_config = \<lparr>proximity_gap = 2, max_bytes = 8 * 1024 * 1024, segment_min = 16,
     segment_avg_bits = 6, segment_max = 512\<rparr>"

definition within_size :: "text_merge_config \<Rightarrow> string \<Rightarrow> string \<Rightarrow> string \<Rightarrow> bool" where
  "within_size config b x t \<longleftrightarrow>
     length b \<le> max_bytes config \<and> length x \<le> max_bytes config \<and> length t \<le> max_bytes config"

text \<open>
  \<^verbatim>\<open>str::parse::<usize>\<close> for a 64-bit target: an optional plus sign, at least one digit, in range.
\<close>

definition parse_usize :: "string \<Rightarrow> nat option" where
  "parse_usize s =
     (let ds = (case s of c # r \<Rightarrow> if c = CHR ''+'' then r else s | [] \<Rightarrow> [])
      in if ds = [] then None
         else (case digits_value 0 ds of None \<Rightarrow> None | Some n \<Rightarrow> if n < 2 ^ 64 then Some n else None))"

text \<open>The environment is a parameter: the value of a variable, if it is set to valid text.\<close>

definition env_usize :: "(string \<Rightarrow> string option) \<Rightarrow> string \<Rightarrow> nat option" where
  "env_usize env name = (case env name of None \<Rightarrow> None | Some v \<Rightarrow> parse_usize (trim v))"

definition from_env :: "(string \<Rightarrow> string option) \<Rightarrow> text_merge_config" where
  "from_env env =
     (let config = default_config;
          config = (case env_usize env ''WHIPPLESCRIPT_TEXT_MERGE_GAP'' of
                      Some gap \<Rightarrow> config\<lparr>proximity_gap := gap\<rparr> | None \<Rightarrow> config)
      in case env_usize env ''WHIPPLESCRIPT_TEXT_MERGE_MAX_BYTES'' of
           Some n \<Rightarrow> if n > 0 then config\<lparr>max_bytes := n\<rparr> else config
         | None \<Rightarrow> config)"

section \<open>Tokens\<close>

datatype token_class = Word | Space | Other

record token =
  tok_start :: nat
  tok_end :: nat
  tok_class :: token_class

text \<open>The characters of a UTF-8 text, each as its encoding; the lead byte gives its length.\<close>

definition utf8_len :: "char \<Rightarrow> nat" where
  "utf8_len c = (let n = of_char c :: nat in
     if n < 0x80 then 1 else if n < 0xE0 then 2 else if n < 0xF0 then 3 else 4)"

function utf8_chars :: "string \<Rightarrow> string list" where
  "utf8_chars [] = []"
| "utf8_chars (c # s) = take (utf8_len c) (c # s) # utf8_chars (drop (utf8_len c) (c # s))"
  by pat_completeness auto
termination
  by (relation "measure length") (auto simp: utf8_len_def Let_def)

definition class_of :: "(string \<Rightarrow> bool) \<Rightarrow> string \<Rightarrow> token_class" where
  "class_of alnum ch =
     (if alnum ch \<or> ch = ''_'' then Word else if ch \<in> set ws_units then Space else Other)"

text \<open>Words and spaces are maximal runs; any other character is a token of its own.\<close>

function tokenize_from :: "(string \<Rightarrow> bool) \<Rightarrow> nat \<Rightarrow> string list \<Rightarrow> token list" where
  "tokenize_from alnum start [] = []"
| "tokenize_from alnum start (ch # chs) =
     (let c = class_of alnum ch;
          run = (if c \<noteq> Other then takeWhile (\<lambda>ch'. class_of alnum ch' = c) chs else []);
          finish = start + length ch + length (concat run)
      in \<lparr>tok_start = start, tok_end = finish, tok_class = c\<rparr>
         # tokenize_from alnum finish (drop (length run) chs))"
  by pat_completeness auto
termination
  by (relation "measure (\<lambda>(_, _, chs). length chs)") auto

definition tokenize :: "(string \<Rightarrow> bool) \<Rightarrow> string \<Rightarrow> token list" where
  "tokenize alnum text = tokenize_from alnum 0 (utf8_chars text)"

definition slice :: "'a list \<Rightarrow> nat \<Rightarrow> nat \<Rightarrow> 'a list" where
  "slice xs i j = take (j - i) (drop i xs)"

text \<open>The text of one token, and of a range of tokens; an index out of range panics.\<close>

definition tok_text :: "string \<Rightarrow> token \<Rightarrow> string" where
  "tok_text text t = slice text (tok_start t) (tok_end t)"

definition token_text :: "string \<Rightarrow> token list \<Rightarrow> nat \<times> nat \<Rightarrow> string option" where
  "token_text text tokens span =
     (if fst span \<ge> snd span then Some []
      else if snd span - 1 < length tokens
      then Some (slice text (tok_start (tokens ! fst span)) (tok_end (tokens ! (snd span - 1))))
      else None)"

section \<open>Segments\<close>

definition fnv1a :: "string \<Rightarrow> 64 word" where
  "fnv1a bytes = fold (\<lambda>byte hash. (hash XOR of_nat (of_char byte)) * 0x100000001b3) bytes 0xcbf29ce484222325"

fun segments_from ::
  "string \<Rightarrow> text_merge_config \<Rightarrow> nat \<Rightarrow> nat \<Rightarrow> token list \<Rightarrow> (nat \<times> nat) list" where
  "segments_from text config start index [] = (if start < index then [(start, index)] else [])"
| "segments_from text config start index (t # ts) =
     (let len = index + 1 - start;
          mask = push_bit (min (segment_avg_bits config) 63) 1 - 1;
          hash = fnv1a (tok_text text t)
      in if len \<ge> segment_min config \<and> hash AND mask = 0 \<or> len \<ge> segment_max config
         then (start, index + 1) # segments_from text config (index + 1) (index + 1) ts
         else segments_from text config start (index + 1) ts)"

definition segment_ranges :: "string \<Rightarrow> token list \<Rightarrow> text_merge_config \<Rightarrow> (nat \<times> nat) list" where
  "segment_ranges text tokens config = segments_from text config 0 0 tokens"

section \<open>Patience diff\<close>

record raw_op =
  a_start :: nat
  a_end :: nat
  b_start :: nat
  b_end :: nat

text \<open>Interning: the next id is the size of the table, reduced to 32 bits.\<close>

fun intern :: "(string \<times> nat) list \<Rightarrow> string list \<Rightarrow> (string \<times> nat) list \<times> nat list" where
  "intern table [] = (table, [])"
| "intern table (s # ss) =
     (let (table, i) = (case map_of table s of
             Some i \<Rightarrow> (table, i)
           | None \<Rightarrow> let next = length table mod 2 ^ 32 in (table @ [(s, next)], next));
          (table, is') = intern table ss
      in (table, i # is'))"

text \<open>
  \<^verbatim>\<open>partition_point\<close> of a slice partitioned by the predicate is the length of its true prefix. The
  pile tops below are ascending in their values, so the slice is partitioned.
\<close>

definition partition_point :: "('a \<Rightarrow> bool) \<Rightarrow> 'a list \<Rightarrow> nat" where
  "partition_point p xs = length (takeWhile p xs)"

fun lis_piles :: "nat list \<Rightarrow> nat \<Rightarrow> nat list \<Rightarrow> nat list \<Rightarrow> nat option list \<Rightarrow> nat list \<times> nat option list" where
  "lis_piles values index [] pile_tops back = (pile_tops, back)"
| "lis_piles values index (v # vs) pile_tops back =
     (let pile = partition_point (\<lambda>top. values ! top < v) pile_tops;
          back' = back @ [if pile = 0 then None else Some (pile_tops ! (pile - 1))];
          pile_tops' = (if pile = length pile_tops then pile_tops @ [index] else pile_tops[pile := index])
      in lis_piles values (index + 1) vs pile_tops' back')"

text \<open>The walk along the back pointers, at most one step per value.\<close>

fun lis_chain :: "nat \<Rightarrow> nat option list \<Rightarrow> nat option \<Rightarrow> nat list" where
  "lis_chain 0 back cursor = []"
| "lis_chain (Suc fuel) back cursor =
     (case cursor of None \<Rightarrow> [] | Some index \<Rightarrow> index # lis_chain fuel back (back ! index))"

definition lis_indexes :: "nat list \<Rightarrow> nat list" where
  "lis_indexes values =
     (let (pile_tops, back) = lis_piles values 0 values [] []
      in rev (lis_chain (length values) back (if pile_tops = [] then None else Some (last pile_tops))))"

text \<open>The common prefix and suffix of two ranges.\<close>

function trim_front :: "nat list \<Rightarrow> nat list \<Rightarrow> nat \<Rightarrow> nat \<Rightarrow> nat \<Rightarrow> nat \<Rightarrow> nat \<times> nat" where
  "trim_front a b a0 a1 b0 b1 =
     (if a0 < a1 \<and> b0 < b1 \<and> a ! a0 = b ! b0 then trim_front a b (a0 + 1) a1 (b0 + 1) b1 else (a0, b0))"
  by pat_completeness auto
termination
  by (relation "measure (\<lambda>(a, b, a0, a1, b0, b1). a1 - a0)") auto

function trim_back :: "nat list \<Rightarrow> nat list \<Rightarrow> nat \<Rightarrow> nat \<Rightarrow> nat \<Rightarrow> nat \<Rightarrow> nat \<times> nat" where
  "trim_back a b a0 a1 b0 b1 =
     (if a1 > a0 \<and> b1 > b0 \<and> a ! (a1 - 1) = b ! (b1 - 1) then trim_back a b a0 (a1 - 1) b0 (b1 - 1) else (a1, b1))"
  by pat_completeness auto
termination
  by (relation "measure (\<lambda>(a, b, a0, a1, b0, b1). a1 - a0)") auto

declare trim_front.simps [simp del] trim_back.simps [simp del]

definition MAX_ANCHOR_MULTIPLICITY :: nat where
  "MAX_ANCHOR_MULTIPLICITY = 8"

definition positions :: "nat list \<Rightarrow> nat \<Rightarrow> nat \<Rightarrow> nat \<Rightarrow> nat list" where
  "positions xs lo hi i = filter (\<lambda>k. xs ! k = i) [lo..<hi]"

definition pairs_at ::
  "nat list \<Rightarrow> nat list \<Rightarrow> nat \<Rightarrow> nat \<Rightarrow> nat \<Rightarrow> nat \<Rightarrow> nat \<Rightarrow> (nat \<times> nat) list" where
  "pairs_at a b a0 a1 b0 b1 multiplicity =
     concat (map (\<lambda>i. let pa = positions a a0 a1 i; pb = positions b b0 b1 i
                      in if length pa = multiplicity \<and> length pb = multiplicity then zip pa pb else [])
       (remdups (map ((!) a) [a0..<a1])))"

fun first_pairs ::
  "nat list \<Rightarrow> nat list \<Rightarrow> nat \<Rightarrow> nat \<Rightarrow> nat \<Rightarrow> nat \<Rightarrow> nat list \<Rightarrow> (nat \<times> nat) list" where
  "first_pairs a b a0 a1 b0 b1 [] = []"
| "first_pairs a b a0 a1 b0 b1 (m # ms) =
     (let pairs = pairs_at a b a0 a1 b0 b1 m
      in if pairs \<noteq> [] then pairs else first_pairs a b a0 a1 b0 b1 ms)"

text \<open>The gaps around a chain of anchors.\<close>

fun gaps :: "nat \<times> nat \<Rightarrow> (nat \<times> nat) list \<Rightarrow> nat \<Rightarrow> nat \<Rightarrow> (nat \<times> nat \<times> nat \<times> nat) list" where
  "gaps prev [] a1 b1 = [(fst prev, a1, snd prev, b1)]"
| "gaps prev ((x, y) # chain) a1 b1 = (fst prev, x, snd prev, y) # gaps (x + 1, y + 1) chain a1 b1"

text \<open>One pass of the loop over a popped range: the operations it emits and the ranges it pushes.\<close>

definition diff_range ::
  "nat list \<Rightarrow> nat list \<Rightarrow> nat \<times> nat \<times> nat \<times> nat \<Rightarrow> raw_op list \<times> (nat \<times> nat \<times> nat \<times> nat) list" where
  "diff_range a b r =
     (let (a0, a1, b0, b1) = r;
          (a0, b0) = trim_front a b a0 a1 b0 b1;
          (a1, b1) = trim_back a b a0 a1 b0 b1;
          op = \<lparr>a_start = a0, a_end = a1, b_start = b0, b_end = b1\<rparr>
      in if a0 = a1 \<and> b0 = b1 then ([], [])
         else if a0 = a1 \<or> b0 = b1 then ([op], [])
         else let pairs = first_pairs a b a0 a1 b0 b1 [1..<MAX_ANCHOR_MULTIPLICITY + 1]
              in if pairs = [] then ([op], [])
                 else let pairs = sort pairs;
                          chain = map ((!) pairs) (lis_indexes (map snd pairs))
                      in ([], gaps (a0, b0) chain a1 b1))"

section \<open>Increasing chains\<close>

definition piles_ok :: "nat list \<Rightarrow> nat \<Rightarrow> nat list \<Rightarrow> nat option list \<Rightarrow> bool" where
  "piles_ok vals n tops links \<longleftrightarrow>
     length links = n \<and> (\<forall>i j. i < n \<longrightarrow> links ! i = Some j \<longrightarrow> j < i \<and> vals ! j < vals ! i)
     \<and> (\<forall>t. t \<in> set tops \<longrightarrow> t < n) \<and> (0 < n \<longrightarrow> tops \<noteq> []) \<and> sorted_wrt (<) (map ((!) vals) tops)"

lemma takeWhile_last:
  assumes "takeWhile p xs \<noteq> []"
  shows "xs ! (length (takeWhile p xs) - 1) \<in> set xs" and "p (xs ! (length (takeWhile p xs) - 1))"
proof -
  let ?n = "length (takeWhile p xs) - 1"
  have n: "?n < length (takeWhile p xs)" using assms by simp
  then have "takeWhile p xs ! ?n = xs ! ?n" by (rule takeWhile_nth)
  moreover have "takeWhile p xs ! ?n \<in> set (takeWhile p xs)" using n by (rule nth_mem)
  ultimately show "xs ! ?n \<in> set xs" "p (xs ! ?n)" using set_takeWhileD by metis+
qed

text \<open>Replacing the first top that is not smaller keeps the tops ascending.\<close>

lemma pile_ascending:
  fixes ws :: "nat list"
  assumes "sorted_wrt (<) ws"
  shows "sorted_wrt (<) (if length (takeWhile (\<lambda>w. w < v) ws) = length ws then ws @ [v]
    else ws[length (takeWhile (\<lambda>w. w < v) ws) := v])"
  using assms
proof (induction ws)
  case (Cons w ws)
  then show ?case by (auto dest!: set_update_subset_insert [THEN subsetD] split: if_splits)
qed simp

lemma piles_ok_step:
  assumes ok: "piles_ok vals n tops links" and n: "n < length vals"
  defines "pile \<equiv> partition_point (\<lambda>top. vals ! top < vals ! n) tops"
  shows "piles_ok vals (n + 1)
    (if pile = length tops then tops @ [n] else tops[pile := n])
    (links @ [if pile = 0 then None else Some (tops ! (pile - 1))])"
proof -
  let ?tops = "if pile = length tops then tops @ [n] else tops[pile := n]"
  let ?links = "links @ [if pile = 0 then None else Some (tops ! (pile - 1))]"
  have len: "length links = n" and tops: "\<And>t. t \<in> set tops \<Longrightarrow> t < n"
    and asc: "sorted_wrt (<) (map ((!) vals) tops)" using ok by (auto simp: piles_ok_def)
  have pile: "pile = length (takeWhile (\<lambda>w. w < vals ! n) (map ((!) vals) tops))"
    by (simp add: pile_def partition_point_def takeWhile_map o_def)
  have "map ((!) vals) ?tops = (if pile = length tops then map ((!) vals) tops @ [vals ! n]
      else (map ((!) vals) tops)[pile := vals ! n])"
    by (simp add: map_update)
  then have "sorted_wrt (<) (map ((!) vals) ?tops)"
    using pile_ascending [OF asc, of "vals ! n"] unfolding pile by (simp split: if_splits)
  moreover have "j < n \<and> vals ! j < vals ! n" if "?links ! n = Some j" for j
  proof -
    from that len have j: "pile \<noteq> 0" "j = tops ! (pile - 1)" by (auto simp: nth_append split: if_splits)
    then have "takeWhile (\<lambda>top. vals ! top < vals ! n) tops \<noteq> []"
      by (auto simp: pile_def partition_point_def)
    from takeWhile_last [OF this] j tops show ?thesis by (auto simp: pile_def partition_point_def)
  qed
  moreover have "t < n + 1" if "t \<in> set ?tops" for t
  proof -
    have "t \<in> insert n (set tops)" using that set_update_subset_insert [of tops pile n] by (auto split: if_splits)
    then show ?thesis using tops by (auto simp: less_Suc_eq)
  qed
  moreover have "j < i \<and> vals ! j < vals ! i" if "i < n" "?links ! i = Some j" for i j
    using that ok len by (simp add: piles_ok_def nth_append)
  moreover have "?tops \<noteq> []" by (cases tops) (auto simp: pile_def partition_point_def)
  ultimately show ?thesis
    using len unfolding piles_ok_def by (simp add: less_Suc_eq)
qed

lemma lis_piles_ok:
  "piles_ok vals n tops links \<Longrightarrow> n \<le> length vals \<Longrightarrow>
    case_prod (piles_ok vals (length vals)) (lis_piles vals n (drop n vals) tops links)"
proof (induction "length vals - n" arbitrary: n tops links)
  case (Suc k)
  then have n: "n < length vals" by simp
  then have drop: "drop n vals = vals ! n # drop (Suc n) vals" by (simp add: Cons_nth_drop_Suc)
  have "piles_ok vals (n + 1)
      (let pile = partition_point (\<lambda>top. vals ! top < vals ! n) tops
       in if pile = length tops then tops @ [n] else tops[pile := n])
      (let pile = partition_point (\<lambda>top. vals ! top < vals ! n) tops
       in links @ [if pile = 0 then None else Some (tops ! (pile - 1))])"
    unfolding Let_def by (rule piles_ok_step [OF Suc.prems(1) n])
  with Suc(1) [of "n + 1"] Suc(2) n show ?case by (simp add: drop Let_def)
qed simp

text \<open>The walk is strictly descending in positions and values, and complete.\<close>

lemma lis_chain_ok:
  assumes "piles_ok vals n tops links"
  shows "i < n \<Longrightarrow> i < fuel \<Longrightarrow>
    sorted_wrt (\<lambda>x y. y < x \<and> vals ! y < vals ! x) (lis_chain fuel links (Some i))
    \<and> (\<forall>x. x \<in> set (lis_chain fuel links (Some i)) \<longrightarrow> x = i \<or> x < i \<and> vals ! x < vals ! i)"
proof (induction fuel arbitrary: i)
  case (Suc fuel)
  show ?case
  proof (cases "links ! i")
    case None
    then show ?thesis by (cases fuel) simp_all
  next
    case (Some j)
    then have j: "j < i" "vals ! j < vals ! i" using assms Suc.prems(1) unfolding piles_ok_def by blast+
    have "j < n" "j < fuel" using j Suc.prems by simp_all
    from Suc.IH [OF this] j show ?thesis by (auto simp: Some)
  qed
qed simp

lemma lis_indexes_ok:
  assumes "vals \<noteq> []"
  shows "lis_indexes vals \<noteq> []" and "sorted_wrt (\<lambda>x y. x < y \<and> vals ! x < vals ! y) (lis_indexes vals)"
    and "set (lis_indexes vals) \<subseteq> {..<length vals}"
proof -
  obtain tops links where piles: "lis_piles vals 0 vals [] [] = (tops, links)" by fastforce
  have ok: "piles_ok vals (length vals) tops links"
    using lis_piles_ok [of vals 0 "[]" "[]"] piles by (simp add: piles_ok_def)
  then have tops: "tops \<noteq> []" "last tops < length vals" using assms by (auto simp: piles_ok_def)
  have lis: "lis_indexes vals = rev (lis_chain (length vals) links (Some (last tops)))"
    by (simp add: lis_indexes_def piles tops(1))
  note chain = lis_chain_ok [OF ok tops(2) tops(2)]
  show "sorted_wrt (\<lambda>x y. x < y \<and> vals ! x < vals ! y) (lis_indexes vals)"
    using chain by (simp add: lis sorted_wrt_rev)
  show "set (lis_indexes vals) \<subseteq> {..<length vals}" using chain tops(2) by (auto simp: lis)
  obtain n where "length vals = Suc n" using assms by (cases vals) auto
  then show "lis_indexes vals \<noteq> []" by (simp add: lis)
qed

section \<open>One pass of the diff\<close>

lemma positions_nth:
  "k \<in> set (positions xs lo hi i) \<longleftrightarrow> lo \<le> k \<and> k < hi \<and> xs ! k = i"
  by (auto simp: positions_def)

lemma pairs_at_match:
  assumes "(x, y) \<in> set (pairs_at a b a0 a1 b0 b1 m)"
  shows "a0 \<le> x \<and> x < a1 \<and> b0 \<le> y \<and> y < b1 \<and> a ! x = b ! y"
proof -
  obtain i where "(x, y) \<in> set (zip (positions a a0 a1 i) (positions b b0 b1 i))"
    using assms by (auto simp: pairs_at_def Let_def split: if_splits)
  then have "x \<in> set (positions a a0 a1 i)" "y \<in> set (positions b b0 b1 i)"
    by (auto dest: set_zip_leftD set_zip_rightD)
  then show ?thesis by (auto simp: positions_nth)
qed

lemma distinct_fst_zip: "distinct xs \<Longrightarrow> distinct (map fst (zip xs ys))"
  by (simp add: map_fst_zip_take)

lemma distinct_fst_concat:
  assumes "distinct is" and "\<And>i. i \<in> set is \<Longrightarrow> distinct (map fst (f i))"
    and "\<And>i x. i \<in> set is \<Longrightarrow> x \<in> fst ` set (f i) \<Longrightarrow> key x = i"
  shows "distinct (map fst (concat (map f is)))"
  using assms
proof (induction "is")
  case (Cons i "is")
  have "fst ` set (f i) \<inter> fst ` (\<Union>j\<in>set is. set (f j)) = {}"
  proof (rule equals0I)
    fix x
    assume "x \<in> fst ` set (f i) \<inter> fst ` (\<Union>j\<in>set is. set (f j))"
    then obtain j where "x \<in> fst ` set (f i)" "j \<in> set is" "x \<in> fst ` set (f j)" by auto
    with Cons.prems(3) [of i x] Cons.prems(3) [of j x] Cons.prems(1) show False by auto
  qed
  with Cons show ?case by (simp add: image_UN)
qed simp

lemma pairs_at_distinct: "distinct (map fst (pairs_at a b a0 a1 b0 b1 m))"
  unfolding pairs_at_def Let_def
proof (rule distinct_fst_concat [where key = "(!) a"], goal_cases)
  case (3 i x)
  then show ?case by (auto simp: positions_def split: if_splits dest!: set_zip_leftD)
qed (simp_all add: positions_def distinct_fst_zip)

lemma first_pairs_ok:
  "distinct (map fst (first_pairs a b a0 a1 b0 b1 ms))"
  "(x, y) \<in> set (first_pairs a b a0 a1 b0 b1 ms) \<Longrightarrow>
    a0 \<le> x \<and> x < a1 \<and> b0 \<le> y \<and> y < b1 \<and> a ! x = b ! y"
  by (induction ms) (auto simp: Let_def pairs_at_distinct dest: pairs_at_match split: if_splits)

lemma sorted_distinct_fst:
  fixes ps :: "(nat \<times> nat) list"
  assumes "distinct (map fst ps)"
  shows "sorted_wrt (<) (map fst (sort ps))"
proof -
  have "sorted (map fst (sort ps))"
    unfolding sorted_map by (rule sorted_wrt_mono_rel [OF _ sorted_sort]) (auto simp: less_eq_prod_def)
  moreover have "distinct (map fst (sort ps))" using assms by (simp add: distinct_map)
  ultimately show ?thesis by (simp add: strict_sorted_iff)
qed

text \<open>An anchor chain in a rectangle: ascending in both coordinates, and matching.\<close>

definition chain_ok :: "nat list \<Rightarrow> nat list \<Rightarrow> nat \<Rightarrow> nat \<Rightarrow> nat \<Rightarrow> nat \<Rightarrow> (nat \<times> nat) list \<Rightarrow> bool" where
  "chain_ok a b a0 a1 b0 b1 chain \<longleftrightarrow>
     sorted_wrt (\<lambda>p q. fst p < fst q \<and> snd p < snd q) chain
     \<and> (\<forall>(x, y) \<in> set chain. a0 \<le> x \<and> x < a1 \<and> b0 \<le> y \<and> y < b1 \<and> a ! x = b ! y)"

lemma anchor_chain_ok:
  fixes ps :: "(nat \<times> nat) list"
  assumes "ps \<noteq> []" "distinct (map fst ps)"
    and match: "\<And>x y. (x, y) \<in> set ps \<Longrightarrow> a0 \<le> x \<and> x < a1 \<and> b0 \<le> y \<and> y < b1 \<and> a ! x = b ! y"
  defines "chain \<equiv> map ((!) (sort ps)) (lis_indexes (map snd (sort ps)))"
  shows "chain_ok a b a0 a1 b0 b1 chain" and "chain \<noteq> []"
proof -
  let ?vs = "map snd (sort ps)"
  have ne: "?vs \<noteq> []" using assms(1) by (metis length_0_conv length_map length_sort)
  have len: "set (lis_indexes ?vs) \<subseteq> {..<length (sort ps)}" using lis_indexes_ok(3) [OF ne] by simp
  show "chain \<noteq> []" using lis_indexes_ok(1) [OF ne] by (simp add: chain_def)
  have fsts: "fst (sort ps ! i) < fst (sort ps ! j)" if "i < j" "j < length (sort ps)" for i j
    using sorted_wrt_nth_less [OF sorted_distinct_fst [OF assms(2)], of i j] that by simp
  have "sorted_wrt (\<lambda>p q. fst p < fst q \<and> snd p < snd q) chain"
    unfolding chain_def sorted_wrt_map
  proof (rule sorted_wrt_mono_rel [OF _ lis_indexes_ok(2) [OF ne]], goal_cases)
    case (1 x y)
    then have "x < length (sort ps)" "y < length (sort ps)" "x < y" "?vs ! x < ?vs ! y" using len by auto
    then show ?case using fsts by simp
  qed
  moreover have "sort ps ! i \<in> set ps" if "i < length (sort ps)" for i using nth_mem [OF that] by simp
  then have "set chain \<subseteq> set ps" using len by (auto simp: chain_def)
  ultimately show "chain_ok a b a0 a1 b0 b1 chain" using match by (fastforce simp: chain_ok_def)
qed

section \<open>Common runs\<close>

text \<open>The run of \<open>a\<close> from \<open>p\<close> to \<open>p'\<close> equals the run of \<open>b\<close> from \<open>q\<close> to \<open>q'\<close>.\<close>

definition common :: "'a list \<Rightarrow> 'a list \<Rightarrow> nat \<Rightarrow> nat \<Rightarrow> nat \<Rightarrow> nat \<Rightarrow> bool" where
  "common a b p q p' q' \<longleftrightarrow>
     p \<le> p' \<and> q \<le> q' \<and> p' \<le> length a \<and> q' \<le> length b \<and> slice a p p' = slice b q q'"

lemma slice_join: "i \<le> j \<Longrightarrow> j \<le> k \<Longrightarrow> slice xs i j @ slice xs j k = slice xs i k"
proof -
  assume "i \<le> j" "j \<le> k"
  then have k: "k - i = (j - i) + (k - j)" and j: "j - i + i = j" by simp_all
  show ?thesis unfolding slice_def k take_add drop_drop j ..
qed

lemma slice_nil [simp]: "slice xs i i = []"
  by (simp add: slice_def)

lemma slice_single: "i < length xs \<Longrightarrow> slice xs i (Suc i) = [xs ! i]"
  by (simp add: slice_def take_Suc hd_drop_conv_nth)

lemma slice_all [simp]: "slice xs 0 (length xs) = xs"
  by (simp add: slice_def)

lemma length_slice [simp]: "j \<le> length xs \<Longrightarrow> length (slice xs i j) = j - i"
  by (simp add: slice_def)

lemma common_refl: "p \<le> length a \<Longrightarrow> q \<le> length b \<Longrightarrow> common a b p q p q"
  by (simp add: common_def)

lemma common_single: "x < length a \<Longrightarrow> y < length b \<Longrightarrow> a ! x = b ! y \<Longrightarrow> common a b x y (Suc x) (Suc y)"
  by (simp add: common_def slice_single)

lemma common_trans: "common a b p q x y \<Longrightarrow> common a b x y p' q' \<Longrightarrow> common a b p q p' q'"
  unfolding common_def by (metis le_trans slice_join)

lemma common_length: "common a b p q p' q' \<Longrightarrow> p' - p = q' - q"
  unfolding common_def by (metis length_slice)

lemma trim_front_ok:
  assumes "trim_front a b a0 a1 b0 b1 = (p, q)"
  shows "a0 \<le> p" and "b0 \<le> q" and "a0 \<le> a1 \<Longrightarrow> p \<le> a1" and "b0 \<le> b1 \<Longrightarrow> q \<le> b1"
    and "a0 \<le> a1 \<Longrightarrow> b0 \<le> b1 \<Longrightarrow> a1 \<le> length a \<Longrightarrow> b1 \<le> length b \<Longrightarrow> common a b a0 b0 p q"
proof -
  have "a0 \<le> p \<and> b0 \<le> q \<and> (a0 \<le> a1 \<longrightarrow> p \<le> a1) \<and> (b0 \<le> b1 \<longrightarrow> q \<le> b1)
    \<and> (a0 \<le> a1 \<longrightarrow> b0 \<le> b1 \<longrightarrow> a1 \<le> length a \<longrightarrow> b1 \<le> length b \<longrightarrow> common a b a0 b0 p q)"
    using assms
  proof (induction a b a0 a1 b0 b1 rule: trim_front.induct)
    case (1 a b a0 a1 b0 b1)
    show ?case
    proof (cases "a0 < a1 \<and> b0 < b1 \<and> a ! a0 = b ! b0")
      case True
      with 1 show ?thesis
        by (auto simp: trim_front.simps [of a b a0] intro: common_trans [OF common_single])
    next
      case False
      with 1(2) show ?thesis by (auto simp: trim_front.simps [of a b a0] intro: common_refl)
    qed
  qed
  then show "a0 \<le> p" "b0 \<le> q" "a0 \<le> a1 \<Longrightarrow> p \<le> a1" "b0 \<le> b1 \<Longrightarrow> q \<le> b1"
    "a0 \<le> a1 \<Longrightarrow> b0 \<le> b1 \<Longrightarrow> a1 \<le> length a \<Longrightarrow> b1 \<le> length b \<Longrightarrow> common a b a0 b0 p q" by auto
qed

lemma trim_back_ok:
  assumes "trim_back a b a0 a1 b0 b1 = (p, q)"
  shows "p \<le> a1" and "q \<le> b1" and "a0 \<le> a1 \<Longrightarrow> a0 \<le> p" and "b0 \<le> b1 \<Longrightarrow> b0 \<le> q"
    and "a0 \<le> a1 \<Longrightarrow> b0 \<le> b1 \<Longrightarrow> a1 \<le> length a \<Longrightarrow> b1 \<le> length b \<Longrightarrow> common a b p q a1 b1"
proof -
  have "p \<le> a1 \<and> q \<le> b1 \<and> (a0 \<le> a1 \<longrightarrow> a0 \<le> p) \<and> (b0 \<le> b1 \<longrightarrow> b0 \<le> q)
    \<and> (a0 \<le> a1 \<longrightarrow> b0 \<le> b1 \<longrightarrow> a1 \<le> length a \<longrightarrow> b1 \<le> length b \<longrightarrow> common a b p q a1 b1)"
    using assms
  proof (induction a b a0 a1 b0 b1 rule: trim_back.induct)
    case (1 a b a0 a1 b0 b1)
    show ?case
    proof (cases "a1 > a0 \<and> b1 > b0 \<and> a ! (a1 - 1) = b ! (b1 - 1)")
      case True
      have last: "common a b (a1 - 1) (b1 - 1) a1 b1" if "a1 \<le> length a" "b1 \<le> length b"
        using common_single [of "a1 - 1" a "b1 - 1" b] that True by auto
      from True 1 have "p \<le> a1 - 1 \<and> q \<le> b1 - 1 \<and> a0 \<le> p \<and> b0 \<le> q
        \<and> (a1 \<le> length a \<longrightarrow> b1 \<le> length b \<longrightarrow> common a b p q (a1 - 1) (b1 - 1))"
        by (auto simp: trim_back.simps [of a b a0])
      with last show ?thesis by (auto intro: common_trans)
    next
      case False
      with 1(2) show ?thesis by (auto simp: trim_back.simps [of a b a0] intro: common_refl)
    qed
  qed
  then show "p \<le> a1" "q \<le> b1" "a0 \<le> a1 \<Longrightarrow> a0 \<le> p" "b0 \<le> b1 \<Longrightarrow> b0 \<le> q"
    "a0 \<le> a1 \<Longrightarrow> b0 \<le> b1 \<Longrightarrow> a1 \<le> length a \<Longrightarrow> b1 \<le> length b \<Longrightarrow> common a b p q a1 b1" by auto
qed

section \<open>The diff terminates\<close>

text \<open>The three shapes of a pass: nothing left, one replacement, or gaps around an anchor chain.\<close>

lemma diff_range_cases:
  assumes "diff_range a b (a0, a1, b0, b1) = (emits, pushes)"
  obtains p q p' q' where "trim_front a b a0 a1 b0 b1 = (p, q)" and "trim_back a b p a1 q b1 = (p', q')"
    and "emits = [] \<and> pushes = [] \<and> p = p' \<and> q = q'
      \<or> emits = [\<lparr>a_start = p, a_end = p', b_start = q, b_end = q'\<rparr>] \<and> pushes = [] \<and> \<not> (p = p' \<and> q = q')
      \<or> (\<exists>chain. emits = [] \<and> pushes = gaps (p, q) chain p' q' \<and> chain \<noteq> [] \<and> chain_ok a b p p' q q' chain)"
proof -
  obtain p q where front: "trim_front a b a0 a1 b0 b1 = (p, q)" by fastforce
  obtain p' q' where rear: "trim_back a b p a1 q b1 = (p', q')" by fastforce
  let ?ps = "first_pairs a b p p' q q' [1..<MAX_ANCHOR_MULTIPLICITY + 1]"
  have "chain_ok a b p p' q q' (map ((!) (sort ?ps)) (lis_indexes (map snd (sort ?ps))))"
    "map ((!) (sort ?ps)) (lis_indexes (map snd (sort ?ps))) \<noteq> []" if "?ps \<noteq> []"
    by (rule anchor_chain_ok [OF that first_pairs_ok(1) first_pairs_ok(2)]; assumption)+
  with assms show thesis
    by (intro that [OF front rear])
      (auto simp: diff_range_def front rear Let_def split: if_splits)
qed

definition weight :: "nat \<times> nat \<times> nat \<times> nat \<Rightarrow> nat" where
  "weight r = 2 * (fst (snd r) - fst r) + 1"

lemma gaps_weight:
  assumes "chain_ok a b p p' q q' chain"
  shows "sum_list (map weight (gaps (p, q) chain p' q')) + length chain \<le> 2 * (p' - p) + 1"
  using assms
proof (induction chain arbitrary: p q)
  case (Cons c chain)
  obtain x y where c: "c = (x, y)" by fastforce
  have "chain_ok a b (x + 1) p' (y + 1) q' chain" and "p \<le> x" "x < p'"
    using Cons.prems by (fastforce simp: c chain_ok_def)+
  with Cons.IH [of "x + 1" "y + 1"] show ?case by (simp add: c weight_def)
qed (simp add: weight_def)

lemma diff_range_weight: "sum_list (map weight (snd (diff_range a b r))) < weight r"
proof -
  obtain a0 a1 b0 b1 where r: "r = (a0, a1, b0, b1)" by (cases r)
  obtain emits pushes where d: "diff_range a b r = (emits, pushes)" by fastforce
  then obtain p q p' q' where trims: "trim_front a b a0 a1 b0 b1 = (p, q)" "trim_back a b p a1 q b1 = (p', q')"
    and pushes: "pushes = [] \<or> (\<exists>chain. pushes = gaps (p, q) chain p' q' \<and> chain \<noteq> []
      \<and> chain_ok a b p p' q q' chain)"
    unfolding r by (rule diff_range_cases) blast
  have width: "p' - p \<le> a1 - a0" using trim_front_ok(1) [OF trims(1)] trim_back_ok(1) [OF trims(2)] by simp
  from pushes consider "pushes = []" | chain where "pushes = gaps (p, q) chain p' q'" "chain \<noteq> []"
    "chain_ok a b p p' q q' chain" by blast
  then show ?thesis
  proof cases
    case 1
    then show ?thesis by (simp add: d weight_def)
  next
    case (2 chain)
    from 2(2) have "0 < length chain" "weight r = 2 * (a1 - a0) + 1" by (simp_all add: r weight_def)
    with gaps_weight [OF 2(3)] width show ?thesis unfolding d 2(1) snd_conv by linarith
  qed
qed

text \<open>
  The work list: the head is the top of the stack. Its weight falls with every pass, since a chain
  takes at least one token out of the range it splits.
\<close>

function patience_loop ::
  "nat list \<Rightarrow> nat list \<Rightarrow> (nat \<times> nat \<times> nat \<times> nat) list \<Rightarrow> raw_op list \<Rightarrow> raw_op list" where
  "patience_loop a b [] ops = ops"
| "patience_loop a b (r # stack) ops =
     patience_loop a b (rev (snd (diff_range a b r)) @ stack) (ops @ fst (diff_range a b r))"
  by pat_completeness auto
termination
proof (relation "measure (\<lambda>(a, b, stack, _). sum_list (map weight stack))", goal_cases)
  case (2 a b r stack ops)
  show ?case using diff_range_weight [of a b r] by (simp add: rev_map [symmetric])
qed simp

definition patience_diff :: "nat list \<Rightarrow> nat list \<Rightarrow> raw_op list" where
  "patience_diff a b =
     sort_key (\<lambda>op. (a_start op, a_end op)) (patience_loop a b [(0, length a, 0, length b)] [])"

section \<open>The diff is an edit script\<close>

text \<open>
  A list of replacements, given as spans of both lists, turns the run of \<open>a\<close> from \<open>p\<close> to \<open>p'\<close> into the
  run of \<open>b\<close> from \<open>q\<close> to \<open>q'\<close>: outside the replacements the two runs agree.
\<close>

type_synonym span = "nat \<times> nat \<times> nat \<times> nat"

fun edits_ok :: "'a list \<Rightarrow> 'a list \<Rightarrow> nat \<Rightarrow> nat \<Rightarrow> span list \<Rightarrow> nat \<Rightarrow> nat \<Rightarrow> bool" where
  "edits_ok a b p q [] p' q' \<longleftrightarrow> common a b p q p' q'"
| "edits_ok a b p q ((s, e, s', e') # ops) p' q' \<longleftrightarrow>
     common a b p q s s' \<and> s \<le> e \<and> s' \<le> e' \<and> (s < e \<or> s' < e') \<and> edits_ok a b e e' ops p' q'"

text \<open>Consecutive replacements have a kept token between them.\<close>

definition spaced :: "span list \<Rightarrow> bool" where
  "spaced ops \<longleftrightarrow> sorted_wrt (\<lambda>(_, e, _, e') (s, _, s', _). e < s \<and> e' < s') ops"

definition raw_span :: "raw_op \<Rightarrow> span" where
  "raw_span op = (a_start op, a_end op, b_start op, b_end op)"

lemma edits_ok_bounds:
  "edits_ok a b p q ops p' q' \<Longrightarrow> p \<le> p' \<and> q \<le> q' \<and> p' \<le> length a \<and> q' \<le> length b
    \<and> (\<forall>(s, e, s', e') \<in> set ops. p \<le> s \<and> s \<le> e \<and> e \<le> p' \<and> q \<le> s' \<and> s' \<le> e' \<and> e' \<le> q' \<and> (s < e \<or> s' < e'))"
proof (induction ops arbitrary: p q)
  case (Cons op ops)
  obtain s e s' e' where op: "op = (s, e, s', e')" by (cases op)
  from Cons.prems have "common a b p q s s'" "s \<le> e" "s' \<le> e'" "s < e \<or> s' < e'" "edits_ok a b e e' ops p' q'"
    by (simp_all add: op)
  with Cons.IH [of e e'] show ?case by (fastforce simp: op common_def)
qed (simp add: common_def)

lemma edits_ok_pre: "common a b p q x y \<Longrightarrow> edits_ok a b x y ops p' q' \<Longrightarrow> edits_ok a b p q ops p' q'"
  by (cases "(a, b, x, y, ops, p', q')" rule: edits_ok.cases) (auto intro: common_trans)

lemma edits_ok_append:
  "edits_ok a b p q ops x y \<Longrightarrow> edits_ok a b x y ops' p' q' \<Longrightarrow> edits_ok a b p q (ops @ ops') p' q'"
  by (induction a b p q ops x y rule: edits_ok.induct) (auto intro: edits_ok_pre)

lemma edits_ok_post: "edits_ok a b p q ops x y \<Longrightarrow> common a b x y p' q' \<Longrightarrow> edits_ok a b p q ops p' q'"
  using edits_ok_append [of a b p q ops x y "[]"] by simp

lemma spaced_append:
  assumes "edits_ok a b p q ops x y" "edits_ok a b x' y' ops' p' q'" "x < x'" "y < y'" "spaced ops" "spaced ops'"
  shows "spaced (ops @ ops')"
proof -
  have "e < s \<and> e' < s'" if "(r, e, r', e') \<in> set ops" "(s, t, s', t') \<in> set ops'" for r e r' e' s t s' t'
    using edits_ok_bounds [OF assms(1)] edits_ok_bounds [OF assms(2)] assms(3,4) that by fastforce
  with assms(5,6) show ?thesis by (auto simp: spaced_def sorted_wrt_append)
qed

lemma gaps_edits:
  assumes "chain_ok a b p p' q q' chain" "p \<le> p'" "q \<le> q'" "p' \<le> length a" "q' \<le> length b"
    and "\<And>r0 r1 s0 s1. (r0, r1, s0, s1) \<in> set (gaps (p, q) chain p' q') \<Longrightarrow> r0 \<le> r1 \<Longrightarrow> s0 \<le> s1
      \<Longrightarrow> r1 \<le> length a \<Longrightarrow> s1 \<le> length b
      \<Longrightarrow> edits_ok a b r0 s0 (f (r0, r1, s0, s1)) r1 s1 \<and> spaced (f (r0, r1, s0, s1))"
  shows "edits_ok a b p q (concat (map f (gaps (p, q) chain p' q'))) p' q'
    \<and> spaced (concat (map f (gaps (p, q) chain p' q')))"
  using assms
proof (induction chain arbitrary: p q)
  case (Cons c chain)
  obtain x y where c: "c = (x, y)" by fastforce
  have chain: "chain_ok a b (x + 1) p' (y + 1) q' chain"
    and x: "p \<le> x" "x < p'" "q \<le> y" "y < q'" "a ! x = b ! y"
    using Cons.prems(1) by (fastforce simp: c chain_ok_def)+
  have one: "edits_ok a b p q (f (p, x, q, y)) x y \<and> spaced (f (p, x, q, y))"
    using Cons.prems(6) [of p x q y] x Cons.prems(4,5) by (simp add: c)
  have rest: "edits_ok a b (x + 1) (y + 1) (concat (map f (gaps (x + 1, y + 1) chain p' q'))) p' q'
      \<and> spaced (concat (map f (gaps (x + 1, y + 1) chain p' q')))"
    by (rule Cons.IH [OF chain]) (use x Cons.prems(4-6) in \<open>auto simp: c\<close>)
  have "common a b x y (x + 1) (y + 1)" using common_single [of x a y b] x Cons.prems(4,5) by simp
  then have "edits_ok a b x y (concat (map f (gaps (x + 1, y + 1) chain p' q'))) p' q'"
    using rest by (auto intro: edits_ok_pre)
  with one rest spaced_append [of a b p q "f (p, x, q, y)" x y "x + 1" "y + 1"] show ?case
    by (auto simp: c intro: edits_ok_append)
qed simp

text \<open>The same diff by recursion on the gaps, in base order.\<close>

lemma sum_list_member_le: "r \<in> set rs \<Longrightarrow> (f r :: nat) \<le> sum_list (map f rs)"
  by (induction rs) auto

lemma pushed_weight: "r' \<in> set (snd (diff_range a b r)) \<Longrightarrow> weight r' < weight r"
  using sum_list_member_le [of r' "snd (diff_range a b r)" weight] diff_range_weight [of a b r] by simp

function patience_ref :: "nat list \<Rightarrow> nat list \<Rightarrow> span \<Rightarrow> raw_op list" where
  "patience_ref a b r =
     fst (diff_range a b r) @ concat (map (patience_ref a b) (snd (diff_range a b r)))"
  by pat_completeness auto
termination
  by (relation "measure (\<lambda>(a, b, r). weight r)") (simp_all add: pushed_weight)

declare patience_ref.simps [simp del]

lemma diff_range_edits:
  assumes "a0 \<le> a1" "b0 \<le> b1" "a1 \<le> length a" "b1 \<le> length b"
    and "\<And>r0 r1 s0 s1. (r0, r1, s0, s1) \<in> set (snd (diff_range a b (a0, a1, b0, b1))) \<Longrightarrow> r0 \<le> r1 \<Longrightarrow> s0 \<le> s1
      \<Longrightarrow> r1 \<le> length a \<Longrightarrow> s1 \<le> length b
      \<Longrightarrow> edits_ok a b r0 s0 (f (r0, r1, s0, s1)) r1 s1 \<and> spaced (f (r0, r1, s0, s1))"
  defines "ops \<equiv> map raw_span (fst (diff_range a b (a0, a1, b0, b1)))
    @ concat (map f (snd (diff_range a b (a0, a1, b0, b1))))"
  shows "edits_ok a b a0 b0 ops a1 b1 \<and> spaced ops"
proof -
  obtain emits pushes where d: "diff_range a b (a0, a1, b0, b1) = (emits, pushes)" by fastforce
  then obtain p q p' q' where trims: "trim_front a b a0 a1 b0 b1 = (p, q)" "trim_back a b p a1 q b1 = (p', q')"
    and shape: "emits = [] \<and> pushes = [] \<and> p = p' \<and> q = q'
      \<or> emits = [\<lparr>a_start = p, a_end = p', b_start = q, b_end = q'\<rparr>] \<and> pushes = [] \<and> \<not> (p = p' \<and> q = q')
      \<or> (\<exists>chain. emits = [] \<and> pushes = gaps (p, q) chain p' q' \<and> chain \<noteq> [] \<and> chain_ok a b p p' q q' chain)"
    by (rule diff_range_cases) blast
  have p: "p \<le> a1" "q \<le> b1" and front: "common a b a0 b0 p q" using trim_front_ok [OF trims(1)] assms by simp_all
  have p': "p \<le> p'" "q \<le> q'" "p' \<le> length a" "q' \<le> length b" and rear: "common a b p' q' a1 b1"
    using trim_back_ok [OF trims(2)] p assms by (simp_all add: common_def)
  have "edits_ok a b p q ops p' q' \<and> spaced ops"
    using shape
  proof (elim disjE exE conjE)
    fix chain
    assume "emits = []" "pushes = gaps (p, q) chain p' q'" "chain_ok a b p p' q q' chain"
    then show ?thesis using gaps_edits [of a b p p' q q' chain f] p' assms(5) by (simp add: ops_def d)
  qed (use p' in \<open>auto simp: ops_def d raw_span_def spaced_def common_refl\<close>)
  then show ?thesis using front rear by (auto intro: edits_ok_pre edits_ok_post)
qed

lemma patience_ref_edits:
  assumes "a0 \<le> a1" "b0 \<le> b1" "a1 \<le> length a" "b1 \<le> length b"
  shows "edits_ok a b a0 b0 (map raw_span (patience_ref a b (a0, a1, b0, b1))) a1 b1
    \<and> spaced (map raw_span (patience_ref a b (a0, a1, b0, b1)))"
  using assms
proof (induction "weight (a0, a1, b0, b1)" arbitrary: a0 a1 b0 b1 rule: less_induct)
  case less
  have ref: "map raw_span (patience_ref a b (a0, a1, b0, b1)) = map raw_span (fst (diff_range a b (a0, a1, b0, b1)))
      @ concat (map (\<lambda>r. map raw_span (patience_ref a b r)) (snd (diff_range a b (a0, a1, b0, b1))))"
    by (subst patience_ref.simps) (simp add: map_concat o_def)
  show ?case unfolding ref
    by (rule diff_range_edits [OF less.prems, where f = "\<lambda>r. map raw_span (patience_ref a b r)"])
      (rule less.hyps [OF pushed_weight]; assumption)
qed

lemma patience_loop_mset:
  "mset (patience_loop a b stack ops) = mset ops + (\<Sum>r\<leftarrow>stack. mset (patience_ref a b r))"
proof (induction a b stack ops rule: patience_loop.induct)
  case (2 a b r stack ops)
  have "mset (patience_ref a b r) = mset (fst (diff_range a b r))
      + (\<Sum>r\<leftarrow>snd (diff_range a b r). mset (patience_ref a b r))"
    by (subst patience_ref.simps) (simp add: mset_concat o_def)
  with 2 show ?case by (simp add: rev_map [symmetric] ac_simps)
qed simp

lemma spaced_keys:
  assumes "spaced (map raw_span ops)" and "\<And>op. op \<in> set ops \<Longrightarrow> a_start op \<le> a_end op"
  shows "sorted (map (\<lambda>op. (a_start op, a_end op)) ops)" and "inj_on (\<lambda>op. (a_start op, a_end op)) (set ops)"
proof -
  have "sorted_wrt (<) (map (\<lambda>op. (a_start op, a_end op)) ops)"
    unfolding sorted_wrt_map
  proof (rule sorted_wrt_mono_rel)
    show "sorted_wrt (\<lambda>x y. a_end x < a_start y) ops"
      using assms(1) by (auto simp: spaced_def raw_span_def sorted_wrt_map elim: sorted_wrt_mono_rel [rotated])
  qed (use assms(2) in fastforce)
  then show "sorted (map (\<lambda>op. (a_start op, a_end op)) ops)"
    and "inj_on (\<lambda>op. (a_start op, a_end op)) (set ops)"
    by (auto simp: strict_sorted_iff distinct_map)
qed

theorem patience_diff_ref: "patience_diff a b = patience_ref a b (0, length a, 0, length b)"
proof -
  let ?ref = "patience_ref a b (0, length a, 0, length b)"
  have ok: "edits_ok a b 0 0 (map raw_span ?ref) (length a) (length b)" "spaced (map raw_span ?ref)"
    using patience_ref_edits [of 0 "length a" 0 "length b" a b] by simp_all
  have "a_start op \<le> a_end op" if "op \<in> set ?ref" for op
    using edits_ok_bounds [OF ok(1)] that by (fastforce simp: raw_span_def)
  note keys = spaced_keys [OF ok(2) this]
  have mset: "mset (patience_loop a b [(0, length a, 0, length b)] []) = mset ?ref"
    by (subst patience_loop_mset) simp
  show ?thesis unfolding patience_diff_def
    by (rule sort_key_inj_key_eq [OF mset _ keys(1)]) (use keys(2) mset_eq_setD [OF mset] in simp)
qed

corollary patience_diff_edits:
  "edits_ok a b 0 0 (map raw_span (patience_diff a b)) (length a) (length b)"
  "spaced (map raw_span (patience_diff a b))"
  using patience_ref_edits [of 0 "length a" 0 "length b" a b] by (simp_all add: patience_diff_ref)

end
