(* ===== verification/Edit_Script.thy ===== *)
theory Edit_Script
  imports Text_Diff
begin

text \<open>
  Edit scripts of the token-level text merge (\<^verbatim>\<open>text_merge.rs\<close>): the two-tier diff of a base text
  and a side, and its correctness. Tokens tile their text, segments tile the tokens, interning is
  injective below \<open>2 ^ 32\<close> slices, and the script of a side rewrites the base tokens into the tokens of
  that side.
\<close>

section \<open>Definitions\<close>

record edit_op =
  base_start :: nat
  base_end :: nat
  repl_start :: nat
  repl_end :: nat

definition token_span :: "(nat \<times> nat) list \<Rightarrow> nat \<Rightarrow> nat \<Rightarrow> nat \<Rightarrow> nat \<times> nat" where
  "token_span segments seg_start seg_end token_len =
     (let start = (if seg_start < length segments then fst (segments ! seg_start) else token_len);
          finish = (if seg_end = 0 then start
                    else if seg_end - 1 < length segments then snd (segments ! (seg_end - 1)) else token_len)
      in (start, max finish start))"

definition coalesce_step :: "edit_op list \<Rightarrow> edit_op \<Rightarrow> edit_op list" where
  "coalesce_step out op =
     (if out \<noteq> [] \<and> base_end (last out) = base_start op \<and> repl_end (last out) = repl_start op
      then butlast out @ [(last out)\<lparr>base_end := base_end op, repl_end := repl_end op\<rparr>]
      else out @ [op])"

definition coalesce :: "edit_op list \<Rightarrow> edit_op list" where
  "coalesce script = foldl coalesce_step [] script"

text \<open>A subslice of a vector; a range outside it panics.\<close>

definition subslice :: "'a list \<Rightarrow> nat \<times> nat \<Rightarrow> 'a list option" where
  "subslice xs span = (if fst span \<le> snd span \<and> snd span \<le> length xs then Some (slice xs (fst span) (snd span)) else None)"

text \<open>The ids of two lists of slices under one table.\<close>

definition intern_pair :: "string list \<Rightarrow> string list \<Rightarrow> nat list \<times> nat list" where
  "intern_pair xs ys = (let (table, is) = intern [] xs in (is, snd (intern table ys)))"

text \<open>The token tier inside the changed segment run of one segment operation.\<close>

definition token_tier ::
  "string \<Rightarrow> token list \<Rightarrow> string \<Rightarrow> token list \<Rightarrow> nat \<times> nat \<Rightarrow> nat \<times> nat \<Rightarrow> edit_op list option" where
  "token_tier base_text base_tokens side_text side_tokens base_range side_range =
     Option.bind (subslice base_tokens base_range) (\<lambda>base_run.
     Option.bind (subslice side_tokens side_range) (\<lambda>side_run.
       let (base_ids, side_ids) = intern_pair (map (tok_text base_text) base_run) (map (tok_text side_text) side_run)
       in Some (map (\<lambda>op. \<lparr>base_start = fst base_range + a_start op, base_end = fst base_range + a_end op,
                            repl_start = fst side_range + b_start op, repl_end = fst side_range + b_end op\<rparr>)
                 (patience_diff base_ids side_ids))))"

fun option_concat :: "'a list option list \<Rightarrow> 'a list option" where
  "option_concat [] = Some []"
| "option_concat (x # xs) = Option.bind x (\<lambda>y. Option.bind (option_concat xs) (\<lambda>ys. Some (y @ ys)))"

fun option_map :: "('a \<Rightarrow> 'b option) \<Rightarrow> 'a list \<Rightarrow> 'b list option" where
  "option_map f [] = Some []"
| "option_map f (x # xs) = Option.bind (f x) (\<lambda>y. Option.bind (option_map f xs) (\<lambda>ys. Some (y # ys)))"

definition build_script ::
  "string \<Rightarrow> token list \<Rightarrow> string \<Rightarrow> token list \<Rightarrow> text_merge_config \<Rightarrow> edit_op list option" where
  "build_script base_text base_tokens side_text side_tokens config =
     (let base_segments = segment_ranges base_text base_tokens config;
          side_segments = segment_ranges side_text side_tokens config
      in Option.bind (option_map (token_text base_text base_tokens) base_segments) (\<lambda>base_texts.
         Option.bind (option_map (token_text side_text side_tokens) side_segments) (\<lambda>side_texts.
           let (base_seg_ids, side_seg_ids) = intern_pair base_texts side_texts
           in Option.bind (option_concat (map (\<lambda>seg_op.
                token_tier base_text base_tokens side_text side_tokens
                  (token_span base_segments (a_start seg_op) (a_end seg_op) (length base_tokens))
                  (token_span side_segments (b_start seg_op) (b_end seg_op) (length side_tokens)))
                (patience_diff base_seg_ids side_seg_ids)))
              (\<lambda>script. Some (coalesce (sort_key (\<lambda>op. (base_start op, base_end op)) script))))))"

section \<open>Tokens tile the text\<close>

lemma utf8_len_pos: "0 < utf8_len c"
  by (simp add: utf8_len_def Let_def)

lemma concat_utf8_chars [simp]: "concat (utf8_chars s) = s"
  by (induction s rule: utf8_chars.induct) simp_all

text \<open>The runs of characters behind the tokens, and the token texts.\<close>

function runs :: "(string \<Rightarrow> bool) \<Rightarrow> string list \<Rightarrow> string list list" where
  "runs alnum [] = []"
| "runs alnum (ch # chs) =
     (let c = class_of alnum ch;
          run = (if c \<noteq> Other then takeWhile (\<lambda>ch'. class_of alnum ch' = c) chs else [])
      in (ch # run) # runs alnum (drop (length run) chs))"
  by pat_completeness auto
termination
  by (relation "measure (\<lambda>(_, chs). length chs)") auto

definition words :: "(string \<Rightarrow> bool) \<Rightarrow> string \<Rightarrow> string list" where
  "words alnum s = map concat (runs alnum (utf8_chars s))"

fun tiles :: "nat \<Rightarrow> string list \<Rightarrow> token list \<Rightarrow> bool" where
  "tiles n [] [] \<longleftrightarrow> True"
| "tiles n (w # ws) (t # ts) \<longleftrightarrow> tok_start t = n \<and> tok_end t = n + length w \<and> tiles (n + length w) ws ts"
| "tiles n _ _ \<longleftrightarrow> False"

lemma tokenize_from_tiles: "tiles start (map concat (runs alnum chs)) (tokenize_from alnum start chs)"
  by (induction alnum start chs rule: tokenize_from.induct) (simp_all add: Let_def add.assoc)

lemma takeWhile_drop: "takeWhile p xs @ drop (length (takeWhile p xs)) xs = xs"
  by (simp add: dropWhile_eq_drop [symmetric])

lemma concat_runs [simp]: "concat (runs alnum chs) = chs"
  by (induction alnum chs rule: runs.induct) (simp_all add: Let_def takeWhile_drop)

lemma concat_map_concat: "concat (map concat xsss) = concat (concat xsss)"
  by (induction xsss) simp_all

lemma concat_words [simp]: "concat (words alnum s) = s"
  by (simp add: words_def concat_map_concat)

lemma utf8_chars_nonempty: "[] \<notin> set (utf8_chars s)"
  using utf8_len_pos by (induction s rule: utf8_chars.induct) (auto simp: take_Cons')

lemma runs_nonempty: "[] \<notin> set (runs alnum chs)"
  by (induction alnum chs rule: runs.induct) (auto simp: Let_def)

lemma words_nonempty: "[] \<notin> set (words alnum s)"
proof
  assume "[] \<in> set (words alnum s)"
  then obtain r where r: "r \<in> set (runs alnum (utf8_chars s))" "concat r = []" by (auto simp: words_def)
  then have "set r \<subseteq> set (utf8_chars s)" using concat_runs [of alnum "utf8_chars s"] by (metis UN_upper set_concat)
  moreover have "r \<noteq> []" using r(1) runs_nonempty [of alnum "utf8_chars s"] by blast
  then have "[] \<in> set r" using r(2) by (cases r) simp_all
  ultimately show False using utf8_chars_nonempty [of s] by blast
qed

text \<open>Where a block starts in the concatenation.\<close>

definition offset :: "'a list list \<Rightarrow> nat \<Rightarrow> nat" where
  "offset blocks k = length (concat (take k blocks))"

lemma offset_simps [simp]: "offset blocks 0 = 0" "offset (x # blocks) (Suc k) = length x + offset blocks k"
  by (simp_all add: offset_def)

lemma offset_length [simp]: "offset blocks (length blocks) = length (concat blocks)"
  by (simp add: offset_def)

lemma concat_slice: "i \<le> j \<Longrightarrow> concat (take i blocks) @ concat (slice blocks i j) = concat (take j blocks)"
  using slice_join [of 0 i j blocks] by (simp add: slice_def flip: concat_append)

lemma slice_middle: "slice (xs @ ys @ zs) (length xs) (length (xs @ ys)) = ys"
  by (simp add: slice_def)

lemma slice_concat:
  assumes "i \<le> j"
  shows "slice (concat blocks) (offset blocks i) (offset blocks j) = concat (slice blocks i j)"
proof -
  have "concat blocks = concat (take j blocks) @ concat (drop j blocks)" by (simp flip: concat_append)
  then have "concat blocks = concat (take i blocks) @ concat (slice blocks i j) @ concat (drop j blocks)"
    using concat_slice [OF assms, of blocks] by simp
  moreover have "offset blocks j = length (concat (take i blocks) @ concat (slice blocks i j))"
    unfolding offset_def concat_slice [OF assms] ..
  ultimately show ?thesis using slice_middle by (simp only: offset_def)
qed

lemma offset_mono: "i \<le> j \<Longrightarrow> offset blocks i \<le> offset blocks j"
  unfolding offset_def using concat_slice [of i j blocks, THEN arg_cong, of length] by simp

lemma offset_strict:
  assumes "[] \<notin> set blocks" "i < j" "j \<le> length blocks"
  shows "offset blocks i < offset blocks j"
proof -
  have "slice blocks i (Suc i) = [blocks ! i]" using assms by (simp add: slice_single)
  then have "offset blocks i + length (blocks ! i) = offset blocks (Suc i)"
    unfolding offset_def using concat_slice [of i "Suc i" blocks, THEN arg_cong, of length] by simp
  moreover have "blocks ! i \<in> set blocks" using assms by simp
  then have "0 < length (blocks ! i)" using assms(1) by auto
  ultimately show ?thesis using offset_mono [OF Suc_leI [OF assms(2)], of blocks] by linarith
qed

lemma offset_le: "offset blocks i \<le> length (concat blocks)"
proof (cases "i \<le> length blocks")
  case True
  then show ?thesis using offset_mono [of i "length blocks" blocks] by simp
qed (simp add: offset_def)

lemma tiles_nth:
  "tiles n ws ts \<Longrightarrow> length ts = length ws
    \<and> (\<forall>i. i < length ts \<longrightarrow> tok_start (ts ! i) = n + offset ws i \<and> tok_end (ts ! i) = n + offset ws (Suc i))"
proof (induction n ws ts rule: tiles.induct)
  case (2 n w ws t ts)
  then show ?case by (auto simp: nth_Cons split: nat.splits)
qed simp_all

lemma tokenize_tiles: "tiles 0 (words alnum s) (tokenize alnum s)"
  unfolding words_def tokenize_def by (rule tokenize_from_tiles)

lemma tokenize_length [simp]: "length (tokenize alnum s) = length (words alnum s)"
  using tiles_nth [OF tokenize_tiles] by blast

lemma tok_text_nth:
  assumes "i < length (words alnum s)"
  shows "tok_text s (tokenize alnum s ! i) = words alnum s ! i"
proof -
  have "tok_text s (tokenize alnum s ! i)
      = slice (concat (words alnum s)) (offset (words alnum s) i) (offset (words alnum s) (Suc i))"
    using tiles_nth [OF tokenize_tiles, of alnum s] assms by (simp add: tok_text_def)
  also have "\<dots> = words alnum s ! i"
    by (subst slice_concat) (use assms in \<open>simp_all add: slice_single\<close>)
  finally show ?thesis .
qed

lemma map_tok_text: "map (tok_text s) (tokenize alnum s) = words alnum s"
  by (rule nth_equalityI) (simp_all add: tok_text_nth)

lemma token_text_slice:
  assumes "i \<le> j" "j \<le> length (words alnum s)"
  shows "token_text s (tokenize alnum s) (i, j) = Some (concat (slice (words alnum s) i j))"
proof (cases "i = j")
  case False
  with assms have "j - 1 < length (words alnum s)" "Suc (j - 1) = j" "i < length (words alnum s)" by auto
  then have "token_text s (tokenize alnum s) (i, j)
      = Some (slice (concat (words alnum s)) (offset (words alnum s) i) (offset (words alnum s) j))"
    using tiles_nth [OF tokenize_tiles, of alnum s] assms False by (simp add: token_text_def)
  then show ?thesis using slice_concat [of i j "words alnum s"] assms by simp
qed (simp add: token_text_def)

section \<open>Equal texts have equal tokens\<close>

text \<open>
  A run of tokens, cut out of its text, tokenizes to itself. So two runs of tokens with the same text
  are the same tokens, which is what lets the segment tier compare whole segments.
\<close>

lemma closed_slice:
  assumes "\<And>n s. f (concat (take n (f s))) = take n (f s)" "\<And>n s. f (concat (drop n (f s))) = drop n (f s)"
  shows "f (concat (slice (f s) i j)) = slice (f s) i j"
  using assms(1) [of "j - i" "concat (drop i (f s))"] by (simp add: assms(2) slice_def)

lemma utf8_chars_step: "s \<noteq> [] \<Longrightarrow> utf8_chars s = take (utf8_len (hd s)) s # utf8_chars (drop (utf8_len (hd s)) s)"
  by (cases s) simp_all

lemma utf8_chars_take: "utf8_chars (concat (take n (utf8_chars s))) = take n (utf8_chars s)"
proof (induction s arbitrary: n rule: utf8_chars.induct)
  case (2 c s)
  show ?case
  proof (cases n)
    case (Suc m)
    let ?k = "utf8_len c" and ?z = "concat (take m (utf8_chars (drop (utf8_len c) (c # s))))"
    have "take ?k (take ?k (c # s) @ ?z) = take ?k (c # s)" "drop ?k (take ?k (c # s) @ ?z) = ?z"
      by (cases "?k \<le> length (c # s)"; simp add: min_def)+
    moreover have "hd (take ?k (c # s) @ ?z) = c" "take ?k (c # s) @ ?z \<noteq> []"
      using utf8_len_pos [of c] by (simp_all add: take_Cons')
    ultimately show ?thesis
      using 2 [of m] by (subst utf8_chars_step) (simp_all add: Suc)
  qed simp
qed simp

lemma utf8_chars_drop: "utf8_chars (concat (drop n (utf8_chars s))) = drop n (utf8_chars s)"
proof (induction s arbitrary: n rule: utf8_chars.induct)
  case (2 c s)
  then show ?case by (cases n) simp_all
qed simp

lemma takeWhile_prefix_rest:
  assumes "prefix ys (drop (length (takeWhile p xs)) xs)"
  shows "takeWhile p (takeWhile p xs @ ys) = takeWhile p xs"
proof (cases ys)
  case (Cons y ys')
  then obtain zs where "dropWhile p xs = y # ys' @ zs"
    using assms by (auto simp: dropWhile_eq_drop prefix_def)
  then have "\<not> p y" using hd_dropWhile [of p xs] by simp
  moreover have "takeWhile p (takeWhile p xs @ ys) = takeWhile p xs @ takeWhile p ys"
    by (rule takeWhile_append2) (auto dest: set_takeWhileD)
  ultimately show ?thesis by (simp add: Cons)
qed simp

lemma concat_take_prefix: "prefix (concat (take n xs)) (concat xs)"
  by (metis append_take_drop_id concat_append prefixI)

lemma runs_take: "runs alnum (concat (take n (runs alnum chs))) = take n (runs alnum chs)"
proof (induction alnum chs arbitrary: n rule: runs.induct)
  case (2 alnum ch chs)
  define c where "c = class_of alnum ch"
  define run where "run = (if c \<noteq> Other then takeWhile (\<lambda>ch'. class_of alnum ch' = c) chs else [])"
  have runs: "runs alnum (ch # chs) = (ch # run) # runs alnum (drop (length run) chs)"
    by (simp add: c_def run_def Let_def)
  show ?case
  proof (cases n)
    case (Suc m)
    let ?z = "concat (take m (runs alnum (drop (length run) chs)))"
    have "prefix ?z (drop (length run) chs)"
      using concat_take_prefix [of m "runs alnum (drop (length run) chs)"] by simp
    then have "(if c \<noteq> Other then takeWhile (\<lambda>ch'. class_of alnum ch' = c) (run @ ?z) else []) = run"
      using takeWhile_prefix_rest [of ?z "\<lambda>ch'. class_of alnum ch' = c" chs]
      by (cases "c = Other") (simp_all add: run_def)
    then have "runs alnum (ch # run @ ?z) = (ch # run) # runs alnum ?z"
      by (simp add: c_def [symmetric] Let_def)
    with 2 [OF c_def run_def, of m] show ?thesis unfolding runs Suc by simp
  qed simp
qed simp

lemma runs_drop: "runs alnum (concat (drop n (runs alnum chs))) = drop n (runs alnum chs)"
proof (induction alnum chs arbitrary: n rule: runs.induct)
  case (2 alnum ch chs)
  show ?case
  proof (cases n)
    case 0
    then show ?thesis by (simp del: runs.simps)
  next
    case (Suc m)
    with 2 [OF refl refl, of m] show ?thesis by (simp add: Let_def)
  qed
qed simp

lemma map_slice: "map f (slice xs i j) = slice (map f xs) i j"
  by (simp add: slice_def take_map drop_map)

lemma words_slice:
  assumes "i \<le> j"
  shows "words alnum (concat (slice (words alnum s) i j)) = slice (words alnum s) i j"
proof -
  let ?chars = "utf8_chars s" and ?runs = "runs alnum (utf8_chars s)"
  have run: "concat (slice ?runs i j) = slice ?chars (offset ?runs i) (offset ?runs j)"
    using slice_concat [OF assms, of ?runs] by simp
  have "concat (slice (words alnum s) i j) = concat (concat (slice ?runs i j))"
    by (simp add: words_def map_slice [symmetric] concat_map_concat)
  also have "utf8_chars \<dots> = concat (slice ?runs i j)"
    unfolding run by (rule closed_slice [OF utf8_chars_take utf8_chars_drop])
  finally show ?thesis
    using closed_slice [where f = "runs alnum", OF runs_take runs_drop, of "utf8_chars s" i j]
    by (simp add: words_def [of alnum "concat _"] map_slice) (simp add: words_def)
qed

section \<open>Segments tile the tokens\<close>

fun seg_tile :: "nat \<Rightarrow> (nat \<times> nat) list \<Rightarrow> nat \<Rightarrow> bool" where
  "seg_tile start [] n \<longleftrightarrow> start = n"
| "seg_tile start ((s, e) # segs) n \<longleftrightarrow> s = start \<and> s < e \<and> seg_tile e segs n"

lemma segments_from_tile:
  "start \<le> index \<Longrightarrow> seg_tile start (segments_from body config start index ts) (index + length ts)"
  by (induction body config start index ts rule: segments_from.induct) (auto simp: Let_def)

lemma segment_ranges_tile: "seg_tile 0 (segment_ranges body tokens config) (length tokens)"
  using segments_from_tile [of 0 0 body config tokens] by (simp add: segment_ranges_def)

lemma seg_tile_le: "seg_tile start segs n \<Longrightarrow> start \<le> n"
  by (induction start segs n rule: seg_tile.induct) auto

definition seg_blocks :: "'a list \<Rightarrow> (nat \<times> nat) list \<Rightarrow> 'a list list" where
  "seg_blocks ws segs = map (\<lambda>(s, e). slice ws s e) segs"

lemma length_seg_blocks [simp]: "length (seg_blocks ws segs) = length segs"
  by (simp add: seg_blocks_def)

lemma seg_blocks_concat:
  "seg_tile start segs n \<Longrightarrow> n \<le> length ws \<Longrightarrow> concat (seg_blocks ws segs) = slice ws start n"
proof (induction start segs n rule: seg_tile.induct)
  case (2 start s e segs n)
  then show ?case using seg_tile_le [of e segs n] by (simp add: seg_blocks_def slice_join)
qed (simp add: seg_blocks_def)

lemma seg_blocks_nonempty:
  assumes "seg_tile start segs n" "n \<le> length ws"
  shows "[] \<notin> set (seg_blocks ws segs)"
  using assms
proof (induction start segs n rule: seg_tile.induct)
  case (2 start s e segs n)
  then have "e \<le> length ws" using seg_tile_le [of e segs n] by simp
  then have "length (slice ws s e) = e - s" by simp
  with 2 show ?case by (auto simp: seg_blocks_def)
qed (simp add: seg_blocks_def)

lemma seg_bounds:
  "seg_tile start segs n \<Longrightarrow> n \<le> length ws \<Longrightarrow> k \<le> length segs \<Longrightarrow>
    start + offset (seg_blocks ws segs) k = (if k < length segs then fst (segs ! k) else n)
    \<and> (0 < k \<longrightarrow> start + offset (seg_blocks ws segs) k = snd (segs ! (k - 1)))"
proof (induction start segs n arbitrary: k rule: seg_tile.induct)
  case (2 start s e segs n)
  have "e \<le> length ws" "s < e" "seg_tile e segs n" using 2(2,3) seg_tile_le [of e segs n] by simp_all
  then have "length (slice ws s e) = e - s" by simp
  then have "start + offset (seg_blocks ws ((s, e) # segs)) (Suc i) = e + offset (seg_blocks ws segs) i" for i
    using 2(2) by (simp add: seg_blocks_def)
  with 2(1) [of "k - 1"] 2(2-4) show ?case by (cases k; cases "k - 1") auto
qed (simp add: seg_blocks_def)

lemma token_span_offset:
  assumes "seg_tile 0 segs (length ws)" "s \<le> e" "e \<le> length segs"
  shows "token_span segs s e (length ws) = (offset (seg_blocks ws segs) s, offset (seg_blocks ws segs) e)"
proof -
  have s: "(if s < length segs then fst (segs ! s) else length ws) = offset (seg_blocks ws segs) s"
    using seg_bounds [OF assms(1) order_refl, of s] assms(2,3) by simp
  have e: "(if e = 0 then offset (seg_blocks ws segs) s else if e - 1 < length segs then snd (segs ! (e - 1)) else length ws)
      = offset (seg_blocks ws segs) e"
    using seg_bounds [OF assms(1) order_refl, of e] assms(2,3) by auto
  show ?thesis unfolding token_span_def Let_def s e using offset_mono [OF assms(2), of "seg_blocks ws segs"] by simp
qed

section \<open>Interning is injective\<close>

definition table_ok :: "(string \<times> nat) list \<Rightarrow> bool" where
  "table_ok table \<longleftrightarrow> distinct (map fst table) \<and> map snd table = map (\<lambda>i. i mod 2 ^ 32) [0..<length table]"

lemma table_ok_inj:
  assumes "table_ok table" "length table \<le> 2 ^ 32" "map_of table x = Some i" "map_of table y = Some i"
  shows "x = y"
proof -
  have nth: "snd (table ! k) = k" if "k < length table" for k
    using assms(1,2) that nth_map [of k table snd] by (simp add: table_ok_def)
  obtain k l where "k < length table" "table ! k = (x, i)" "l < length table" "table ! l = (y, i)"
    using assms(3,4) by (metis in_set_conv_nth map_of_SomeD)
  with nth [of k] nth [of l] show ?thesis by simp
qed

lemma intern_ok:
  assumes "table_ok table" "intern table xs = (table', is)"
  shows "table_ok table' \<and> length table' \<le> length table + length xs \<and> map_of table \<subseteq>\<^sub>m map_of table'
    \<and> map Some is = map (map_of table') xs"
  using assms
proof (induction xs arbitrary: table table' "is")
  case (Cons x xs)
  let ?i = "case map_of table x of Some i \<Rightarrow> i | None \<Rightarrow> length table mod 2 ^ 32"
  define mid where "mid = (case map_of table x of Some i \<Rightarrow> table | None \<Rightarrow> table @ [(x, ?i)])"
  obtain js where js: "intern mid xs = (table', js)" "is = ?i # js"
    using Cons.prems(2) by (auto simp: mid_def Let_def split: option.splits prod.splits)
  have mid: "table_ok mid \<and> map_of table \<subseteq>\<^sub>m map_of mid \<and> map_of mid x = Some ?i \<and> length mid \<le> Suc (length table)"
  proof (cases "map_of table x")
    case None
    then have "x \<notin> fst ` set table" by (simp add: map_of_eq_None_iff)
    with None Cons.prems(1) show ?thesis
      by (auto simp: mid_def table_ok_def map_le_def map_add_def dom_map_of_conv_image_fst)
  qed (use Cons.prems(1) in \<open>simp add: mid_def\<close>)
  note ih = Cons.IH [OF mid [THEN conjunct1] js(1)]
  have "map_of table' x = Some ?i" using ih mid unfolding map_le_def by (metis domI)
  moreover have "map_of table \<subseteq>\<^sub>m map_of table'" using ih mid map_le_trans by blast
  ultimately show ?case using ih mid js(2) by simp
qed simp

lemma interned_mono:
  assumes "map Some is = map m xs" "m \<subseteq>\<^sub>m m'"
  shows "map Some is = map m' xs"
proof -
  have "m x = m' x" if "x \<in> set xs" for x
  proof -
    have "m x \<in> set (map Some is)" using that by (simp add: assms(1))
    then show ?thesis using assms(2) by (auto simp: map_le_def dom_def)
  qed
  then show ?thesis using assms(1) by simp
qed

lemma interned_some:
  assumes "map Some is = map m xs" "x \<in> set xs"
  shows "\<exists>i. m x = Some i"
proof -
  have "m x \<in> set (map Some is)" using assms(2) by (simp add: assms(1))
  then show ?thesis by auto
qed

lemma intern_pair_ids:
  assumes "length xs + length ys \<le> 2 ^ 32"
  obtains g where "intern_pair xs ys = (map g xs, map g ys)" and "inj_on g (set xs \<union> set ys)"
proof -
  obtain t1 "is" where i1: "intern [] xs = (t1, is)" by fastforce
  obtain t2 js where i2: "intern t1 ys = (t2, js)" by fastforce
  have ok1: "table_ok t1" "length t1 \<le> length xs" "map Some is = map (map_of t1) xs"
    using intern_ok [OF _ i1] by (simp_all add: table_ok_def)
  have ok2: "table_ok t2" "length t2 \<le> length t1 + length ys" "map_of t1 \<subseteq>\<^sub>m map_of t2" "map Some js = map (map_of t2) ys"
    using intern_ok [OF ok1(1) i2] by simp_all
  let ?g = "the \<circ> map_of t2"
  note is1 = interned_mono [OF ok1(3) ok2(3)]
  have ids: "is = map ?g xs" "js = map ?g ys"
    using arg_cong [OF is1, of "map the"] arg_cong [OF ok2(4), of "map the"] by (simp_all add: o_def)
  have some: "\<exists>i. map_of t2 x = Some i" if "x \<in> set xs \<union> set ys" for x
    using that interned_some [OF is1] interned_some [OF ok2(4)] by blast
  have small: "length t2 \<le> 2 ^ 32" using ok1(2) ok2(2) assms by linarith
  have "inj_on ?g (set xs \<union> set ys)"
  proof (rule inj_onI)
    fix x y
    assume "x \<in> set xs \<union> set ys" "y \<in> set xs \<union> set ys" and g: "?g x = ?g y"
    then obtain i j where "map_of t2 x = Some i" "map_of t2 y = Some j" using some by blast
    with g table_ok_inj [OF ok2(1) small] show "x = y" by simp
  qed
  moreover have "intern_pair xs ys = (map ?g xs, map ?g ys)" by (simp add: intern_pair_def i1 i2 ids)
  ultimately show thesis using that by blast
qed

section \<open>Transporting edits\<close>

lemma set_slice: "set (slice xs i j) \<subseteq> set xs"
  unfolding slice_def by (meson order_trans set_drop_subset set_take_subset)

lemma common_map:
  assumes "inj_on g (set a \<union> set b)" "common (map g a) (map g b) p q p' q'"
  shows "common a b p q p' q'"
proof -
  have "map g (slice a p p') = map g (slice b q q')" using assms(2) by (simp add: common_def map_slice)
  moreover have "inj_on g (set (slice a p p') \<union> set (slice b q q'))"
    using assms(1) set_slice [of a p p'] set_slice [of b q q'] by (meson Un_mono inj_on_subset)
  ultimately have "slice a p p' = slice b q q'" by (rule map_inj_on)
  then show ?thesis using assms(2) by (simp add: common_def)
qed

lemma edits_ok_map:
  "inj_on g (set a \<union> set b) \<Longrightarrow> edits_ok (map g a) (map g b) p q ops p' q' \<Longrightarrow> edits_ok a b p q ops p' q'"
  by (induction ops arbitrary: p q) (auto intro: common_map)

lemma slice_slice: "j \<le> e - s \<Longrightarrow> slice (slice xs s e) i j = slice xs (s + i) (s + j)"
  by (cases "i \<le> j") (simp_all add: slice_def drop_take min_def add.commute)

lemma common_shift:
  assumes "common (slice a s e) (slice b s' e') p q p' q'" "s \<le> e" "s' \<le> e'" "e \<le> length a" "e' \<le> length b"
  shows "common a b (s + p) (s' + q) (s + p') (s' + q')"
  using assms by (auto simp: common_def slice_slice)

definition shift_span :: "nat \<Rightarrow> nat \<Rightarrow> span \<Rightarrow> span" where
  "shift_span m n op = (case op of (s, e, s', e') \<Rightarrow> (m + s, m + e, n + s', n + e'))"

lemma edits_ok_shift:
  assumes "edits_ok (slice a s e) (slice b s' e') p q ops p' q'" "s \<le> e" "s' \<le> e'" "e \<le> length a" "e' \<le> length b"
  shows "edits_ok a b (s + p) (s' + q) (map (shift_span s s') ops) (s + p') (s' + q')"
  using assms
proof (induction ops arbitrary: p q)
  case (Cons op ops)
  then show ?case by (cases op) (auto simp: shift_span_def intro: common_shift)
qed (simp add: common_shift)

lemma spaced_shift: "spaced (map (shift_span m n) ops) = spaced ops"
  by (simp add: spaced_def sorted_wrt_map shift_span_def case_prod_unfold)

lemma common_concat:
  "common A B p q p' q' \<Longrightarrow> common (concat A) (concat B) (offset A p) (offset B q) (offset A p') (offset B q')"
  by (auto simp: common_def offset_mono offset_le slice_concat)

text \<open>Refining the edits between blocks into edits between the concatenations.\<close>

lemma edits_refine:
  assumes "edits_ok A B p q ops p' q'" "spaced ops" "[] \<notin> set A" "[] \<notin> set B"
    and "\<And>s e s' e'. (s, e, s', e') \<in> set ops \<Longrightarrow> s \<le> e \<Longrightarrow> s' \<le> e' \<Longrightarrow> e \<le> length A \<Longrightarrow> e' \<le> length B
      \<Longrightarrow> edits_ok (concat A) (concat B) (offset A s) (offset B s') (f (s, e, s', e')) (offset A e) (offset B e')
        \<and> spaced (f (s, e, s', e'))"
  shows "edits_ok (concat A) (concat B) (offset A p) (offset B q) (concat (map f ops)) (offset A p') (offset B q')
    \<and> spaced (concat (map f ops))"
  using assms
proof (induction ops arbitrary: p q)
  case (Cons op ops)
  obtain s e s' e' where op: "op = (s, e, s', e')" by (cases op)
  have c: "common A B p q s s'" and le: "s \<le> e" "s' \<le> e'" and rest: "edits_ok A B e e' ops p' q'"
    using Cons.prems(1) by (simp_all add: op)
  have "e \<le> length A" "e' \<le> length B" using edits_ok_bounds [OF rest] by simp_all
  then have one: "edits_ok (concat A) (concat B) (offset A s) (offset B s') (f op) (offset A e) (offset B e')" "spaced (f op)"
    using Cons.prems(5) [of s e s' e'] le by (simp_all add: op)
  have "edits_ok (concat A) (concat B) (offset A e) (offset B e') (concat (map f ops)) (offset A p') (offset B q')
      \<and> spaced (f op @ concat (map f ops))"
  proof (cases ops)
    case Nil
    then show ?thesis using common_concat rest one(2) by simp
  next
    case (Cons op2 ops2)
    obtain t u t' u' where op2: "op2 = (t, u, t', u')" by (cases op2)
    have t: "e < t" "e' < t'" and ops: "spaced ops" using Cons.prems(2) by (simp_all add: spaced_def Cons op op2)
    have c2: "common A B e e' t t'" using rest by (simp add: Cons op2)
    then have "edits_ok A B t t' ops p' q'" using rest by (simp add: Cons op2 common_def)
    then have ih: "edits_ok (concat A) (concat B) (offset A t) (offset B t') (concat (map f ops)) (offset A p') (offset B q')"
      "spaced (concat (map f ops))"
      using Cons.IH [of t t'] ops Cons.prems(3-5) by simp_all
    have "offset A e < offset A t" "offset B e' < offset B t'"
      using t c2 Cons.prems(3,4) by (simp_all add: common_def offset_strict)
    with spaced_append [OF one(1) ih(1) _ _ one(2) ih(2)] edits_ok_pre [OF common_concat [OF c2] ih(1)] show ?thesis by simp
  qed
  with one edits_ok_pre [OF common_concat [OF c]] show ?case by (auto intro: edits_ok_append)
qed (simp add: common_concat spaced_def)

section \<open>The script of a side\<close>

definition edit_span :: "edit_op \<Rightarrow> span" where
  "edit_span op = (base_start op, base_end op, repl_start op, repl_end op)"

text \<open>A script whose operations rewrite the words \<open>ws\<close> into \<open>ws'\<close>, with a kept word between any two.\<close>

definition script_ok :: "string list \<Rightarrow> string list \<Rightarrow> edit_op list \<Rightarrow> bool" where
  "script_ok ws ws' script \<longleftrightarrow>
     edits_ok ws ws' 0 0 (map edit_span script) (length ws) (length ws') \<and> spaced (map edit_span script)"

lemma spaced_script:
  "spaced (map edit_span script) \<longleftrightarrow>
    sorted_wrt (\<lambda>x y. base_end x < base_start y \<and> repl_end x < repl_start y) script"
  by (simp add: spaced_def edit_span_def sorted_wrt_map)

lemma coalesce_spaced: "spaced (map edit_span script) \<Longrightarrow> coalesce script = script"
proof -
  have "spaced (map edit_span (out @ script)) \<Longrightarrow> foldl coalesce_step out script = out @ script" for out
  proof (induction script arbitrary: out)
    case (Cons op script)
    have "coalesce_step out op = out @ [op]"
    proof (cases "out = []")
      case False
      then have "base_end (last out) < base_start op"
        using Cons.prems last_in_set [OF False] unfolding spaced_script by (simp add: sorted_wrt_append)
      then show ?thesis by (simp add: coalesce_step_def)
    qed (simp add: coalesce_step_def)
    then show ?case using Cons.IH [of "out @ [op]"] Cons.prems by simp
  qed simp
  from this [of "[]"] show "spaced (map edit_span script) \<Longrightarrow> coalesce script = script" by (simp add: coalesce_def)
qed

lemma sort_script:
  assumes "edits_ok ws ws' p q (map edit_span script) p' q'" "spaced (map edit_span script)"
  shows "sort_key (\<lambda>op. (base_start op, base_end op)) script = script"
proof (rule sort_key_id_if_sorted)
  have le: "base_start op \<le> base_end op" if "op \<in> set script" for op
    using edits_ok_bounds [OF assms(1)] that by (fastforce simp: edit_span_def)
  show "sorted (map (\<lambda>op. (base_start op, base_end op)) script)"
    unfolding sorted_map
  proof (rule sorted_wrt_mono_rel [OF _ assms(2) [unfolded spaced_script]])
    fix x y
    assume "x \<in> set script" "base_end x < base_start y \<and> repl_end x < repl_start y"
    with le [of x] have "base_start x < base_start y" by linarith
    then show "(base_start x, base_end x) \<le> (base_start y, base_end y)" by simp
  qed
qed

lemma token_tier_edits:
  assumes "s \<le> e" "s' \<le> e'" "e \<le> length (words alnum b)" "e' \<le> length (words alnum x)"
    and "length (words alnum b) + length (words alnum x) \<le> 2 ^ 32"
  shows "\<exists>ops. token_tier b (tokenize alnum b) x (tokenize alnum x) (s, e) (s', e') = Some ops
    \<and> edits_ok (words alnum b) (words alnum x) s s' (map edit_span ops) e e' \<and> spaced (map edit_span ops)"
proof -
  let ?wb = "slice (words alnum b) s e" and ?wx = "slice (words alnum x) s' e'"
  have "length ?wb + length ?wx \<le> 2 ^ 32" using assms by simp
  then obtain g where ids: "intern_pair ?wb ?wx = (map g ?wb, map g ?wx)" and inj: "inj_on g (set ?wb \<union> set ?wx)"
    by (rule intern_pair_ids)
  let ?raw = "patience_diff (map g ?wb) (map g ?wx)"
  define ops where "ops = map (\<lambda>op. \<lparr>base_start = s + a_start op, base_end = s + a_end op,
    repl_start = s' + b_start op, repl_end = s' + b_end op\<rparr>) ?raw"
  have "token_tier b (tokenize alnum b) x (tokenize alnum x) (s, e) (s', e') = Some ops"
    using assms ids by (simp add: token_tier_def subslice_def map_slice map_tok_text ops_def)
  moreover have spans: "map edit_span ops = map (shift_span s s') (map raw_span ?raw)"
    by (simp add: ops_def edit_span_def raw_span_def shift_span_def)
  moreover have "edits_ok ?wb ?wx 0 0 (map raw_span ?raw) (e - s) (e' - s')"
    using edits_ok_map [OF inj] patience_diff_edits(1) [of "map g ?wb" "map g ?wx"] assms by simp
  then have "edits_ok (words alnum b) (words alnum x) s s' (map edit_span ops) e e'"
    using edits_ok_shift assms unfolding spans by fastforce
  moreover have "spaced (map edit_span ops)" unfolding spans spaced_shift by (rule patience_diff_edits(2))
  ultimately show ?thesis by blast
qed

lemma option_map_some: "(\<And>x. x \<in> set xs \<Longrightarrow> f x = Some (g x)) \<Longrightarrow> option_map f xs = Some (map g xs)"
  by (induction xs) simp_all

lemma option_concat_some:
  "(\<And>x. x \<in> set xs \<Longrightarrow> f x = Some (g x)) \<Longrightarrow> option_concat (map f xs) = Some (concat (map g xs))"
  by (induction xs) simp_all

lemma seg_tile_bounds: "seg_tile start segs n \<Longrightarrow> (s, e) \<in> set segs \<Longrightarrow> s < e \<and> e \<le> n"
  by (induction start segs n rule: seg_tile.induct) (auto dest: seg_tile_le)

lemma segment_texts:
  fixes alnum s config
  defines "segs \<equiv> segment_ranges s (tokenize alnum s) config"
  shows "option_map (token_text s (tokenize alnum s)) segs = Some (map concat (seg_blocks (words alnum s) segs))"
proof -
  have "token_text s (tokenize alnum s) seg = Some (concat (slice (words alnum s) (fst seg) (snd seg)))"
    if "seg \<in> set segs" for seg
    using seg_tile_bounds [OF segment_ranges_tile, of "fst seg" "snd seg" s "tokenize alnum s" config] that
      token_text_slice [of "fst seg" "snd seg" alnum s] by (simp add: segs_def)
  then have "option_map (token_text s (tokenize alnum s)) segs
      = Some (map (\<lambda>seg. concat (slice (words alnum s) (fst seg) (snd seg))) segs)" by (rule option_map_some)
  then show ?thesis by (simp add: seg_blocks_def case_prod_unfold)
qed

lemma segment_blocks_inj:
  assumes "blocks \<subseteq> {slice (words alnum s) i j |s i j. i \<le> j}"
  shows "inj_on concat blocks"
proof (rule inj_on_inverseI [where g = "words alnum"])
  fix blk
  assume "blk \<in> blocks"
  with assms obtain s i j where "blk = slice (words alnum s) i j" "i \<le> j" by blast
  then show "words alnum (concat blk) = blk" by (simp add: words_slice)
qed

lemma block_count: "[] \<notin> set blocks \<Longrightarrow> length blocks \<le> length (concat blocks)"
proof (induction blocks)
  case (Cons x blocks)
  then show ?case by (cases x) simp_all
qed simp

lemma segment_blocks:
  fixes alnum s config
  defines "segs \<equiv> segment_ranges s (tokenize alnum s) config"
  defines "blocks \<equiv> seg_blocks (words alnum s) segs"
  shows "seg_tile 0 segs (length (words alnum s))" and "concat blocks = words alnum s" and "[] \<notin> set blocks"
    and "length blocks \<le> length (words alnum s)" and "set blocks \<subseteq> {slice (words alnum s) i j |s i j. i \<le> j}"
proof -
  show tile: "seg_tile 0 segs (length (words alnum s))"
    using segment_ranges_tile [of s "tokenize alnum s" config] by (simp add: segs_def)
  show "concat blocks = words alnum s" and ne: "[] \<notin> set blocks"
    using seg_blocks_concat [OF tile order_refl] seg_blocks_nonempty [OF tile order_refl] by (simp_all add: blocks_def)
  with block_count [OF ne] show "length blocks \<le> length (words alnum s)" by simp
  show "set blocks \<subseteq> {slice (words alnum s) i j |s i j. i \<le> j}"
    using seg_tile_bounds [OF tile] by (fastforce simp: blocks_def seg_blocks_def)
qed

text \<open>The segment tier: the segments of both texts, interned and aligned.\<close>

lemma segment_tier_edits:
  fixes alnum b x config
  defines "sb \<equiv> segment_ranges b (tokenize alnum b) config" and "sx \<equiv> segment_ranges x (tokenize alnum x) config"
  defines "B \<equiv> seg_blocks (words alnum b) sb" and "X \<equiv> seg_blocks (words alnum x) sx"
  defines "ids \<equiv> intern_pair (map concat B) (map concat X)"
  assumes small: "length (words alnum b) + length (words alnum x) \<le> 2 ^ 32"
  shows "edits_ok B X 0 0 (map raw_span (patience_diff (fst ids) (snd ids))) (length B) (length X)"
    and "spaced (map raw_span (patience_diff (fst ids) (snd ids)))"
proof -
  note b = segment_blocks [where alnum = alnum and s = b and config = config, folded sb_def, folded B_def]
  note x = segment_blocks [where alnum = alnum and s = x and config = config, folded sx_def, folded X_def]
  have "length (map concat B) + length (map concat X) \<le> 2 ^ 32" using b(4) x(4) small by simp
  then obtain g where ids: "ids = (map g (map concat B), map g (map concat X))"
    and "inj_on g (set (map concat B) \<union> set (map concat X))" unfolding ids_def by (rule intern_pair_ids)
  moreover have "inj_on concat (set B \<union> set X)" using b(5) x(5) by (intro segment_blocks_inj) simp
  ultimately have inj: "inj_on (g \<circ> concat) (set B \<union> set X)" by (simp add: comp_inj_on image_Un)
  show "edits_ok B X 0 0 (map raw_span (patience_diff (fst ids) (snd ids))) (length B) (length X)"
    using edits_ok_map [OF inj] patience_diff_edits(1) [of "fst ids" "snd ids"] by (simp add: ids)
  show "spaced (map raw_span (patience_diff (fst ids) (snd ids)))" by (rule patience_diff_edits(2))
qed

text \<open>The token tier on the span of one segment operation.\<close>

lemma segment_op_edits:
  fixes alnum b x config
  defines "sb \<equiv> segment_ranges b (tokenize alnum b) config" and "sx \<equiv> segment_ranges x (tokenize alnum x) config"
  defines "B \<equiv> seg_blocks (words alnum b) sb" and "X \<equiv> seg_blocks (words alnum x) sx"
  assumes small: "length (words alnum b) + length (words alnum x) \<le> 2 ^ 32"
    and le: "s \<le> e" "s' \<le> e'" "e \<le> length B" "e' \<le> length X"
  shows "\<exists>ops. token_tier b (tokenize alnum b) x (tokenize alnum x)
      (token_span sb s e (length (tokenize alnum b))) (token_span sx s' e' (length (tokenize alnum x))) = Some ops
    \<and> edits_ok (concat B) (concat X) (offset B s) (offset X s') (map edit_span ops) (offset B e) (offset X e')
    \<and> spaced (map edit_span ops)"
proof -
  note b = segment_blocks [where alnum = alnum and s = b and config = config, folded sb_def, folded B_def]
  note x = segment_blocks [where alnum = alnum and s = x and config = config, folded sx_def, folded X_def]
  have "token_span sb s e (length (tokenize alnum b)) = (offset B s, offset B e)"
    using token_span_offset [OF b(1) le(1)] le(3) by (simp add: B_def)
  moreover have "token_span sx s' e' (length (tokenize alnum x)) = (offset X s', offset X e')"
    using token_span_offset [OF x(1) le(2)] le(4) by (simp add: X_def)
  ultimately show ?thesis
    using token_tier_edits [OF offset_mono [OF le(1)] offset_mono [OF le(2)] _ _ small, of B X]
      offset_le [of B e] offset_le [of X e'] by (simp add: b(2) x(2))
qed

theorem build_script_ok:
  assumes small: "length (words alnum b) + length (words alnum x) \<le> 2 ^ 32"
  shows "\<exists>script. build_script b (tokenize alnum b) x (tokenize alnum x) config = Some script
    \<and> script_ok (words alnum b) (words alnum x) script"
proof -
  define sb where "sb = segment_ranges b (tokenize alnum b) config"
  define sx where "sx = segment_ranges x (tokenize alnum x) config"
  define B where "B = seg_blocks (words alnum b) sb"
  define X where "X = seg_blocks (words alnum x) sx"
  define ids where "ids = intern_pair (map concat B) (map concat X)"
  note b = segment_blocks [where alnum = alnum and s = b and config = config, folded sb_def, folded B_def]
  note x = segment_blocks [where alnum = alnum and s = x and config = config, folded sx_def, folded X_def]
  let ?raw = "patience_diff (fst ids) (snd ids)"
  note raw = segment_tier_edits [OF small, where config = config, folded sb_def sx_def, folded B_def X_def, folded ids_def]
  define tier where "tier = (\<lambda>(s, e, s', e'). token_tier b (tokenize alnum b) x (tokenize alnum x)
    (token_span sb s e (length (tokenize alnum b))) (token_span sx s' e' (length (tokenize alnum x))))"
  define f where "f = (\<lambda>span. the (tier span))"
  have tier: "tier (s, e, s', e') = Some (f (s, e, s', e'))
      \<and> edits_ok (concat B) (concat X) (offset B s) (offset X s') (map edit_span (f (s, e, s', e'))) (offset B e) (offset X e')
      \<and> spaced (map edit_span (f (s, e, s', e')))" if "s \<le> e" "s' \<le> e'" "e \<le> length B" "e' \<le> length X" for s e s' e'
    using segment_op_edits [where alnum = alnum and b = b and x = x and config = config, folded sb_def sx_def, folded B_def X_def, OF small that]
    by (auto simp: tier_def f_def)
  let ?script = "concat (map f (map raw_span ?raw))"
  have "edits_ok (concat B) (concat X) (offset B 0) (offset X 0) (concat (map (map edit_span \<circ> f) (map raw_span ?raw)))
      (offset B (length B)) (offset X (length X)) \<and> spaced (concat (map (map edit_span \<circ> f) (map raw_span ?raw)))"
    by (rule edits_refine [OF raw b(3) x(3)]) (use tier in simp)
  moreover have "map edit_span ?script = concat (map (map edit_span \<circ> f) (map raw_span ?raw))" by (simp add: map_concat o_assoc)
  ultimately have ok: "script_ok (words alnum b) (words alnum x) ?script" by (simp add: script_ok_def b(2) x(2))
  have "option_concat (map (tier \<circ> raw_span) ?raw) = Some (concat (map (f \<circ> raw_span) ?raw))"
  proof (rule option_concat_some)
    fix op
    assume "op \<in> set ?raw"
    with edits_ok_bounds [OF raw(1)] show "(tier \<circ> raw_span) op = Some ((f \<circ> raw_span) op)"
      using tier by (fastforce simp: raw_span_def)
  qed
  moreover have "option_map (token_text b (tokenize alnum b)) sb = Some (map concat B)"
    "option_map (token_text x (tokenize alnum x)) sx = Some (map concat X)"
    by (simp_all add: sb_def sx_def B_def X_def segment_texts)
  ultimately have "build_script b (tokenize alnum b) x (tokenize alnum x) config
      = Some (coalesce (sort_key (\<lambda>op. (base_start op, base_end op)) ?script))"
    by (simp add: build_script_def Let_def sb_def [symmetric] sx_def [symmetric] ids_def [symmetric] case_prod_unfold
        tier_def raw_span_def o_def)
  with ok show ?thesis unfolding script_ok_def using sort_script coalesce_spaced by metis
qed

text \<open>Applying a script: the base outside the operations, the side's replacement inside.\<close>

fun apply_script :: "'a list \<Rightarrow> 'a list \<Rightarrow> nat \<Rightarrow> edit_op list \<Rightarrow> 'a list" where
  "apply_script base side c [] = drop c base"
| "apply_script base side c (op # ops) =
     slice base c (base_start op) @ slice side (repl_start op) (repl_end op) @ apply_script base side (base_end op) ops"

lemma slice_to_end: "slice xs i (length xs) = drop i xs"
  by (simp add: slice_def)

lemma apply_script_edits:
  "edits_ok ws ws' c p (map edit_span ops) (length ws) (length ws') \<Longrightarrow> apply_script ws ws' c ops = drop p ws'"
proof (induction ops arbitrary: c p)
  case Nil
  then show ?case by (simp add: common_def slice_to_end)
next
  case (Cons op ops)
  from Cons.prems have c: "common ws ws' c p (base_start op) (repl_start op)" and le: "repl_start op \<le> repl_end op"
    and rest: "edits_ok ws ws' (base_end op) (repl_end op) (map edit_span ops) (length ws) (length ws')"
    by (simp_all add: edit_span_def [of op])
  have "repl_end op \<le> length ws'" using edits_ok_bounds [OF rest] by simp
  then have "slice ws' p (repl_start op) @ slice ws' (repl_start op) (repl_end op) @ drop (repl_end op) ws' = drop p ws'"
    using c le slice_join [of p "repl_start op" "repl_end op" ws'] slice_join [of p "repl_end op" "length ws'" ws']
    by (simp add: common_def slice_to_end flip: append_assoc)
  with c Cons.IH [OF rest] show ?case by (simp add: common_def)
qed

text \<open>
  C18. The edit script of a side is computed for every two texts whose tokens number at most \<open>2 ^ 32\<close>: no index
  leaves its range. Its operations are in base order with at least one kept token between any two, and
  applying it to the tokens of the base gives exactly the tokens of the side.\<close>

theorem edit_script_rebuilds_side:
  assumes "length (tokenize alnum b) + length (tokenize alnum x) \<le> 2 ^ 32"
  shows "\<exists>script. build_script b (tokenize alnum b) x (tokenize alnum x) config = Some script
    \<and> apply_script (map (tok_text b) (tokenize alnum b)) (map (tok_text x) (tokenize alnum x)) 0 script
        = map (tok_text x) (tokenize alnum x)
    \<and> sorted_wrt (\<lambda>p q. base_end p < base_start q \<and> repl_end p < repl_start q) script"
proof -
  have "length (words alnum b) + length (words alnum x) \<le> 2 ^ 32" using assms by simp
  then obtain script where script: "build_script b (tokenize alnum b) x (tokenize alnum x) config = Some script"
    "script_ok (words alnum b) (words alnum x) script" using build_script_ok by blast
  then have "apply_script (words alnum b) (words alnum x) 0 script = words alnum x"
    using apply_script_edits [of "words alnum b" "words alnum x" 0 0 script] by (simp add: script_ok_def)
  with script show ?thesis by (simp add: map_tok_text script_ok_def spaced_script)
qed

theorem edit_script_rebuilds_side_witness:
  "\<exists>script. build_script ''a b'' (tokenize (\<lambda>_. False) ''a b'') ''a'' (tokenize (\<lambda>_. False) ''a'') default_config = Some script
    \<and> apply_script [''a'', '' '', ''b''] [''a''] 0 script = [''a'']"
proof -
  have tokens: "tokenize (\<lambda>_. False) ''a b'' = [\<lparr>tok_start = 0, tok_end = 1, tok_class = Other\<rparr>,
      \<lparr>tok_start = 1, tok_end = 2, tok_class = Space\<rparr>, \<lparr>tok_start = 2, tok_end = 3, tok_class = Other\<rparr>]"
    "tokenize (\<lambda>_. False) ''a'' = [\<lparr>tok_start = 0, tok_end = 1, tok_class = Other\<rparr>]" by code_simp+
  from edit_script_rebuilds_side [of "\<lambda>_. False" "''a b''" "''a''" default_config] show ?thesis
    unfolding tokens by (auto simp: tok_text_def slice_def)
qed

text \<open>
  Tokens tile their text: every token is non-empty, and the token texts concatenated are the text,
  byte for byte.\<close>

theorem tokens_tile_text:
  "concat (map (tok_text s) (tokenize alnum s)) = s \<and> [] \<notin> set (map (tok_text s) (tokenize alnum s))"
  by (simp only: map_tok_text concat_words words_nonempty simp_thms not_False_eq_True)

end
