(* ===== verification/Text_Merge.thy ===== *)
theory Text_Merge
  imports Edit_Script
begin

text \<open>
  The certified compose of the token-level text merge (\<^verbatim>\<open>text_merge.rs\<close>): the edit scripts of both
  sides become items, conflicting items are joined into regions by union-find, the regions absorb what
  their spans touch, and the result is a list of pieces with their provenance.

  \<open>None\<close> is a panic (an index out of range) or a loop that does not end. The iteration order of the
  two hash maps whose order can show, the spans of a round and the final groups, is a parameter.
\<close>

section \<open>Outcomes\<close>

datatype provenance = Base | Ours | Theirs | Both | Resolved

datatype merge_piece =
    Merged (piece_text: string) (piece_provenance: provenance)
  | Conflict (base_text: string) (ours_text: string) (theirs_text: string)

datatype text_merge_outcome = Clean "merge_piece list" (merged: string) | Conflicted "merge_piece list"

fun pieces :: "text_merge_outcome \<Rightarrow> merge_piece list" where
  "pieces (Clean ps m) = ps"
| "pieces (Conflicted ps) = ps"

fun is_conflict :: "merge_piece \<Rightarrow> bool" where
  "is_conflict (Conflict b x y) = True"
| "is_conflict (Merged s v) = False"

definition from_pieces :: "merge_piece list \<Rightarrow> text_merge_outcome" where
  "from_pieces ps =
     (if list_ex is_conflict ps then Conflicted ps else Clean ps (concat (map piece_text ps)))"

section \<open>Items\<close>

datatype item_side = SideOurs | SideTheirs | SideBoth

record item =
  item_side :: item_side
  item_op :: edit_op

text \<open>Prefix counts of words and of paragraph breaks over the base tokens.\<close>

definition newlines :: "string \<Rightarrow> nat" where
  "newlines s = length (filter (\<lambda>c. c = CHR 0x0A) s)"

definition word_prefix :: "token list \<Rightarrow> nat list" where
  "word_prefix tokens =
     foldl (\<lambda>acc t. acc @ [last acc + (if tok_class t = Word then 1 else 0)]) [0] tokens"

definition paragraph_prefix :: "string \<Rightarrow> token list \<Rightarrow> nat list" where
  "paragraph_prefix b tokens =
     foldl (\<lambda>acc t. acc @ [last acc + (if tok_class t = Space \<and> newlines (tok_text b t) \<ge> 2 then 1 else 0)]) [0] tokens"

text \<open>
  The tables have one entry more than there are tokens, and the spans compared below end within the
  tokens, so the look-ups stay in range.
\<close>

definition gap_words :: "nat list \<Rightarrow> nat \<Rightarrow> nat \<Rightarrow> nat" where
  "gap_words wp left_end right_start = wp ! max right_start left_end - wp ! left_end"

definition gap_has_paragraph_break :: "nat list \<Rightarrow> nat \<Rightarrow> nat \<Rightarrow> bool" where
  "gap_has_paragraph_break pp left_end right_start \<longleftrightarrow> pp ! max right_start left_end > pp ! left_end"

text \<open>The first unused operation of the other side with the same span and the same replacement text.\<close>

fun find_convergent ::
  "(edit_op \<Rightarrow> edit_op \<Rightarrow> bool option) \<Rightarrow> bool list \<Rightarrow> edit_op \<Rightarrow> nat \<Rightarrow> edit_op list \<Rightarrow> nat option option" where
  "find_convergent same used op i [] = Some None"
| "find_convergent same used op i (t # ts) =
     (if \<not> used ! i \<and> base_start t = base_start op \<and> base_end t = base_end op
      then Option.bind (same t op) (\<lambda>eq. if eq then Some (Some i) else find_convergent same used op (i + 1) ts)
      else find_convergent same used op (i + 1) ts)"

fun pair_ops ::
  "(edit_op \<Rightarrow> edit_op \<Rightarrow> bool option) \<Rightarrow> edit_op list \<Rightarrow> edit_op list \<Rightarrow> bool list
    \<Rightarrow> (item list \<times> bool list) option" where
  "pair_ops same theirs [] used = Some ([], used)"
| "pair_ops same theirs (op # ops) used =
     Option.bind (find_convergent same used op 0 theirs) (\<lambda>hit.
       case hit of
         Some i \<Rightarrow> Option.bind (pair_ops same theirs ops (used[i := True]))
           (\<lambda>(items, used). Some (\<lparr>item_side = SideBoth, item_op = op\<rparr> # items, used))
       | None \<Rightarrow> Option.bind (pair_ops same theirs ops used)
           (\<lambda>(items, used). Some (\<lparr>item_side = SideOurs, item_op = op\<rparr> # items, used)))"

definition same_text ::
  "string \<Rightarrow> token list \<Rightarrow> string \<Rightarrow> token list \<Rightarrow> edit_op \<Rightarrow> edit_op \<Rightarrow> bool option" where
  "same_text theirs theirs_tokens ours ours_tokens t op =
     Option.bind (token_text theirs theirs_tokens (repl_start t, repl_end t)) (\<lambda>x.
     Option.bind (token_text ours ours_tokens (repl_start op, repl_end op)) (\<lambda>y. Some (x = y)))"

definition item_key :: "item \<Rightarrow> nat \<times> nat" where
  "item_key it = (base_start (item_op it), base_end (item_op it))"

definition merge_items ::
  "(edit_op \<Rightarrow> edit_op \<Rightarrow> bool option) \<Rightarrow> edit_op list \<Rightarrow> edit_op list \<Rightarrow> item list option" where
  "merge_items same ours_script theirs_script =
     Option.bind (pair_ops same theirs_script ours_script (replicate (length theirs_script) False)) (\<lambda>(items, used).
       Some (sort_key item_key
         (items @ map (\<lambda>(u, t). \<lparr>item_side = SideTheirs, item_op = t\<rparr>) (filter (\<lambda>(u, t). \<not> u) (zip used theirs_script)))))"

definition conflicting :: "text_merge_config \<Rightarrow> nat list \<Rightarrow> nat list \<Rightarrow> item \<Rightarrow> item \<Rightarrow> bool" where
  "conflicting config wp pp a b =
     (if item_side a = SideBoth \<or> item_side b = SideBoth \<or> item_side a = item_side b then False
      else let (first, second) = (if base_start (item_op a) \<le> base_start (item_op b) then (item_op a, item_op b)
                                  else (item_op b, item_op a))
      in if base_start first < base_end second \<and> base_start second < base_end first then True
      else let a_point = (base_start (item_op a) = base_end (item_op a));
               b_point = (base_start (item_op b) = base_end (item_op b))
      in if a_point \<and> b_point then base_start (item_op a) = base_start (item_op b)
      else if a_point \<and> base_start (item_op b) \<le> base_start (item_op a) \<and> base_start (item_op a) \<le> base_end (item_op b)
      then True
      else if b_point \<and> base_start (item_op a) \<le> base_start (item_op b) \<and> base_start (item_op b) \<le> base_end (item_op a)
      then True
      else if base_start second \<ge> base_end first
      then if gap_has_paragraph_break pp (base_end first) (base_start second) then False
           else gap_words wp (base_end first) (base_start second) < proximity_gap config
      else False)"

section \<open>Regions\<close>

definition get :: "'a list \<Rightarrow> nat \<Rightarrow> 'a option" where
  "get xs i = (if i < length xs then Some (xs ! i) else None)"

text \<open>The root of an index, halving the path on the way.\<close>

partial_function (option) root :: "nat list \<Rightarrow> nat \<Rightarrow> (nat list \<times> nat) option" where
  "root parent cursor =
     Option.bind (get parent cursor) (\<lambda>p.
       if p = cursor then Some (parent, cursor)
       else Option.bind (get parent p) (\<lambda>grand. root (parent[cursor := grand]) grand))"

fun join_pairs ::
  "(nat \<Rightarrow> nat \<Rightarrow> bool) \<Rightarrow> (nat \<times> nat) list \<Rightarrow> nat list \<Rightarrow> bool \<Rightarrow> (nat list \<times> bool) option" where
  "join_pairs conflict [] parent any_conflict = Some (parent, any_conflict)"
| "join_pairs conflict ((a, b) # ps) parent any_conflict =
     (if conflict a b
      then Option.bind (root parent a) (\<lambda>(parent, ra).
           Option.bind (root parent b) (\<lambda>(parent, rb).
             join_pairs conflict ps (parent[max ra rb := min ra rb]) True))
      else join_pairs conflict ps parent any_conflict)"

definition index_pairs :: "nat \<Rightarrow> (nat \<times> nat) list" where
  "index_pairs n = concat (map (\<lambda>a. map (\<lambda>b. (a, b)) [a + 1..<n]) [0..<n])"

text \<open>The span of a group: its least start, its greatest end and its number of members.\<close>

type_synonym group_span = "nat \<times> nat \<times> nat"

definition widen :: "edit_op \<Rightarrow> group_span \<Rightarrow> group_span" where
  "widen op sp = (case sp of (lo, hi, n) \<Rightarrow> (min lo (base_start op), max hi (base_end op), n + 1))"

fun enter :: "nat \<Rightarrow> edit_op \<Rightarrow> (nat \<times> group_span) list \<Rightarrow> (nat \<times> group_span) list" where
  "enter g op [] = [(g, widen op (2 ^ 64 - 1, 0, 0))]"
| "enter g op ((h, sp) # spans) = (if h = g then (h, widen op sp) # spans else (h, sp) # enter g op spans)"

fun collect_spans ::
  "nat \<Rightarrow> item list \<Rightarrow> nat list \<Rightarrow> (nat \<times> group_span) list \<Rightarrow> (nat list \<times> (nat \<times> group_span) list) option" where
  "collect_spans index [] parent spans = Some (parent, spans)"
| "collect_spans index (it # items) parent spans =
     Option.bind (root parent index) (\<lambda>(parent, g).
       collect_spans (index + 1) items parent (enter g (item_op it) spans))"

fun absorb_into ::
  "nat \<Rightarrow> edit_op \<Rightarrow> nat \<Rightarrow> (nat \<times> group_span) list \<Rightarrow> nat list \<Rightarrow> bool \<Rightarrow> (nat list \<times> bool) option" where
  "absorb_into index op grp [] parent changed = Some (parent, changed)"
| "absorb_into index op grp ((other, lo, hi, members) # spans) parent changed =
     (if other = grp \<or> members < 2 then absorb_into index op grp spans parent changed
      else if base_start op \<le> hi \<and> lo \<le> base_end op
      then Option.bind (root parent index) (\<lambda>(parent, ra).
             if max ra other < length parent
             then absorb_into index op grp spans (parent[max ra other := min ra other]) True else None)
      else absorb_into index op grp spans parent changed)"

fun absorb_items ::
  "nat \<Rightarrow> item list \<Rightarrow> (nat \<times> group_span) list \<Rightarrow> nat list \<Rightarrow> bool \<Rightarrow> (nat list \<times> bool) option" where
  "absorb_items index [] spans parent changed = Some (parent, changed)"
| "absorb_items index (it # items) spans parent changed =
     Option.bind (root parent index) (\<lambda>(parent, grp).
     Option.bind (absorb_into index (item_op it) grp spans parent changed) (\<lambda>(parent, changed).
       absorb_items (index + 1) items spans parent changed))"

definition absorb_round ::
  "((nat \<times> group_span) list \<Rightarrow> (nat \<times> group_span) list) \<Rightarrow> item list \<Rightarrow> nat list \<Rightarrow> (nat list \<times> bool) option" where
  "absorb_round span_order items parent =
     Option.bind (collect_spans 0 items parent []) (\<lambda>(parent, spans).
       absorb_items 0 items (span_order spans) parent False)"

partial_function (option) absorb_loop ::
  "((nat \<times> group_span) list \<Rightarrow> (nat \<times> group_span) list) \<Rightarrow> item list \<Rightarrow> nat list \<Rightarrow> nat list option" where
  "absorb_loop span_order items parent =
     Option.bind (absorb_round span_order items parent) (\<lambda>(parent, changed).
       if changed then absorb_loop span_order items parent else Some parent)"

fun join_group :: "nat \<Rightarrow> nat \<Rightarrow> (nat \<times> nat list) list \<Rightarrow> (nat \<times> nat list) list" where
  "join_group g index [] = [(g, [index])]"
| "join_group g index ((h, ms) # groups) =
     (if h = g then (h, ms @ [index]) # groups else (h, ms) # join_group g index groups)"

fun collect_groups ::
  "nat list \<Rightarrow> nat list \<Rightarrow> (nat \<times> nat list) list \<Rightarrow> (nat \<times> nat list) list option" where
  "collect_groups [] parent groups = Some groups"
| "collect_groups (index # indexes) parent groups =
     Option.bind (root parent index) (\<lambda>(parent, g). collect_groups indexes parent (join_group g index groups))"

datatype emit = EmitOp item | EmitRegion nat nat

definition emit_of :: "item list \<Rightarrow> nat list \<Rightarrow> emit" where
  "emit_of items members =
     (if length members = 1 then EmitOp (items ! hd members)
      else EmitRegion (Min (set (map (\<lambda>i. base_start (item_op (items ! i))) members)))
                      (Max (set (map (\<lambda>i. base_end (item_op (items ! i))) members))))"

fun emit_key :: "emit \<Rightarrow> nat \<times> nat" where
  "emit_key (EmitOp it) = item_key it"
| "emit_key (EmitRegion lo hi) = (lo, hi)"

definition merge_emits ::
  "((nat \<times> group_span) list \<Rightarrow> (nat \<times> group_span) list) \<Rightarrow> ((nat \<times> nat list) list \<Rightarrow> (nat \<times> nat list) list)
    \<Rightarrow> (item \<Rightarrow> item \<Rightarrow> bool) \<Rightarrow> item list \<Rightarrow> emit list option" where
  "merge_emits span_order group_order conflict items =
     Option.bind (join_pairs (\<lambda>a b. conflict (items ! a) (items ! b)) (index_pairs (length items)) [0..<length items] False)
       (\<lambda>(parent, any_conflict).
     Option.bind (if any_conflict then absorb_loop span_order items parent else Some parent) (\<lambda>parent.
     Option.bind (collect_groups [0..<length items] parent []) (\<lambda>groups.
       Some (sort_key emit_key (map (\<lambda>(g, members). emit_of items members) (group_order groups))))))"

section \<open>Pieces\<close>

text \<open>The deltas are signed 64-bit counts far from their bounds; the casts back to unsigned wrap.\<close>

definition op_delta :: "edit_op \<Rightarrow> int" where
  "op_delta op = (int (repl_end op) - int (repl_start op)) - (int (base_end op) - int (base_start op))"

definition before_span :: "nat \<Rightarrow> edit_op \<Rightarrow> bool" where
  "before_span span_start op \<longleftrightarrow>
     base_end op \<le> span_start \<and> (base_start op < span_start \<or> base_end op - base_start op > 0)"

definition inside_span :: "nat \<Rightarrow> nat \<Rightarrow> edit_op \<Rightarrow> bool" where
  "inside_span span_start span_end op \<longleftrightarrow>
     \<not> before_span span_start op \<and> base_start op \<ge> span_start \<and> base_end op \<le> span_end"

definition as_usize :: "int \<Rightarrow> nat" where
  "as_usize i = nat (i mod 2 ^ 64)"

definition side_span :: "edit_op list \<Rightarrow> nat \<Rightarrow> nat \<Rightarrow> nat \<times> nat" where
  "side_span script span_start span_end =
     (let (start_delta, inner_delta) = foldl (\<lambda>(start_delta, inner_delta) op.
            if before_span span_start op then (start_delta + op_delta op, inner_delta)
            else if base_start op \<ge> span_start \<and> base_end op \<le> span_end then (start_delta, inner_delta + op_delta op)
            else (start_delta, inner_delta)) (0, 0) script
      in (as_usize (int span_start + start_delta), as_usize (int span_end + start_delta + inner_delta)))"

definition push_merged :: "merge_piece list \<Rightarrow> string \<Rightarrow> provenance \<Rightarrow> merge_piece list" where
  "push_merged ps s v = (if s \<noteq> [] then ps @ [Merged s v] else ps)"

record merge_sides =
  m_base :: string
  m_ours :: string
  m_theirs :: string
  base_tokens :: "token list"
  ours_tokens :: "token list"
  theirs_tokens :: "token list"
  ours_script :: "edit_op list"
  theirs_script :: "edit_op list"

definition op_piece :: "merge_sides \<Rightarrow> item \<Rightarrow> merge_piece list \<Rightarrow> merge_piece list option" where
  "op_piece m it ps =
     (let (body, tokens, v) = (case item_side it of
            SideOurs \<Rightarrow> (m_ours m, ours_tokens m, Ours)
          | SideBoth \<Rightarrow> (m_ours m, ours_tokens m, Both)
          | SideTheirs \<Rightarrow> (m_theirs m, theirs_tokens m, Theirs))
      in Option.bind (token_text body tokens (repl_start (item_op it), repl_end (item_op it))) (\<lambda>s.
           Some (push_merged ps s v)))"

definition region_piece ::
  "merge_sides \<Rightarrow> nat \<Rightarrow> nat \<Rightarrow> merge_piece list \<Rightarrow> bool \<Rightarrow> (merge_piece list \<times> bool) option" where
  "region_piece m span_start span_end ps conflicted =
     Option.bind (token_text (m_ours m) (ours_tokens m) (side_span (ours_script m) span_start span_end)) (\<lambda>ours_text.
     Option.bind (token_text (m_theirs m) (theirs_tokens m) (side_span (theirs_script m) span_start span_end)) (\<lambda>theirs_text.
       if ours_text = theirs_text then Some (push_merged ps ours_text Both, conflicted)
       else Option.bind (token_text (m_base m) (base_tokens m) (span_start, span_end)) (\<lambda>base_text.
              Some (ps @ [Conflict base_text ours_text theirs_text], True))))"

fun emit_pieces ::
  "merge_sides \<Rightarrow> emit list \<Rightarrow> nat \<Rightarrow> merge_piece list \<Rightarrow> bool \<Rightarrow> (merge_piece list \<times> bool) option" where
  "emit_pieces m [] cursor ps conflicted =
     Option.bind (token_text (m_base m) (base_tokens m) (cursor, length (base_tokens m))) (\<lambda>s.
       Some (push_merged ps s Base, conflicted))"
| "emit_pieces m (em # ems) cursor ps conflicted =
     Option.bind (token_text (m_base m) (base_tokens m) (cursor, fst (emit_key em))) (\<lambda>s.
     let ps = push_merged ps s Base in
     Option.bind (case em of
         EmitOp it \<Rightarrow> Option.bind (op_piece m it ps) (\<lambda>ps. Some (ps, conflicted))
       | EmitRegion lo hi \<Rightarrow> region_piece m lo hi ps conflicted) (\<lambda>(ps, conflicted).
       emit_pieces m ems (max (snd (emit_key em)) cursor) ps conflicted))"

text \<open>The three-way merge of \<open>x\<close> and \<open>y\<close> against \<open>b\<close>.\<close>

definition text_merge ::
  "(string \<Rightarrow> bool) \<Rightarrow> ((nat \<times> group_span) list \<Rightarrow> (nat \<times> group_span) list)
    \<Rightarrow> ((nat \<times> nat list) list \<Rightarrow> (nat \<times> nat list) list)
    \<Rightarrow> string \<Rightarrow> string \<Rightarrow> string \<Rightarrow> text_merge_config \<Rightarrow> text_merge_outcome option" where
  "text_merge alnum span_order group_order b x y config =
     (let bt = tokenize alnum b; xt = tokenize alnum x; yt = tokenize alnum y
      in Option.bind (build_script b bt x xt config) (\<lambda>xs.
         Option.bind (build_script b bt y yt config) (\<lambda>ys.
         let m = \<lparr>m_base = b, m_ours = x, m_theirs = y, base_tokens = bt, ours_tokens = xt, theirs_tokens = yt,
                  ours_script = xs, theirs_script = ys\<rparr>;
             wp = word_prefix bt; pp = paragraph_prefix b bt
         in Option.bind (merge_items (same_text y yt x xt) xs ys) (\<lambda>items.
            Option.bind (merge_emits span_order group_order (conflicting config wp pp) items) (\<lambda>emits.
            Option.bind (emit_pieces m emits 0 [] False) (\<lambda>(ps, conflicted).
              Some (if conflicted then Conflicted ps else Clean ps (concat (map piece_text ps)))))))))"

end
