(* ===== verification/Text_Regions.thy ===== *)
theory Text_Regions
  imports Text_Merge
begin

text \<open>
  The region computation of the text merge: union-find with path halving on parents that never point
  upwards, the joining of conflicting pairs, and the absorption loop. The loop ends because every round
  that changes something removes a root; the representative of an index never grows; and at the end
  every region is closed under touching, whatever the iteration order of the span table.
\<close>

section \<open>Union-find\<close>

definition forest :: "nat \<Rightarrow> nat list \<Rightarrow> bool" where
  "forest n parent \<longleftrightarrow> length parent = n \<and> (\<forall>i. i < n \<longrightarrow> parent ! i \<le> i)"

text \<open>The representative of an index.\<close>

function rep :: "nat list \<Rightarrow> nat \<Rightarrow> nat" where
  "rep parent i = (if i < length parent \<and> parent ! i < i then rep parent (parent ! i) else i)"
  by pat_completeness auto
termination
  by (relation "measure snd") auto

declare rep.simps [simp del]

definition roots :: "nat list \<Rightarrow> nat set" where
  "roots parent = {i. i < length parent \<and> parent ! i = i}"

lemma rep_le: "rep parent i \<le> i"
proof (induction parent i rule: rep.induct)
  case (1 parent i)
  then show ?case by (subst rep.simps) (auto intro: le_trans)
qed

lemma rep_root: "i \<in> roots parent \<Longrightarrow> rep parent i = i"
  by (subst rep.simps) (simp add: roots_def)

lemma rep_step: "forest n parent \<Longrightarrow> i < n \<Longrightarrow> rep parent (parent ! i) = rep parent i"
  by (cases "parent ! i = i") (auto simp: rep.simps [of parent i] forest_def intro: le_neq_trans)

lemma rep_in_roots: "forest n parent \<Longrightarrow> i < n \<Longrightarrow> rep parent i \<in> roots parent"
proof (induction parent i rule: rep.induct)
  case (1 parent i)
  then show ?case
    by (cases "parent ! i < i") (auto simp: rep.simps [of parent i] forest_def roots_def dest!: spec [of _ i])
qed

lemma finite_roots [simp]: "finite (roots parent)"
  by (simp add: roots_def)

lemma rep_less: "i < n \<Longrightarrow> rep parent i < n"
  using rep_le [of parent i] by simp

text \<open>Halving the path at one index.\<close>

lemma halve_forest:
  "forest n parent \<Longrightarrow> c < n \<Longrightarrow> forest n (parent[c := parent ! (parent ! c)])"
  by (auto simp: forest_def nth_list_update intro: order_trans [of _ "parent ! c"]) (meson le_trans not_le_imp_less less_le_trans le_less_trans)

lemma halve_rep:
  assumes "forest n parent" "c < n"
  shows "rep (parent[c := parent ! (parent ! c)]) i = rep parent i"
proof (induction i rule: less_induct)
  case (less i)
  let ?p = "parent[c := parent ! (parent ! c)]"
  show ?case
  proof (cases "i < n \<and> ?p ! i < i")
    case True
    then have "rep ?p i = rep parent (?p ! i)" using less assms by (simp add: rep.simps [of ?p i] forest_def)
    also have "\<dots> = rep parent i"
    proof (cases "i = c")
      case True
      then have "?p ! i = parent ! (parent ! c)" using assms by (simp add: forest_def)
      moreover have "parent ! c < n" using assms by (meson forest_def le_less_trans)
      ultimately show ?thesis using rep_step [OF assms(1)] assms(2) True by simp
    next
      case False
      with True rep_step [OF assms(1), of i] show ?thesis by simp
    qed
    finally show ?thesis .
  next
    case False
    have "\<not> (i < n \<and> parent ! i < i)"
    proof
      assume i: "i < n \<and> parent ! i < i"
      then have "i = c" using False by (cases "i = c") auto
      then have "parent ! (parent ! c) < c" using assms(1) i by (meson forest_def le_less_trans less_trans)
      then show False using False i \<open>i = c\<close> assms by (simp add: forest_def)
    qed
    then have "rep parent i = i" using assms by (subst rep.simps) (auto simp: forest_def)
    moreover have "rep ?p i = i" using False assms by (subst rep.simps) (auto simp: forest_def)
    ultimately show ?thesis by simp
  qed
qed

lemma halve_roots:
  assumes "forest n parent" "c < n" "parent ! c \<noteq> c"
  shows "roots (parent[c := parent ! (parent ! c)]) = roots parent"
proof -
  have "parent ! c < c" "parent ! c < n" using assms by (auto simp: forest_def le_neq_implies_less)
  then have "parent ! (parent ! c) < c" using assms(1) by (meson forest_def le_less_trans)
  then show ?thesis using assms by (auto simp: roots_def nth_list_update forest_def)
qed

text \<open>
  The walk returns the representative, keeps every representative and every root, and keeps every
  transitive relation between an index and its parent.
\<close>

lemma root_ok:
  assumes "forest n parent" "i < n"
  shows "\<exists>parent'. root parent i = Some (parent', rep parent i) \<and> forest n parent'
    \<and> rep parent' = rep parent \<and> roots parent' = roots parent
    \<and> (\<forall>R. transp R \<longrightarrow> (\<forall>k. k < n \<longrightarrow> R (parent ! k) k) \<longrightarrow> (\<forall>k. k < n \<longrightarrow> R (parent' ! k) k))"
  using assms
proof (induction i arbitrary: parent rule: less_induct)
  case (less i)
  then have len: "length parent = n" by (simp add: forest_def)
  show ?case
  proof (cases "parent ! i = i")
    case True
    then have "root parent i = Some (parent, i)" using less.prems by (subst root.simps) (simp add: get_def len)
    moreover have "rep parent i = i" using True less.prems len by (intro rep_root) (simp add: roots_def)
    ultimately show ?thesis using less.prems by auto
  next
    case False
    let ?g = "parent ! (parent ! i)" and ?p = "parent[i := parent ! (parent ! i)]"
    have lt: "parent ! i < i" "parent ! i < n" using less.prems False by (auto simp: forest_def le_neq_implies_less)
    then have g: "?g < i" "?g < n" using less.prems(1) by (meson forest_def le_less_trans)+
    have step: "root parent i = root ?p ?g"
      using less.prems False lt by (subst root.simps) (simp add: get_def len)
    have "rep parent ?g = rep parent i" using rep_step [OF less.prems(1)] less.prems(2) lt(2) by simp
    moreover have keep: "\<forall>k. k < n \<longrightarrow> R (?p ! k) k" if R: "transp R" "\<forall>k. k < n \<longrightarrow> R (parent ! k) k" for R
    proof -
      have "R ?g i" using transpD [OF R(1), of ?g "parent ! i" i] R(2) lt(2) less.prems(2) by blast
      with R(2) show ?thesis using len less.prems(2) by (auto simp: nth_list_update)
    qed
    moreover have reps: "rep ?p = rep parent" "roots ?p = roots parent"
      using halve_rep [OF less.prems] halve_roots [OF less.prems False] by (simp_all add: ext)
    moreover from less.IH [OF g(1) halve_forest [OF less.prems] g(2)] obtain p' where
      "root ?p ?g = Some (p', rep ?p ?g)" "forest n p'" "rep p' = rep ?p" "roots p' = roots ?p"
      and keep': "\<forall>R. transp R \<longrightarrow> (\<forall>k. k < n \<longrightarrow> R (?p ! k) k) \<longrightarrow> (\<forall>k. k < n \<longrightarrow> R (p' ! k) k)" by blast
    moreover have "\<forall>R. transp R \<longrightarrow> (\<forall>k. k < n \<longrightarrow> R (parent ! k) k) \<longrightarrow> (\<forall>k. k < n \<longrightarrow> R (p' ! k) k)"
    proof (intro allI impI)
      fix R :: "nat \<Rightarrow> nat \<Rightarrow> bool" and k
      assume R: "transp R" "\<forall>k. k < n \<longrightarrow> R (parent ! k) k" and k: "k < n"
      from keep' [THEN spec, THEN mp, OF R(1), THEN mp, OF keep [OF R]] k show "R (p' ! k) k" by blast
    qed
    ultimately show ?thesis unfolding step by (intro exI [of _ p']) simp
  qed
qed

lemma root_someE:
  assumes "forest n parent" "i < n"
  obtains parent' where "root parent i = Some (parent', rep parent i)" "forest n parent'" "rep parent' = rep parent"
    "roots parent' = roots parent"
  using root_ok [OF assms] by blast

lemma link_forest: "forest n parent \<Longrightarrow> l \<le> m \<Longrightarrow> forest n (parent[m := l])"
  by (cases "m < length parent") (auto simp: forest_def nth_list_update)

lemma link_rep:
  assumes "forest n parent" "l \<in> roots parent" "m \<in> roots parent" "l \<le> m"
  shows "rep (parent[m := l]) i = (if rep parent i = m then l else rep parent i)"
proof (induction i rule: less_induct)
  case (less i)
  let ?p = "parent[m := l]"
  have m: "m < length parent" "l < length parent" "parent ! l = l" "parent ! m = m" using assms by (auto simp: roots_def)
  have "rep ?p l = l" using m by (subst rep.simps) (auto simp: nth_list_update)
  then have "rep ?p m = l" using m assms(4) by (cases "l = m") (auto simp: rep.simps [of ?p m])
  moreover have "rep parent m = m" using assms(3) by (rule rep_root)
  moreover have "rep ?p i = (if rep parent i = m then l else rep parent i)" if "i \<noteq> m"
    using less [of "parent ! i"] that m by (auto simp: rep.simps [of ?p i] rep.simps [of parent i])
  ultimately show ?case by (cases "i = m") auto
qed

section \<open>Joining the conflicting pairs\<close>

lemma join_pairs_ok:
  assumes "forest n parent" "\<forall>(a, b) \<in> set ps. a < n \<and> b < n"
  shows "\<exists>parent' any'. join_pairs conflict ps parent any = Some (parent', any') \<and> forest n parent'
    \<and> (any' \<longleftrightarrow> any \<or> (\<exists>(a, b) \<in> set ps. conflict a b))
    \<and> (\<forall>i j. rep parent i = rep parent j \<longrightarrow> rep parent' i = rep parent' j)
    \<and> (\<forall>(a, b) \<in> set ps. conflict a b \<longrightarrow> rep parent' a = rep parent' b)
    \<and> ((\<forall>(a, b) \<in> set ps. \<not> conflict a b) \<longrightarrow> parent' = parent)"
  using assms
proof (induction ps arbitrary: parent any)
  case (Cons p ps)
  obtain a b where p: "p = (a, b)" by fastforce
  have ab: "a < n" "b < n" using Cons.prems(2) by (auto simp: p)
  show ?case
  proof (cases "conflict a b")
    case True
    obtain p1 where p1: "root parent a = Some (p1, rep parent a)" "forest n p1" "rep p1 = rep parent"
      using root_someE [OF Cons.prems(1) ab(1)] by metis
    obtain p2 where p2: "root p1 b = Some (p2, rep parent b)" "forest n p2" "rep p2 = rep parent"
      using root_someE [OF p1(2) ab(2)] p1(3) by metis
    define l m where "l = min (rep parent a) (rep parent b)" and "m = max (rep parent a) (rep parent b)"
    have lm: "l \<in> roots p2" "m \<in> roots p2" "l \<le> m"
      using rep_in_roots [OF p2(2) ab(1)] rep_in_roots [OF p2(2) ab(2)] p2(3) by (auto simp: l_def m_def min_def max_def)
    have link: "rep (p2[m := l]) i = (if rep parent i = m then l else rep parent i)" for i
      using link_rep [OF p2(2) lm] p2(3) by simp
    have ab': "rep (p2[m := l]) a = rep (p2[m := l]) b"
      unfolding link by (auto simp: l_def m_def min_def max_def)
    have step: "join_pairs conflict (p # ps) parent any = join_pairs conflict ps (p2[m := l]) True"
      using True p1(1) p2(1) by (simp add: p l_def m_def)
    have "\<forall>(a, b) \<in> set ps. a < n \<and> b < n" using Cons.prems(2) by simp
    from Cons.IH [OF link_forest [OF p2(2) lm(3)] this, of True] obtain p3 any3 where
      ih: "join_pairs conflict ps (p2[m := l]) True = Some (p3, any3)" "forest n p3"
      "\<forall>(a, b) \<in> set ps. conflict a b \<longrightarrow> rep p3 a = rep p3 b"
      "any3 \<longleftrightarrow> True \<or> (\<exists>(a, b) \<in> set ps. conflict a b)"
      and eqs: "\<And>i j. rep (p2[m := l]) i = rep (p2[m := l]) j \<Longrightarrow> rep p3 i = rep p3 j" by blast
    have "rep p3 i = rep p3 j" if "rep parent i = rep parent j" for i j by (rule eqs) (simp add: link that)
    moreover have "\<forall>(a, b) \<in> set (p # ps). conflict a b \<longrightarrow> rep p3 a = rep p3 b" using ih(3) eqs [OF ab'] by (simp add: p)
    moreover have "\<not> (\<forall>(a, b) \<in> set (p # ps). \<not> conflict a b)" "any3 \<longleftrightarrow> any \<or> (\<exists>(a, b) \<in> set (p # ps). conflict a b)"
      using True ih(4) by (auto simp: p)
    ultimately show ?thesis unfolding step using ih(1,2) by blast
  next
    case False
    with Cons.IH [OF Cons.prems(1), of any] Cons.prems(2) show ?thesis by (simp add: p)
  qed
qed simp

section \<open>Spans of the groups\<close>

definition span_table :: "(nat \<Rightarrow> nat) \<Rightarrow> item list \<Rightarrow> nat list \<Rightarrow> (nat \<times> group_span) list \<Rightarrow> (nat \<times> group_span) list" where
  "span_table r items is spans = foldl (\<lambda>spans i. enter (r i) (item_op (items ! i)) spans) spans is"

lemma collect_spans_ok:
  "forest n parent \<Longrightarrow> length items = n \<Longrightarrow> index \<le> n \<Longrightarrow>
    \<exists>parent'. collect_spans index (drop index items) parent spans
        = Some (parent', span_table (rep parent) items [index..<n] spans)
      \<and> forest n parent' \<and> rep parent' = rep parent \<and> roots parent' = roots parent"
proof (induction "n - index" arbitrary: index parent spans)
  case 0
  then show ?case by (simp add: span_table_def)
next
  case (Suc k)
  then have i: "index < n" by simp
  then have drop: "drop index items = items ! index # drop (index + 1) items"
    using Suc.prems(2) by (simp add: Cons_nth_drop_Suc)
  from i have upt: "[index..<n] = index # [index + 1..<n]" by (simp add: upt_conv_Cons)
  obtain p1 where p1: "root parent index = Some (p1, rep parent index)" "forest n p1" "rep p1 = rep parent"
    "roots p1 = roots parent" by (rule root_someE [OF Suc.prems(1) i])
  have "k = n - (index + 1)" "index + 1 \<le> n" using Suc(2) i by simp_all
  from Suc(1) [OF this(1) p1(2) Suc.prems(2) this(2), of "enter (rep parent index) (item_op (items ! index)) spans"]
  show ?case by (simp add: drop upt p1 span_table_def)
qed

lemma map_of_enter:
  "map_of (enter g op spans) h =
    (if h = g then Some (widen op (case map_of spans g of None \<Rightarrow> (2 ^ 64 - 1, 0, 0) | Some sp \<Rightarrow> sp))
     else map_of spans h)"
  by (induction g op spans rule: enter.induct) (auto split: option.splits)

lemma enter_keys: "fst ` set (enter g op spans) = insert g (fst ` set spans)"
  by (induction g op spans rule: enter.induct) auto

text \<open>The entry of a group bounds the spans of its members, and counts them.\<close>

lemma span_table_keys: "fst ` set (span_table r items [0..<k] []) = r ` {..<k}"
  by (induction k) (simp_all add: span_table_def enter_keys lessThan_Suc)

lemma span_table_entry:
  "case map_of (span_table r items [0..<k] []) g of
     None \<Rightarrow> \<forall>i. i < k \<longrightarrow> r i \<noteq> g
   | Some (lo, hi, c) \<Rightarrow> (\<forall>i. i < k \<longrightarrow> r i = g \<longrightarrow>
       lo \<le> base_start (item_op (items ! i)) \<and> base_end (item_op (items ! i)) \<le> hi) \<and> c = card {i. i < k \<and> r i = g}"
proof (induction k)
  case 0
  then show ?case by (simp add: span_table_def)
next
  case (Suc k)
  let ?t = "span_table r items [0..<k] []"
  have step: "span_table r items [0..<Suc k] [] = enter (r k) (item_op (items ! k)) ?t" by (simp add: span_table_def)
  show ?case
  proof (cases "r k = g")
    case True
    have ins: "{i. i < Suc k \<and> r i = g} = insert k {i. i < k \<and> r i = g}" using True by (auto simp: less_Suc_eq)
    have "finite {i. i < k \<and> r i = g}" by simp
    then have card: "card {i. i < Suc k \<and> r i = g} = Suc (card {i. i < k \<and> r i = g})" unfolding ins by simp
    show ?thesis
    proof (cases "map_of ?t g")
      case None
      then have none: "\<forall>i. i < k \<longrightarrow> r i \<noteq> g" using Suc by simp
      then have "{i. i < k \<and> r i = g} = {}" by blast
      then show ?thesis unfolding step map_of_enter card using True None none by (auto simp: widen_def less_Suc_eq)
    next
      case (Some sp)
      then obtain lo hi c where "map_of ?t g = Some (lo, hi, c)" by (cases sp) auto
      then show ?thesis unfolding step map_of_enter card using True Suc by (auto simp: widen_def less_Suc_eq)
    qed
  next
    case False
    then have same: "{i. i < Suc k \<and> r i = g} = {i. i < k \<and> r i = g}" by (auto simp: less_Suc_eq)
    show ?thesis unfolding step map_of_enter same using False Suc by (auto simp: less_Suc_eq split: option.splits)
  qed
qed

lemma span_of_pair:
  assumes "j < n" "k < n" "j \<noteq> k" "r j = r k"
  obtains lo hi c where "(r j, lo, hi, c) \<in> set (span_table r items [0..<n] [])" "2 \<le> c"
    "\<And>i. i < n \<Longrightarrow> r i = r j \<Longrightarrow> lo \<le> base_start (item_op (items ! i)) \<and> base_end (item_op (items ! i)) \<le> hi"
proof (cases "map_of (span_table r items [0..<n] []) (r j)")
  case None
  then show ?thesis using span_table_entry [where r = r and items = items and k = n and g = "r j"] assms(1) by auto
next
  case (Some sp)
  obtain lo hi c where sp: "sp = (lo, hi, c)" by (cases sp) auto
  have entry: "c = card {i. i < n \<and> r i = r j}" "\<And>i. i < n \<Longrightarrow> r i = r j \<Longrightarrow>
      lo \<le> base_start (item_op (items ! i)) \<and> base_end (item_op (items ! i)) \<le> hi"
    using span_table_entry [where r = r and items = items and k = n and g = "r j"] by (simp_all add: Some sp)
  have "card {j, k} \<le> c" unfolding entry(1) by (rule card_mono) (use assms in auto)
  then show ?thesis using that [of lo hi c] map_of_SomeD [OF Some] entry(2) assms(3) by (simp add: sp)
qed

section \<open>Absorption\<close>

text \<open>
  During a round that started with the parents \<open>p0\<close>: representatives only fall, roots only vanish, and
  the flag is set exactly when a root has vanished. The round overwrites the parent of an index that was
  a root at its start, so a group can lose members for a moment; the invariant tolerates that.
\<close>

definition round_inv :: "nat \<Rightarrow> nat list \<Rightarrow> nat list \<Rightarrow> bool \<Rightarrow> bool" where
  "round_inv n p0 p changed \<longleftrightarrow>
     forest n p \<and> (\<forall>k. k < n \<longrightarrow> rep p0 (p ! k) \<le> rep p0 k) \<and> roots p \<subseteq> roots p0
     \<and> (if changed then roots p \<noteq> roots p0 else rep p = rep p0 \<and> roots p = roots p0)"

lemma round_inv_start: "forest n p0 \<Longrightarrow> round_inv n p0 p0 False"
  by (simp add: round_inv_def rep_step)

lemma round_inv_rep:
  assumes "round_inv n p0 p changed" "i < n"
  shows "rep p i \<le> rep p0 i"
proof -
  have forest: "forest n p" and J: "\<And>k. k < n \<Longrightarrow> rep p0 (p ! k) \<le> rep p0 k" and roots: "roots p \<subseteq> roots p0"
    using assms(1) by (auto simp: round_inv_def)
  have "rep p0 (rep p i) \<le> rep p0 i"
    using assms(2)
  proof (induction i rule: less_induct)
    case (less i)
    then show ?case using J [of i] forest by (subst rep.simps) (auto simp: forest_def intro: order_trans)
  qed
  moreover have "rep p0 (rep p i) = rep p i"
    using rep_in_roots [OF forest assms(2)] roots by (intro rep_root) blast
  ultimately show ?thesis by simp
qed

lemma round_inv_root:
  assumes "round_inv n p0 p changed" "i < n"
  obtains p' where "root p i = Some (p', rep p i)" "round_inv n p0 p' changed" "rep p' = rep p"
proof -
  have forest: "forest n p" using assms(1) by (simp add: round_inv_def)
  obtain p' where p': "root p i = Some (p', rep p i)" "forest n p'" "rep p' = rep p" "roots p' = roots p"
    and keep: "\<forall>R. transp R \<longrightarrow> (\<forall>k. k < n \<longrightarrow> R (p ! k) k) \<longrightarrow> (\<forall>k. k < n \<longrightarrow> R (p' ! k) k)"
    using root_ok [OF forest assms(2)] by blast
  have "transp (\<lambda>a b. rep p0 a \<le> rep p0 b)" by (rule transpI) simp
  from keep [THEN spec, THEN mp, OF this] assms(1) have "\<forall>k. k < n \<longrightarrow> rep p0 (p' ! k) \<le> rep p0 k"
    by (simp add: round_inv_def)
  then show ?thesis using that [OF p'(1) _ p'(3)] p' assms(1) by (simp add: round_inv_def)
qed

lemma round_inv_link:
  assumes "round_inv n p0 p changed" "ra \<in> roots p" "other \<in> roots p0" "\<not> changed \<Longrightarrow> ra \<noteq> other" "forest n p0"
  shows "round_inv n p0 (p[max ra other := min ra other]) True"
proof -
  let ?m = "max ra other" and ?l = "min ra other"
  have inv: "forest n p" "\<And>k. k < n \<Longrightarrow> rep p0 (p ! k) \<le> rep p0 k" "roots p \<subseteq> roots p0"
    using assms(1) by (auto simp: round_inv_def)
  have m: "?m \<in> roots p0" using assms(2,3) inv(3) by (auto simp: max_def)
  have "rep p0 ?l \<le> rep p0 ?m" using rep_le [of p0 ?l] rep_root [OF m] by linarith
  then have "rep p0 (p[?m := ?l] ! k) \<le> rep p0 k" if "k < n" for k
    using inv that by (cases "k = ?m") (auto simp: forest_def)
  moreover have gone: "ra \<noteq> other \<Longrightarrow> ?m \<notin> roots (p[?m := ?l])"
    by (auto simp: roots_def nth_list_update)
  have sub: "roots (p[?m := ?l]) \<subseteq> roots p"
  proof (cases "ra = other")
    case True
    then have "p[?m := ?l] = p" using assms(2) by (simp add: roots_def list_update_same_conv)
    then show ?thesis by simp
  next
    case False
    show ?thesis
    proof
      fix x
      assume x: "x \<in> roots (p[?m := ?l])"
      then have "x \<noteq> ?m" using gone [OF False] by blast
      with x show "x \<in> roots p" by (simp add: roots_def)
    qed
  qed
  moreover have "roots (p[?m := ?l]) \<noteq> roots p0"
  proof (cases changed)
    case True
    then show ?thesis using assms(1) sub inv(3) by (auto simp: round_inv_def)
  next
    case False
    then show ?thesis using gone assms(4) m by blast
  qed
  moreover have "forest n (p[?m := ?l])" by (rule link_forest [OF inv(1)]) simp
  ultimately show ?thesis using inv(3) by (auto simp: round_inv_def)
qed

text \<open>An operation touches a span.\<close>

definition touches :: "edit_op \<Rightarrow> nat \<Rightarrow> nat \<Rightarrow> bool" where
  "touches op lo hi \<longleftrightarrow> base_start op \<le> hi \<and> lo \<le> base_end op"

lemma absorb_into_ok:
  assumes "forest n p0" "index < n" "round_inv n p0 p changed" "\<not> changed \<Longrightarrow> grp = rep p0 index"
    and "\<forall>(other, sp) \<in> set spans. other \<in> roots p0"
  shows "\<exists>p' changed'. absorb_into index op grp spans p changed = Some (p', changed') \<and> round_inv n p0 p' changed'
    \<and> (changed \<longrightarrow> changed')
    \<and> (\<not> changed' \<longrightarrow> (\<forall>(other, lo, hi, c) \<in> set spans. other \<noteq> rep p0 index \<longrightarrow> 2 \<le> c \<longrightarrow> \<not> touches op lo hi))"
  using assms(3-5)
proof (induction spans arbitrary: p changed)
  case (Cons entry spans)
  obtain other lo hi c where entry: "entry = (other, lo, hi, c)" by (cases entry)
  have spans: "\<forall>(other, sp) \<in> set spans. other \<in> roots p0" "other \<in> roots p0" using Cons.prems(3) by (auto simp: entry)
  consider "other = grp \<or> c < 2" | "other \<noteq> grp" "2 \<le> c" "touches op lo hi" | "\<not> touches op lo hi" by linarith
  then show ?case
  proof cases
    case 1
    with Cons.IH [OF Cons.prems(1,2) spans(1)] Cons.prems(2) show ?thesis
      by (cases changed) (auto simp: entry)
  next
    case 2
    obtain p1 where p1: "root p index = Some (p1, rep p index)" "round_inv n p0 p1 changed" "rep p1 = rep p"
      by (rule round_inv_root [OF Cons.prems(1) assms(2)])
    let ?p2 = "p1[max (rep p index) other := min (rep p index) other]"
    have "forest n p1" using p1(2) by (simp add: round_inv_def)
    then have ra: "rep p index \<in> roots p1" "length p1 = n"
      using rep_in_roots [of n p1 index] assms(2) p1(3) by (simp_all add: forest_def)
    have other: "other < n" using spans(2) assms(1) by (simp add: roots_def forest_def)
    have "rep p index \<noteq> other" if "\<not> changed"
      using that Cons.prems(1,2) 2(1) by (simp add: round_inv_def)
    then have "round_inv n p0 ?p2 True" by (rule round_inv_link [OF p1(2) ra(1) spans(2) _ assms(1)])
    from Cons.IH [OF this _ spans(1)] have "\<exists>p' changed'. absorb_into index op grp spans ?p2 True = Some (p', changed')
        \<and> round_inv n p0 p' changed' \<and> changed'" by auto
    moreover have "absorb_into index op grp (entry # spans) p changed = absorb_into index op grp spans ?p2 True"
      using 2 p1(1) other rep_less [OF assms(2), of p] ra(2) by (simp add: entry touches_def)
    ultimately show ?thesis by auto
  next
    case 3
    then have "absorb_into index op grp (entry # spans) p changed = absorb_into index op grp spans p changed"
      by (auto simp: entry touches_def)
    with Cons.IH [OF Cons.prems(1,2) spans(1)] 3 show ?thesis by (auto simp: entry)
  qed
qed simp

text \<open>The items a group with at least two members must not touch, after a round without change.\<close>

definition untouched :: "(nat \<Rightarrow> nat) \<Rightarrow> (nat \<times> group_span) list \<Rightarrow> item list \<Rightarrow> nat \<Rightarrow> bool" where
  "untouched r spans items i \<longleftrightarrow>
     (\<forall>(other, lo, hi, c) \<in> set spans. other \<noteq> r i \<longrightarrow> 2 \<le> c \<longrightarrow> \<not> touches (item_op (items ! i)) lo hi)"

lemma absorb_items_ok:
  assumes "forest n p0" "length items = n" "\<forall>(other, sp) \<in> set spans. other \<in> roots p0"
  shows "round_inv n p0 p changed \<Longrightarrow> index \<le> n \<Longrightarrow>
    \<exists>p' changed'. absorb_items index (drop index items) spans p changed = Some (p', changed')
      \<and> round_inv n p0 p' changed' \<and> (changed \<longrightarrow> changed')
      \<and> (\<not> changed' \<longrightarrow> (\<forall>i. index \<le> i \<longrightarrow> i < n \<longrightarrow> untouched (rep p0) spans items i))"
proof (induction "n - index" arbitrary: index p changed)
  case 0
  then show ?case using assms(2) by simp
next
  case (Suc k)
  then have i: "index < n" by simp
  then have drop: "drop index items = items ! index # drop (index + 1) items"
    using assms(2) by (simp add: Cons_nth_drop_Suc)
  obtain p1 where p1: "root p index = Some (p1, rep p index)" "round_inv n p0 p1 changed" "rep p1 = rep p"
    by (rule round_inv_root [OF Suc.prems(1) i])
  have "rep p index = rep p0 index" if "\<not> changed" using that Suc.prems(1) by (simp add: round_inv_def)
  from absorb_into_ok [OF assms(1) i p1(2) this assms(3), of "item_op (items ! index)"] obtain p2 ch2 where
    p2: "absorb_into index (item_op (items ! index)) (rep p index) spans p1 changed = Some (p2, ch2)"
      "round_inv n p0 p2 ch2" "changed \<longrightarrow> ch2" "\<not> ch2 \<longrightarrow> untouched (rep p0) spans items index"
    unfolding untouched_def by blast
  have "k = n - (index + 1)" "index + 1 \<le> n" using Suc(2) i by simp_all
  from Suc(1) [OF this(1) p2(2) this(2)] obtain p3 ch3 where
    p3: "absorb_items (index + 1) (drop (index + 1) items) spans p2 ch2 = Some (p3, ch3)" "round_inv n p0 p3 ch3"
      "ch2 \<longrightarrow> ch3" "\<not> ch3 \<longrightarrow> (\<forall>i. index + 1 \<le> i \<longrightarrow> i < n \<longrightarrow> untouched (rep p0) spans items i)" by blast
  have "absorb_items index (drop index items) spans p changed = Some (p3, ch3)"
    using p1(1) p2(1) p3(1) by (simp add: drop)
  moreover have "untouched (rep p0) spans items i" if "\<not> ch3" "index \<le> i" "i < n" for i
    using that p2(4) p3(3,4) by (cases "i = index") auto
  ultimately show ?case using p2(3) p3(2,3) by blast
qed

text \<open>No item outside a group touches the hull of two members of the group.\<close>

definition regions_closed :: "(nat \<Rightarrow> nat) \<Rightarrow> item list \<Rightarrow> bool" where
  "regions_closed r items \<longleftrightarrow>
     (\<forall>i j k. i < length items \<longrightarrow> j < length items \<longrightarrow> k < length items \<longrightarrow> j \<noteq> k \<longrightarrow> r j = r k \<longrightarrow> r i \<noteq> r j \<longrightarrow>
       \<not> touches (item_op (items ! i))
           (min (base_start (item_op (items ! j))) (base_start (item_op (items ! k))))
           (max (base_end (item_op (items ! j))) (base_end (item_op (items ! k)))))"

lemma touches_mono: "touches op lo hi \<Longrightarrow> lo' \<le> lo \<Longrightarrow> hi \<le> hi' \<Longrightarrow> touches op lo' hi'"
  by (simp add: touches_def)

lemma untouched_closed:
  assumes "\<And>i. i < length items \<Longrightarrow> untouched r spans items i"
    and spans: "set spans = set (span_table r items [0..<length items] [])"
  shows "regions_closed r items"
  unfolding regions_closed_def
proof (intro allI impI)
  fix i j k
  assume i: "i < length items" and j: "j < length items" and k: "k < length items" and jk: "j \<noteq> k" "r j = r k" "r i \<noteq> r j"
  obtain lo hi c where entry: "(r j, lo, hi, c) \<in> set (span_table r items [0..<length items] [])" "2 \<le> c"
    "\<And>i. i < length items \<Longrightarrow> r i = r j \<Longrightarrow> lo \<le> base_start (item_op (items ! i)) \<and> base_end (item_op (items ! i)) \<le> hi"
    by (rule span_of_pair [where items = items, OF j k jk(1,2)]) blast
  have far: "\<not> touches (item_op (items ! i)) lo hi"
    using bspec [OF assms(1) [OF i, unfolded untouched_def spans] entry(1)] entry(2) jk(3) by simp
  show "\<not> touches (item_op (items ! i)) (min (base_start (item_op (items ! j))) (base_start (item_op (items ! k))))
      (max (base_end (item_op (items ! j))) (base_end (item_op (items ! k))))" (is "\<not> touches _ ?lo ?hi")
  proof
    assume "touches (item_op (items ! i)) ?lo ?hi"
    then have "touches (item_op (items ! i)) lo hi"
      by (rule touches_mono) (use entry(3) [OF j refl] entry(3) [OF k] jk(2) in simp_all)
    with far show False ..
  qed
qed

lemma rep_idem: "forest n p \<Longrightarrow> i < n \<Longrightarrow> rep p (rep p i) = rep p i"
  by (intro rep_root rep_in_roots)

lemma absorb_round_ok:
  assumes "forest n p" "length items = n" "\<And>xs. mset (span_order xs) = mset xs"
  shows "\<exists>p' changed. absorb_round span_order items p = Some (p', changed) \<and> forest n p'
    \<and> (\<forall>i. i < n \<longrightarrow> rep p' i \<le> rep p i) \<and> (changed \<longrightarrow> roots p' \<subset> roots p)
    \<and> (\<not> changed \<longrightarrow> regions_closed (rep p') items)"
proof -
  let ?spans = "span_table (rep p) items [0..<n] []"
  obtain p0 where p0: "collect_spans 0 items p [] = Some (p0, ?spans)" "forest n p0" "rep p0 = rep p" "roots p0 = roots p"
    using collect_spans_ok [OF assms(1,2), of 0 "[]"] by auto
  have set: "set (span_order ?spans) = set ?spans" using assms(3) by (rule mset_eq_setD)
  have "\<forall>(other, sp) \<in> set (span_order ?spans). other \<in> roots p0"
    unfolding set using span_table_keys [of "rep p" items n] rep_in_roots [OF assms(1)] p0(4) by force
  from absorb_items_ok [OF p0(2) assms(2) this round_inv_start [OF p0(2)], of 0] obtain p' changed where
    p': "absorb_items 0 items (span_order ?spans) p0 False = Some (p', changed)" "round_inv n p0 p' changed"
      "\<not> changed \<longrightarrow> (\<forall>i. i < n \<longrightarrow> untouched (rep p0) (span_order ?spans) items i)" by auto
  have "absorb_round span_order items p = Some (p', changed)" using p0(1) p'(1) by (simp add: absorb_round_def)
  moreover have "rep p' i \<le> rep p i" if "i < n" for i using round_inv_rep [OF p'(2) that] by (simp add: p0(3))
  moreover have "regions_closed (rep p') items" if "\<not> changed"
    using untouched_closed [of items "rep p0" "span_order ?spans"] p'(2,3) that set assms(2)
    by (simp add: round_inv_def p0(3))
  ultimately show ?thesis using p'(2) p0(4) by (auto simp: round_inv_def)
qed

theorem absorb_loop_ok:
  assumes "length items = n" "\<And>xs. mset (span_order xs) = mset xs"
  shows "forest n p \<Longrightarrow> \<exists>p'. absorb_loop span_order items p = Some p' \<and> forest n p'
    \<and> (\<forall>i. i < n \<longrightarrow> rep p' i \<le> rep p i) \<and> regions_closed (rep p') items"
proof (induction "card (roots p)" arbitrary: p rule: less_induct)
  case less
  obtain p1 changed where p1: "absorb_round span_order items p = Some (p1, changed)" "forest n p1"
    "\<forall>i. i < n \<longrightarrow> rep p1 i \<le> rep p i" "changed \<longrightarrow> roots p1 \<subset> roots p"
    "\<not> changed \<longrightarrow> regions_closed (rep p1) items"
    using absorb_round_ok [OF less.prems assms] by blast
  show ?case
  proof (cases changed)
    case True
    then have "card (roots p1) < card (roots p)" using p1(4) by (simp add: psubset_card_mono)
    from less.hyps [OF this p1(2)] obtain p' where "absorb_loop span_order items p1 = Some p'" "forest n p'"
      "\<forall>i. i < n \<longrightarrow> rep p' i \<le> rep p1 i" "regions_closed (rep p') items" by blast
    with p1 True show ?thesis by (subst absorb_loop.simps) (auto intro: order_trans)
  next
    case False
    with p1 show ?thesis by (subst absorb_loop.simps) auto
  qed
qed

section \<open>Groups\<close>

definition members :: "(nat \<Rightarrow> nat) \<Rightarrow> nat \<Rightarrow> nat \<Rightarrow> nat list" where
  "members r n g = filter (\<lambda>i. r i = g) [0..<n]"

lemma set_members [simp]: "set (members r n g) = {i. i < n \<and> r i = g}"
  by (auto simp: members_def)

definition group_table :: "(nat \<Rightarrow> nat) \<Rightarrow> nat list \<Rightarrow> (nat \<times> nat list) list \<Rightarrow> (nat \<times> nat list) list" where
  "group_table r is groups = foldl (\<lambda>groups i. join_group (r i) i groups) groups is"

lemma collect_groups_ok:
  "forest n p \<Longrightarrow> \<forall>i \<in> set is. i < n \<Longrightarrow> collect_groups is p groups = Some (group_table (rep p) is groups)"
proof (induction "is" arbitrary: p groups)
  case (Cons i "is")
  have "i < n" using Cons.prems(2) by simp
  then obtain p1 where p1: "root p i = Some (p1, rep p i)" "forest n p1" "rep p1 = rep p"
    by (rule root_someE [OF Cons.prems(1)])
  with Cons.IH [OF p1(2)] Cons.prems(2) show ?case by (simp add: group_table_def)
qed (simp add: group_table_def)

lemma join_group_keys: "fst ` set (join_group g i groups) = insert g (fst ` set groups)"
  by (induction g i groups rule: join_group.induct) auto

lemma join_group_distinct: "distinct (map fst groups) \<Longrightarrow> distinct (map fst (join_group g i groups))"
  by (induction g i groups rule: join_group.induct) (auto simp: join_group_keys)

lemma map_of_join_group:
  "map_of (join_group g i groups) h =
    (if h = g then Some (case map_of groups g of None \<Rightarrow> [i] | Some ms \<Rightarrow> ms @ [i]) else map_of groups h)"
  by (induction g i groups rule: join_group.induct) (auto split: option.splits)

lemma group_table_ok:
  "distinct (map fst (group_table r [0..<k] [])) \<and> fst ` set (group_table r [0..<k] []) = r ` {..<k}
    \<and> (\<forall>g. map_of (group_table r [0..<k] []) g = (if g \<in> r ` {..<k} then Some (members r k g) else None))"
proof (induction k)
  case (Suc k)
  let ?t = "group_table r [0..<k] []"
  have step: "group_table r [0..<Suc k] [] = join_group (r k) k ?t" by (simp add: group_table_def)
  have members: "members r (Suc k) g = members r k g @ (if r k = g then [k] else [])" for g by (simp add: members_def)
  have none: "members r k g = []" if "g \<notin> r ` {..<k}" for g using that by (auto simp: members_def filter_empty_conv)
  have "map_of (join_group (r k) k ?t) g = (if g \<in> r ` {..<Suc k} then Some (members r (Suc k) g) else None)" for g
    unfolding map_of_join_group members using Suc none [of g] by (auto simp: lessThan_Suc)
  then show ?case unfolding step using Suc by (simp add: join_group_keys join_group_distinct lessThan_Suc)
qed (simp add: group_table_def)

lemma group_table_members: "(g, ms) \<in> set (group_table r [0..<k] []) \<Longrightarrow> ms = members r k g"
  using group_table_ok [of r k] map_of_is_SomeI [of "group_table r [0..<k] []" g ms] by (auto split: if_splits)

text \<open>The emitted groups, as a list of representatives.\<close>

lemma group_emits:
  assumes "\<And>xs. mset (group_order xs) = mset xs"
  obtains gs where "distinct gs" "set gs = r ` {..<n}"
    "sort_key emit_key (map (\<lambda>(g, ms). emit_of items ms) (group_order (group_table r [0..<n] [])))
      = map (\<lambda>g. emit_of items (members r n g)) gs"
    "sorted (map (\<lambda>g. emit_key (emit_of items (members r n g))) gs)"
proof -
  let ?t = "group_table r [0..<n] []" and ?E = "\<lambda>g. emit_of items (members r n g)"
  let ?gs = "sort_key (\<lambda>g. emit_key (?E g)) (map fst (group_order ?t))"
  have set: "set (group_order ?t) = set ?t" using assms by (rule mset_eq_setD)
  have "mset (map fst (group_order ?t)) = mset (map fst ?t)" using assms [of ?t] by simp
  then have "distinct (map fst (group_order ?t))" "set (map fst (group_order ?t)) = r ` {..<n}"
    using group_table_ok [of r n] mset_eq_imp_distinct_iff mset_eq_setD by (blast, metis list.set_map)
  moreover have "map (\<lambda>(g, ms). emit_of items ms) (group_order ?t) = map ?E (map fst (group_order ?t))"
    using group_table_members [of _ _ r n] set by auto
  then have "sort_key emit_key (map (\<lambda>(g, ms). emit_of items ms) (group_order ?t)) = map ?E ?gs"
    by (simp only: map_sort_key [where g = ?E])
  moreover have "sorted (map (\<lambda>g. emit_key (?E g)) ?gs)" by simp
  ultimately show thesis using that [of ?gs] by simp
qed

section \<open>The emitted groups\<close>

definition item_start :: "item list \<Rightarrow> nat \<Rightarrow> nat" where
  "item_start items i = base_start (item_op (items ! i))"

definition item_end :: "item list \<Rightarrow> nat \<Rightarrow> nat" where
  "item_end items i = base_end (item_op (items ! i))"

text \<open>Items in the order of their spans.\<close>

definition ordered_items :: "item list \<Rightarrow> bool" where
  "ordered_items items \<longleftrightarrow>
     (\<forall>i. i < length items \<longrightarrow> item_start items i \<le> item_end items i)
     \<and> (\<forall>i j. i \<le> j \<longrightarrow> j < length items \<longrightarrow> item_start items i \<le> item_start items j)"

text \<open>
  What the region computation establishes: a map from items to representatives under which conflicting
  items share a representative and regions are closed; the emits are its groups in base order.
\<close>

definition regions :: "(item \<Rightarrow> item \<Rightarrow> bool) \<Rightarrow> item list \<Rightarrow> (nat \<Rightarrow> nat) \<Rightarrow> nat list \<Rightarrow> bool" where
  "regions conflict items r gs \<longleftrightarrow>
     (\<forall>i. i < length items \<longrightarrow> r i \<le> i \<and> r (r i) = r i)
     \<and> (\<forall>i j. i < j \<longrightarrow> j < length items \<longrightarrow> conflict (items ! i) (items ! j) \<longrightarrow> r i = r j)
     \<and> ((\<forall>i j. i < j \<longrightarrow> j < length items \<longrightarrow> \<not> conflict (items ! i) (items ! j)) \<longrightarrow> (\<forall>i. r i = i))
     \<and> regions_closed r items
     \<and> distinct gs \<and> set gs = r ` {..<length items}
     \<and> sorted (map (\<lambda>g. emit_key (emit_of items (members r (length items) g))) gs)"

lemma closed_between:
  assumes "regions_closed r items" "ordered_items items" "i < j" "j < k" "k < length items" "r i = r k"
  shows "r j = r i"
proof (rule ccontr)
  assume "r j \<noteq> r i"
  then have "\<not> touches (item_op (items ! j)) (min (item_start items i) (item_start items k))
      (max (item_end items i) (item_end items k))"
    using assms(1,3-6) unfolding regions_closed_def item_start_def item_end_def by simp
  moreover have "item_start items i \<le> item_start items j" "item_start items j \<le> item_start items k"
    "item_start items k \<le> item_end items k" "item_start items j \<le> item_end items j"
    using assms(2-5) by (simp_all add: ordered_items_def)
  ultimately show False by (simp add: touches_def item_start_def item_end_def min_def max_def split: if_splits)
qed

lemma falling_rep_joins:
  assumes "regions_closed r items" "ordered_items items" "\<And>i. i < length items \<Longrightarrow> r i \<le> i \<and> r (r i) = r i"
    and "a < b" "b < length items" "r b \<le> a"
  shows "r a = r b"
proof (cases "r b = a")
  case True
  then show ?thesis using assms(3) [OF assms(5)] by simp
next
  case False
  then have "r b < a" using assms(6) by simp
  then show ?thesis using closed_between [OF assms(1,2) _ assms(4,5)] assms(3) [OF assms(5)] by simp
qed

lemma index_pairs_set: "set (index_pairs n) = {(a, b). a < b \<and> b < n}"
  by (force simp: index_pairs_def)

lemma forest_upt: "forest n [0..<n]"
  by (simp add: forest_def)

lemma rep_upt: "rep [0..<n] i = i"
  by (subst rep.simps) (auto simp: nth_upt)

theorem merge_emits_regions:
  assumes items: "ordered_items items"
    and orders: "\<And>xs. mset (span_order xs) = mset xs" "\<And>xs. mset (group_order xs) = mset xs"
  shows "\<exists>r gs. regions conflict items r gs \<and>
    merge_emits span_order group_order conflict items = Some (map (\<lambda>g. emit_of items (members r (length items) g)) gs)"
proof -
  let ?n = "length items" and ?c = "\<lambda>a b. conflict (items ! a) (items ! b)"
  have "\<forall>(a, b) \<in> set (index_pairs ?n). a < ?n \<and> b < ?n" by (auto simp: index_pairs_set)
  from join_pairs_ok [OF forest_upt this, of ?c False] obtain p1 any where
    p1: "join_pairs ?c (index_pairs ?n) [0..<?n] False = Some (p1, any)" "forest ?n p1"
      "any \<longleftrightarrow> False \<or> (\<exists>(a, b) \<in> set (index_pairs ?n). ?c a b)"
      "\<forall>(a, b) \<in> set (index_pairs ?n). ?c a b \<longrightarrow> rep p1 a = rep p1 b"
      "(\<forall>(a, b) \<in> set (index_pairs ?n). \<not> ?c a b) \<longrightarrow> p1 = [0..<?n]" by blast
  have "\<exists>p2. (if any then absorb_loop span_order items p1 else Some p1) = Some p2 \<and> forest ?n p2
      \<and> (\<forall>i. i < ?n \<longrightarrow> rep p2 i \<le> rep p1 i) \<and> regions_closed (rep p2) items"
  proof (cases any)
    case True
    then show ?thesis using absorb_loop_ok [OF refl orders(1) p1(2)] by simp
  next
    case False
    then have "p1 = [0..<?n]" using p1(3,5) by blast
    then show ?thesis using False forest_upt by (simp add: regions_closed_def rep_upt)
  qed
  then obtain p2 where p2: "(if any then absorb_loop span_order items p1 else Some p1) = Some p2" "forest ?n p2"
    "\<forall>i. i < ?n \<longrightarrow> rep p2 i \<le> rep p1 i" "regions_closed (rep p2) items" by blast
  have reps: "\<And>i. i < ?n \<Longrightarrow> rep p2 i \<le> i \<and> rep p2 (rep p2 i) = rep p2 i"
    using rep_le rep_idem [OF p2(2)] by blast
  have joined: "rep p2 a = rep p2 b" if ab: "a < b" "b < ?n" "?c a b" for a b
  proof (rule falling_rep_joins [OF p2(4) items reps ab(1,2)])
    have "rep p1 b = rep p1 a" using p1(4) ab by (auto simp: index_pairs_set)
    then show "rep p2 b \<le> a" using p2(3) ab(2) rep_le [of p1 a] by (metis order_trans)
  qed
  obtain gs where gs: "distinct gs" "set gs = rep p2 ` {..<?n}"
    "sort_key emit_key (map (\<lambda>(g, ms). emit_of items ms) (group_order (group_table (rep p2) [0..<?n] [])))
      = map (\<lambda>g. emit_of items (members (rep p2) ?n g)) gs"
    "sorted (map (\<lambda>g. emit_key (emit_of items (members (rep p2) ?n g))) gs)"
    by (rule group_emits [OF orders(2)])
  have "rep p2 i = i" if "\<forall>i j. i < j \<longrightarrow> j < ?n \<longrightarrow> \<not> ?c i j" for i
  proof -
    have "\<forall>(a, b) \<in> set (index_pairs ?n). \<not> ?c a b" using that by (auto simp: index_pairs_set)
    then have "\<not> any" "p1 = [0..<?n]" using p1(3,5) by blast+
    then have "p2 = [0..<?n]" using p2(1) by auto
    then show ?thesis by (simp only: rep_upt)
  qed
  then have "regions conflict items (rep p2) gs" using reps joined p2(4) gs by (simp add: regions_def)
  moreover have "merge_emits span_order group_order conflict items
      = Some (map (\<lambda>g. emit_of items (members (rep p2) ?n g)) gs)"
    using p1(1) p2(1,2) gs(3) by (simp add: merge_emits_def collect_groups_ok)
  ultimately show ?thesis by blast
qed

end
