(* ===== verification/Text_Align.thy ===== *)
theory Text_Align
  imports Text_Regions
begin

text \<open>
  From regions to a three-way alignment. The items of two scripts are pairwise separated or on opposite
  sides; the groups are intervals of items in base order; and the pieces emitted for them cut the base,
  our side and their side into corresponding segments.
\<close>

section \<open>Groups are disjoint intervals\<close>

definition group_lo :: "item list \<Rightarrow> (nat \<Rightarrow> nat) \<Rightarrow> nat \<Rightarrow> nat" where
  "group_lo items r g = Min (item_start items ` {i. i < length items \<and> r i = g})"

definition group_hi :: "item list \<Rightarrow> (nat \<Rightarrow> nat) \<Rightarrow> nat \<Rightarrow> nat" where
  "group_hi items r g = Max (item_end items ` {i. i < length items \<and> r i = g})"

text \<open>The emit of a group.\<close>

definition group_emit :: "item list \<Rightarrow> (nat \<Rightarrow> nat) \<Rightarrow> nat \<Rightarrow> emit" where
  "group_emit items r g = emit_of items (members r (length items) g)"

lemma emit_key_of:
  assumes "ms \<noteq> []"
  shows "emit_key (emit_of items ms) = (Min (item_start items ` set ms), Max (item_end items ` set ms))"
proof (cases "length ms = 1")
  case True
  then obtain i where "ms = [i]" by (auto simp: length_Suc_conv)
  then show ?thesis by (simp add: emit_of_def item_key_def item_start_def item_end_def)
next
  case False
  then show ?thesis by (simp add: emit_of_def item_start_def [abs_def] item_end_def [abs_def])
qed

lemma group_emit_key:
  assumes "g \<in> r ` {..<length items}"
  shows "emit_key (group_emit items r g) = (group_lo items r g, group_hi items r g)"
proof -
  have "members r (length items) g \<noteq> []" using assms by (auto simp: members_def filter_empty_conv)
  then show ?thesis by (simp add: group_emit_def emit_key_of group_lo_def group_hi_def)
qed

lemma group_bounds:
  assumes "i < length items" "r i = g"
  shows "group_lo items r g \<le> item_start items i" and "item_end items i \<le> group_hi items r g"
  using assms by (auto simp: group_lo_def group_hi_def intro!: Min_le Max_ge)

lemma group_attained:
  assumes "g \<in> r ` {..<length items}"
  obtains i j where "i < length items" "r i = g" "group_lo items r g = item_start items i"
    "j < length items" "r j = g" "group_hi items r g = item_end items j"
proof -
  let ?G = "{i. i < length items \<and> r i = g}"
  have "finite ?G" "?G \<noteq> {}" using assms by auto
  then have "group_lo items r g \<in> item_start items ` ?G" "group_hi items r g \<in> item_end items ` ?G"
    unfolding group_lo_def group_hi_def by (simp_all add: Min_in Max_in)
  then show thesis using that by blast
qed

text \<open>Items of one script are separated; items of opposite sides may meet.\<close>

definition separated :: "edit_op \<Rightarrow> edit_op \<Rightarrow> bool" where
  "separated p q \<longleftrightarrow> base_end p < base_start q \<or> base_end q < base_start p"

definition opposite :: "item \<Rightarrow> item \<Rightarrow> bool" where
  "opposite p q \<longleftrightarrow> item_side p \<noteq> SideBoth \<and> item_side q \<noteq> SideBoth \<and> item_side p \<noteq> item_side q"

definition compatible_items :: "item list \<Rightarrow> bool" where
  "compatible_items items \<longleftrightarrow> sorted_wrt (\<lambda>p q. opposite p q \<or> separated (item_op p) (item_op q)) items"

lemma quiet_disjoint:
  assumes "\<not> conflicting config wp pp p q" "opposite p q" "base_start (item_op p) \<le> base_start (item_op q)"
    and "base_start (item_op p) \<le> base_end (item_op p)" "base_start (item_op q) \<le> base_end (item_op q)"
  shows "base_end (item_op p) \<le> base_start (item_op q)"
    and "\<not> (base_start (item_op p) = base_end (item_op q) \<and> base_end (item_op p) = base_start (item_op q))"
  using assms by (auto simp: conflicting_def opposite_def Let_def split: if_splits)

lemma items_disjoint:
  assumes "ordered_items items" "compatible_items items" "i < j" "j < length items"
    and "\<not> conflicting config wp pp (items ! i) (items ! j)"
  shows "item_end items i \<le> item_start items j" and "item_start items i < item_end items j"
proof -
  have le: "item_start items i \<le> item_start items j" "item_start items i \<le> item_end items i" "item_start items j \<le> item_end items j"
    using assms(1,3,4) by (simp_all add: ordered_items_def)
  have "opposite (items ! i) (items ! j) \<or> separated (item_op (items ! i)) (item_op (items ! j))"
    using assms(2-4) sorted_wrt_nth_less unfolding compatible_items_def by fastforce
  then have "item_end items i \<le> item_start items j \<and> item_start items i < item_end items j"
  proof
    assume "opposite (items ! i) (items ! j)"
    from quiet_disjoint [OF assms(5) this] le show ?thesis by (auto simp: item_start_def item_end_def)
  next
    assume "separated (item_op (items ! i)) (item_op (items ! j))"
    with le show ?thesis by (auto simp: separated_def item_start_def item_end_def)
  qed
  then show "item_end items i \<le> item_start items j" "item_start items i < item_end items j" by auto
qed

text \<open>Two groups do not interleave.\<close>

lemma groups_apart:
  assumes "regions_closed r items" "ordered_items items"
    and "i < length items" "r i = g" "j < length items" "r j = h" "i' < length items" "r i' = g" "j' < length items" "r j' = h"
    and "g \<noteq> h" "i < j"
  shows "i' < j'"
proof (rule ccontr)
  assume "\<not> i' < j'"
  then have "j' < i'" using assms(8,10,11) by (cases "i' = j'") auto
  show False
  proof (cases "j' < i")
    case True
    then show False using closed_between [OF assms(1,2) True assms(12,5)] assms(4,6,10,11) by simp
  next
    case False
    then have "i < j'" using assms(4,10,11) by (cases "i = j'") auto
    then show False using closed_between [OF assms(1,2) _ \<open>j' < i'\<close> assms(7)] assms(4,8,10,11) by simp
  qed
qed

lemma distinct_sorted_wrt:
  "distinct xs \<Longrightarrow> sorted (map key xs) \<Longrightarrow> sorted_wrt (\<lambda>x y. x \<noteq> y \<and> key x \<le> key y) xs"
  by (induction xs) auto

lemma groups_follow:
  assumes regions: "regions (conflicting config wp pp) items r gs"
    and items: "ordered_items items" "compatible_items items"
    and g: "g \<in> r ` {..<length items}" and h: "h \<in> r ` {..<length items}" and "g \<noteq> h"
    and ij: "i < length items" "r i = g" "j < length items" "r j = h" "i < j"
  shows "group_hi items r g \<le> group_lo items r h" and "group_lo items r g < group_hi items r h"
    and "i' < length items \<Longrightarrow> r i' = g \<Longrightarrow> j' < length items \<Longrightarrow> r j' = h \<Longrightarrow> i' < j'"
proof -
  have closed: "regions_closed r items" using regions by (simp add: regions_def)
  show apart: "i' < j'" if "i' < length items" "r i' = g" "j' < length items" "r j' = h" for i' j'
    using groups_apart [OF closed items(1) ij(1-4) that \<open>g \<noteq> h\<close> ij(5)] .
  have quiet: "\<not> conflicting config wp pp (items ! i') (items ! j')"
    if "i' < length items" "r i' = g" "j' < length items" "r j' = h" for i' j'
    using regions that apart [OF that] \<open>g \<noteq> h\<close> by (auto simp: regions_def)
  obtain gl gh where gl: "gl < length items" "r gl = g" "group_lo items r g = item_start items gl"
    and gh: "gh < length items" "r gh = g" "group_hi items r g = item_end items gh" by (rule group_attained [OF g])
  obtain hl hh where hl: "hl < length items" "r hl = h" "group_lo items r h = item_start items hl"
    and hh: "hh < length items" "r hh = h" "group_hi items r h = item_end items hh" by (rule group_attained [OF h])
  show "group_hi items r g \<le> group_lo items r h"
    using items_disjoint(1) [OF items apart [OF gh(1,2) hl(1,2)] hl(1) quiet [OF gh(1,2) hl(1,2)]] gh(3) hl(3) by simp
  show "group_lo items r g < group_hi items r h"
    using items_disjoint(2) [OF items apart [OF gl(1,2) hh(1,2)] hh(1) quiet [OF gl(1,2) hh(1,2)]] gl(3) hh(3) by simp
qed

lemma group_lo_hi:
  assumes "ordered_items items" "g \<in> r ` {..<length items}"
  shows "group_lo items r g \<le> group_hi items r g"
proof -
  obtain i where "i < length items" "r i = g" using assms(2) by auto
  moreover from this have "item_start items i \<le> item_end items i" using assms(1) by (simp add: ordered_items_def)
  ultimately show ?thesis using group_bounds [of i items r g] by simp
qed

lemma groups_in_order:
  assumes regions: "regions (conflicting config wp pp) items r gs"
    and items: "ordered_items items" "compatible_items items"
  shows "sorted_wrt (\<lambda>g h. group_hi items r g \<le> group_lo items r h
    \<and> (\<forall>i j. i < length items \<longrightarrow> j < length items \<longrightarrow> r i = g \<longrightarrow> r j = h \<longrightarrow> i < j)) gs"
proof (rule sorted_wrt_mono_rel)
  let ?key = "\<lambda>g. emit_key (emit_of items (members r (length items) g))"
  show "sorted_wrt (\<lambda>g h. g \<noteq> h \<and> ?key g \<le> ?key h) gs"
    using regions by (intro distinct_sorted_wrt) (auto simp: regions_def)
  fix g h
  assume gs: "g \<in> set gs" "h \<in> set gs" and gh: "g \<noteq> h \<and> ?key g \<le> ?key h"
  have g: "g \<in> r ` {..<length items}" and h: "h \<in> r ` {..<length items}" using gs regions by (auto simp: regions_def)
  then obtain i j where ij: "i < length items" "r i = g" "j < length items" "r j = h" by blast
  have le: "group_lo items r g < group_lo items r h
      \<or> group_lo items r g = group_lo items r h \<and> group_hi items r g \<le> group_hi items r h"
    using gh group_emit_key [OF g] group_emit_key [OF h] by (auto simp: group_emit_def)
  have "i < j"
  proof (rule ccontr)
    assume "\<not> i < j"
    then have "j < i" using ij gh by (cases "i = j") auto
    note rev = groups_follow(1,2) [OF regions items h g _ ij(3,4,1,2) this]
    show False using rev gh le group_lo_hi [OF items(1) h] group_lo_hi [OF items(1) g] by auto
  qed
  then show "group_hi items r g \<le> group_lo items r h
      \<and> (\<forall>i j. i < length items \<longrightarrow> j < length items \<longrightarrow> r i = g \<longrightarrow> r j = h \<longrightarrow> i < j)"
    using groups_follow [OF regions items g h _ ij] gh by blast
qed

lemma groups_tile:
  assumes "regions (conflicting config wp pp) items r gs" "ordered_items items" "compatible_items items"
  shows "concat (map (members r (length items)) gs) = [0..<length items]"
proof -
  let ?n = "length items"
  have set: "set gs = r ` {..<?n}" using assms(1) by (simp add: regions_def)
  have "sorted_wrt (<) (concat (map (members r ?n) gs))"
    using groups_in_order [OF assms]
  proof (induction gs)
    case (Cons g gs)
    have "sorted_wrt (<) (members r ?n g)" unfolding members_def by (intro sorted_wrt_filter) simp
    with Cons show ?case by (auto simp: sorted_wrt_append)
  qed simp
  moreover have "set (concat (map (members r ?n) gs)) = {0..<?n}" using set by auto
  ultimately show ?thesis using sorted_distinct_set_unique [of _ "[0..<?n]"] by (simp add: strict_sorted_iff)
qed

section \<open>The items of two scripts\<close>

definition same_span :: "edit_op \<Rightarrow> edit_op \<Rightarrow> bool" where
  "same_span t op \<longleftrightarrow> base_start t = base_start op \<and> base_end t = base_end op"

definition convergent :: "(edit_op \<Rightarrow> edit_op \<Rightarrow> bool option) \<Rightarrow> edit_op \<Rightarrow> edit_op \<Rightarrow> bool" where
  "convergent same t op \<longleftrightarrow> same_span t op \<and> same t op = Some True"

lemma find_convergent_ok:
  assumes "\<forall>t \<in> set ys. same t op \<noteq> None"
  shows "i \<le> length ys \<Longrightarrow> \<exists>hit. find_convergent same used op i (drop i ys) = Some hit
    \<and> (case hit of
         Some k \<Rightarrow> k < length ys \<and> \<not> used ! k \<and> convergent same (ys ! k) op
       | None \<Rightarrow> \<forall>k. i \<le> k \<longrightarrow> k < length ys \<longrightarrow> used ! k \<or> \<not> convergent same (ys ! k) op)"
proof (induction "length ys - i" arbitrary: i)
  case (Suc n)
  then have i: "i < length ys" by simp
  then have drop: "drop i ys = ys ! i # drop (i + 1) ys" by (simp add: Cons_nth_drop_Suc)
  have "ys ! i \<in> set ys" using i by simp
  then obtain eq where eq: "same (ys ! i) op = Some eq" using assms by auto
  have "n = length ys - (i + 1)" "i + 1 \<le> length ys" using Suc(2) i by simp_all
  from Suc(1) [OF this] obtain hit where hit: "find_convergent same used op (i + 1) (drop (i + 1) ys) = Some hit"
    and tail: "case hit of Some k \<Rightarrow> k < length ys \<and> \<not> used ! k \<and> convergent same (ys ! k) op
       | None \<Rightarrow> \<forall>k. i + 1 \<le> k \<longrightarrow> k < length ys \<longrightarrow> used ! k \<or> \<not> convergent same (ys ! k) op" by blast
  show ?case
  proof (cases "\<not> used ! i \<and> convergent same (ys ! i) op")
    case True
    then show ?thesis using i eq by (simp add: drop convergent_def same_span_def)
  next
    case False
    then have "find_convergent same used op i (drop i ys) = Some hit"
      using eq hit by (auto simp: drop convergent_def same_span_def)
    moreover have "used ! k \<or> \<not> convergent same (ys ! k) op" if "hit = None" "i \<le> k" "k < length ys" for k
      using tail False that by (cases "k = i") auto
    ultimately show ?thesis using tail by (cases hit) auto
  qed
qed simp

lemma pair_ops_ok:
  assumes "\<forall>op \<in> set ops. \<forall>t \<in> set ys. same t op \<noteq> None" "length used = length ys"
  shows "\<exists>its used'. pair_ops same ys ops used = Some (its, used') \<and> length used' = length ys \<and> map item_op its = ops
    \<and> (\<forall>it \<in> set its. item_side it = SideOurs \<and> (\<forall>i. i < length ys \<longrightarrow> convergent same (ys ! i) (item_op it) \<longrightarrow> used' ! i)
         \<or> item_side it = SideBoth \<and> (\<exists>i. i < length ys \<and> used' ! i \<and> convergent same (ys ! i) (item_op it)))
    \<and> (\<forall>i. i < length ys \<longrightarrow> used ! i \<longrightarrow> used' ! i)
    \<and> (\<forall>i. i < length ys \<longrightarrow> used' ! i \<longrightarrow> used ! i
         \<or> (\<exists>it \<in> set its. item_side it = SideBoth \<and> convergent same (ys ! i) (item_op it)))"
  using assms
proof (induction ops arbitrary: used)
  case (Cons op ops)
  obtain hit where hit: "find_convergent same used op 0 ys = Some hit"
    "\<And>k. hit = Some k \<Longrightarrow> k < length ys \<and> \<not> used ! k \<and> convergent same (ys ! k) op"
    "hit = None \<Longrightarrow> \<forall>k. k < length ys \<longrightarrow> used ! k \<or> \<not> convergent same (ys ! k) op"
    using find_convergent_ok [of ys same op 0 used] Cons.prems(1) by (auto split: option.splits)
  define used1 where "used1 = (case hit of Some k \<Rightarrow> used[k := True] | None \<Rightarrow> used)"
  define it where "it = \<lparr>item_side = (case hit of Some k \<Rightarrow> SideBoth | None \<Rightarrow> SideOurs), item_op = op\<rparr>"
  have "length used1 = length ys" using Cons.prems(2) by (simp add: used1_def split: option.splits)
  with Cons.IH [of used1] Cons.prems(1) obtain its used' where ih: "pair_ops same ys ops used1 = Some (its, used')"
    "length used' = length ys" "map item_op its = ops"
    "\<forall>it \<in> set its. item_side it = SideOurs \<and> (\<forall>i. i < length ys \<longrightarrow> convergent same (ys ! i) (item_op it) \<longrightarrow> used' ! i)
       \<or> item_side it = SideBoth \<and> (\<exists>i. i < length ys \<and> used' ! i \<and> convergent same (ys ! i) (item_op it))"
    "\<forall>i. i < length ys \<longrightarrow> used1 ! i \<longrightarrow> used' ! i"
    "\<forall>i. i < length ys \<longrightarrow> used' ! i \<longrightarrow> used1 ! i
       \<or> (\<exists>it \<in> set its. item_side it = SideBoth \<and> convergent same (ys ! i) (item_op it))" by auto
  have run: "pair_ops same ys (op # ops) used = Some (it # its, used')"
    using hit(1) ih(1) by (simp add: it_def used1_def split: option.splits)
  show ?case
  proof (cases hit)
    case None
    then have "convergent same (ys ! i) op \<longrightarrow> used' ! i" if "i < length ys" for i
      using hit(3) ih(5) that by (auto simp: used1_def)
    then show ?thesis using None run ih by (intro exI [of _ "it # its"] exI [of _ used']) (auto simp: it_def used1_def)
  next
    case (Some k)
    have k: "k < length ys" "convergent same (ys ! k) op" using hit(2) [OF Some] by auto
    have u1: "used1 ! i \<longleftrightarrow> used ! i \<or> i = k" if "i < length ys" for i
      using that Cons.prems(2) k(1) by (auto simp: used1_def Some nth_list_update)
    have "used' ! k" using ih(5) u1 [OF k(1)] k(1) by simp
    moreover have "item_side it = SideBoth" "item_op it = op" by (simp_all add: it_def Some)
    ultimately show ?thesis using run ih k u1 by (intro exI [of _ "it # its"] exI [of _ used']) auto
  qed
qed simp

text \<open>A script is ordered, and a span determines its operation.\<close>

lemma script_ok_facts:
  assumes "script_ok ws ws' script"
  shows "sorted_wrt (\<lambda>x y. base_end x < base_start y \<and> repl_end x < repl_start y) script"
    and "op \<in> set script \<Longrightarrow> base_start op \<le> base_end op \<and> base_end op \<le> length ws
      \<and> repl_start op \<le> repl_end op \<and> repl_end op \<le> length ws'"
proof -
  show "sorted_wrt (\<lambda>x y. base_end x < base_start y \<and> repl_end x < repl_start y) script"
    using assms by (simp add: script_ok_def spaced_script)
  have "edits_ok ws ws' 0 0 (map edit_span script) (length ws) (length ws')" using assms by (simp add: script_ok_def)
  from edits_ok_bounds [OF this] show "base_start op \<le> base_end op \<and> base_end op \<le> length ws
      \<and> repl_start op \<le> repl_end op \<and> repl_end op \<le> length ws'" if "op \<in> set script"
    using that by (fastforce simp: edit_span_def)
qed

definition op_key :: "edit_op \<Rightarrow> nat \<times> nat" where
  "op_key op = (base_start op, base_end op)"

lemma item_key_op: "item_key it = op_key (item_op it)"
  by (simp add: item_key_def op_key_def)

lemma same_span_key: "same_span t op \<longleftrightarrow> op_key t = op_key op"
  by (simp add: same_span_def op_key_def)

text \<open>What the proofs use of a script.\<close>

definition tidy :: "edit_op list \<Rightarrow> bool" where
  "tidy script \<longleftrightarrow> sorted_wrt (\<lambda>x y. base_end x < base_start y) script
     \<and> (\<forall>op \<in> set script. base_start op \<le> base_end op)"

lemma script_ok_tidy: "script_ok ws ws' script \<Longrightarrow> tidy script"
  using script_ok_facts [of ws ws' script] unfolding tidy_def
  by (blast intro: sorted_wrt_mono_rel [rotated])

lemma tidy_keys:
  assumes "tidy script"
  shows "sorted_wrt (<) (map op_key script)" and "sorted (map op_key script)" and "distinct (map op_key script)"
proof -
  show strict: "sorted_wrt (<) (map op_key script)"
    unfolding sorted_wrt_map
    by (rule sorted_wrt_mono_rel [where P = "\<lambda>x y. base_end x < base_start y"])
      (use assms in \<open>auto simp: tidy_def op_key_def dest: le_less_trans\<close>)
  then show "sorted (map op_key script)" "distinct (map op_key script)" by (simp_all add: strict_sorted_iff)
qed

lemma key_inj: "distinct (map f xs) \<Longrightarrow> i < length xs \<Longrightarrow> j < length xs \<Longrightarrow> f (xs ! i) = f (xs ! j) \<Longrightarrow> i = j"
  using nth_eq_iff_index_eq [of "map f xs" i j] by simp

text \<open>How an item stands for an operation of their script.\<close>

definition stands_for :: "(edit_op \<Rightarrow> edit_op \<Rightarrow> bool option) \<Rightarrow> item \<Rightarrow> edit_op \<Rightarrow> bool" where
  "stands_for same it t \<longleftrightarrow> same_span t (item_op it)
     \<and> (if item_side it = SideTheirs then item_op it = t else same t (item_op it) = Some True)"

lemma sorted_wrt_cover:
  assumes "sorted_wrt R (filter P xs)" "sorted_wrt R (filter Q xs)"
    and "\<And>x y. \<not> (P x \<and> P y) \<Longrightarrow> \<not> (Q x \<and> Q y) \<Longrightarrow> R x y"
  shows "sorted_wrt R xs"
  using assms(1,2)
proof (induction xs)
  case (Cons x xs)
  have "R x y" if "y \<in> set xs" for y
    using Cons.prems that assms(3) [of x y] by (cases "P x"; cases "Q x") auto
  moreover have "sorted_wrt R xs" using Cons by (cases "P x"; cases "Q x") simp_all
  ultimately show ?case by simp
qed simp

text \<open>The unused operations of their script.\<close>

definition unused :: "bool list \<Rightarrow> edit_op list \<Rightarrow> item list" where
  "unused used ys = map (\<lambda>(u, t). \<lparr>item_side = SideTheirs, item_op = t\<rparr>) (filter (\<lambda>(u, t). \<not> u) (zip used ys))"

lemma unused_ops:
  assumes "length used = length ys"
  shows "it \<in> set (unused used ys) \<longleftrightarrow> item_side it = SideTheirs \<and> (\<exists>i. i < length ys \<and> \<not> used ! i \<and> item_op it = ys ! i)"
    and "tidy ys \<Longrightarrow> distinct (map item_key (unused used ys))"
proof -
  show "it \<in> set (unused used ys) \<longleftrightarrow> item_side it = SideTheirs \<and> (\<exists>i. i < length ys \<and> \<not> used ! i \<and> item_op it = ys ! i)"
    using assms by (force simp: unused_def in_set_zip intro!: image_eqI)
  assume "tidy ys"
  have "map item_key (unused used ys) = map (op_key \<circ> snd) (filter (\<lambda>(u, t). \<not> u) (zip used ys))"
    by (simp add: unused_def item_key_op case_prod_unfold)
  moreover have "distinct (map (op_key \<circ> snd) (zip used ys))"
    using tidy_keys(3) [OF \<open>tidy ys\<close>] assms by (simp flip: map_map)
  ultimately show "distinct (map item_key (unused used ys))" by (simp add: distinct_map_filter)
qed

text \<open>The items of our side and the unused operations of their side, before sorting.\<close>

definition paired :: "(edit_op \<Rightarrow> edit_op \<Rightarrow> bool option) \<Rightarrow> edit_op list \<Rightarrow> edit_op list \<Rightarrow> item list \<Rightarrow> bool list \<Rightarrow> bool" where
  "paired same xs ys its used \<longleftrightarrow> length used = length ys \<and> map item_op its = xs
     \<and> (\<forall>it \<in> set its. item_side it = SideOurs \<and> (\<forall>i. i < length ys \<longrightarrow> convergent same (ys ! i) (item_op it) \<longrightarrow> used ! i)
          \<or> item_side it = SideBoth \<and> (\<exists>i. i < length ys \<and> used ! i \<and> convergent same (ys ! i) (item_op it)))
     \<and> (\<forall>i. i < length ys \<longrightarrow> used ! i \<longrightarrow> (\<exists>it \<in> set its. item_side it = SideBoth \<and> convergent same (ys ! i) (item_op it)))"

lemma pair_ops_paired:
  assumes "\<forall>op \<in> set xs. \<forall>t \<in> set ys. same t op \<noteq> None"
  obtains its used where "pair_ops same ys xs (replicate (length ys) False) = Some (its, used)" "paired same xs ys its used"
  using pair_ops_ok [OF assms, of "replicate (length ys) False"] by (auto simp: paired_def)

lemma paired_theirs:
  assumes "paired same xs ys its used" "tidy xs" "tidy ys"
  defines "F \<equiv> sort_key item_key (filter (\<lambda>it. item_side it \<noteq> SideOurs) (its @ unused used ys))"
  shows "map item_key F = map op_key ys"
proof -
  let ?B = "filter (\<lambda>it. item_side it \<noteq> SideOurs) its"
  have len: "length used = length ys" using assms(1) by (simp add: paired_def)
  note un = unused_ops [OF len]
  have theirs: "filter (\<lambda>it. item_side it \<noteq> SideOurs) (unused used ys) = unused used ys"
    by (rule filter_True) (simp add: un(1))
  have both: "\<exists>i. i < length ys \<and> used ! i \<and> op_key (ys ! i) = item_key it" if "it \<in> set ?B" for it
    using assms(1) that by (auto simp: paired_def convergent_def same_span_key item_key_op)
  have inj: "i = j" if "i < length ys" "j < length ys" "op_key (ys ! i) = op_key (ys ! j)" for i j
    using key_inj [OF tidy_keys(3) [OF assms(3)] that] .
  have "map item_key its = map op_key xs" using assms(1) by (auto simp: paired_def item_key_op)
  then have "distinct (map item_key its)" using tidy_keys(3) [OF assms(2)] by simp
  then have "distinct (map item_key ?B)" by (rule distinct_map_filter)
  moreover have "item_key ` set ?B \<inter> item_key ` set (unused used ys) = {}"
  proof (rule equals0I)
    fix k
    assume "k \<in> item_key ` set ?B \<inter> item_key ` set (unused used ys)"
    then obtain it u where "it \<in> set ?B" "k = item_key it" "u \<in> set (unused used ys)" "k = item_key u" by blast
    then obtain i j where "i < length ys" "used ! i" "op_key (ys ! i) = k" "j < length ys" "\<not> used ! j" "op_key (ys ! j) = k"
      using both [of it] un(1) [of u] by (auto simp: item_key_op)
    with inj [of i j] show False by simp
  qed
  ultimately have "distinct (map item_key (?B @ unused used ys))" using un(2) [OF assms(3)] by simp
  moreover have "mset (map item_key F) = mset (map item_key (?B @ unused used ys))" by (simp add: F_def theirs)
  ultimately have "distinct (map item_key F)" using mset_eq_imp_distinct_iff by blast
  moreover have "item_key ` set (?B @ unused used ys) = op_key ` set ys"
  proof (intro equalityI subsetI)
    fix k
    assume "k \<in> item_key ` set (?B @ unused used ys)"
    then obtain it where "it \<in> set ?B \<or> it \<in> set (unused used ys)" "k = item_key it" by auto
    then obtain i where "i < length ys" "op_key (ys ! i) = k" using both [of it] un(1) [of it] by (auto simp: item_key_op)
    then show "k \<in> op_key ` set ys" by auto
  next
    fix k
    assume "k \<in> op_key ` set ys"
    then obtain i where i: "i < length ys" "k = op_key (ys ! i)" by (auto simp: in_set_conv_nth)
    show "k \<in> item_key ` set (?B @ unused used ys)"
    proof (cases "used ! i")
      case True
      then obtain it where "it \<in> set its" "item_side it = SideBoth" "convergent same (ys ! i) (item_op it)"
        using assms(1) i(1) by (auto simp: paired_def)
      then show ?thesis using i by (auto simp: convergent_def same_span_key item_key_op intro!: image_eqI [of _ _ it])
    next
      case False
      then show ?thesis using i un(1) [of "\<lparr>item_side = SideTheirs, item_op = ys ! i\<rparr>"]
        by (auto simp: item_key_op intro!: image_eqI [of _ _ "\<lparr>item_side = SideTheirs, item_op = ys ! i\<rparr>"])
    qed
  qed
  then have "set (map item_key F) = set (map op_key ys)" by (simp add: F_def theirs image_Un)
  ultimately show ?thesis
    using tidy_keys(2,3) [OF assms(3)] by (intro sorted_distinct_set_unique) (simp_all add: F_def)
qed

definition of_ours :: "item \<Rightarrow> bool" where
  "of_ours it \<longleftrightarrow> item_side it \<noteq> SideTheirs"

definition of_theirs :: "item \<Rightarrow> bool" where
  "of_theirs it \<longleftrightarrow> item_side it \<noteq> SideOurs"

text \<open>The items in base order, and what they stand for on either side.\<close>

definition items_for :: "(edit_op \<Rightarrow> edit_op \<Rightarrow> bool option) \<Rightarrow> edit_op list \<Rightarrow> edit_op list \<Rightarrow> item list \<Rightarrow> bool" where
  "items_for same xs ys items \<longleftrightarrow>
     map item_op (filter of_ours items) = xs \<and> list_all2 (stands_for same) (filter of_theirs items) ys"

lemma paired_items_for:
  assumes "paired same xs ys its used" "tidy xs" "tidy ys"
  shows "items_for same xs ys (sort_key item_key (its @ unused used ys))"
proof -
  define F where "F = sort_key item_key (filter (\<lambda>it. item_side it \<noteq> SideOurs) (its @ unused used ys))"
  have len: "length used = length ys" and ops: "map item_op its = xs" using assms(1) by (simp_all add: paired_def)
  note un = unused_ops(1) [OF len]
  have "filter of_ours its = its"
    by (rule filter_True) (use assms(1) in \<open>auto simp: paired_def of_ours_def\<close>)
  moreover have "filter of_ours (unused used ys) = []" by (simp add: un of_ours_def filter_empty_conv)
  moreover have "map item_key its = map op_key xs" using ops by (auto simp: item_key_op)
  then have "sort_key item_key its = its" using tidy_keys(2) [OF assms(2)] by (intro sort_key_id_if_sorted) simp
  ultimately have ours: "map item_op (filter of_ours (sort_key item_key (its @ unused used ys))) = xs"
    by (simp add: filter_sort ops)
  have keys: "map item_key F = map op_key ys" unfolding F_def by (rule paired_theirs [OF assms])
  then have lenF: "length F = length ys" by (metis length_map)
  have "stands_for same (F ! k) (ys ! k)" if k: "k < length ys" for k
  proof -
    have key: "item_key (F ! k) = op_key (ys ! k)" using keys k lenF by (metis nth_map)
    have inj: "i = k" if "i < length ys" "op_key (ys ! i) = item_key (F ! k)" for i
      using key_inj [OF tidy_keys(3) [OF assms(3)] that(1) k] that(2) key by simp
    have "F ! k \<in> set F" using k lenF by simp
    then consider "F ! k \<in> set its" "item_side (F ! k) \<noteq> SideOurs" | "F ! k \<in> set (unused used ys)"
      unfolding F_def by auto
    then show ?thesis
    proof cases
      case 1
      then obtain i where "i < length ys" "convergent same (ys ! i) (item_op (F ! k))" "item_side (F ! k) = SideBoth"
        using assms(1) unfolding paired_def by blast
      then show ?thesis using inj [of i] by (simp add: convergent_def same_span_key item_key_op stands_for_def)
    next
      case 2
      then obtain i where "i < length ys" "item_op (F ! k) = ys ! i" "item_side (F ! k) = SideTheirs"
        unfolding un by blast
      then show ?thesis using inj [of i] by (simp add: same_span_key item_key_op stands_for_def)
    qed
  qed
  then have "list_all2 (stands_for same) F ys" using lenF by (simp add: list_all2_conv_all_nth)
  with ours show ?thesis by (simp add: items_for_def filter_sort of_theirs_def [abs_def] F_def)
qed

lemma items_for_spans:
  assumes "items_for same xs ys items" "tidy xs" "tidy ys"
  shows "compatible_items items" and "it \<in> set items \<Longrightarrow> base_start (item_op it) \<le> base_end (item_op it)"
proof -
  have ours: "map item_op (filter of_ours items) = xs" and theirs: "list_all2 (stands_for same) (filter of_theirs items) ys"
    using assms(1) by (simp_all add: items_for_def)
  let ?R = "\<lambda>p q. opposite p q \<or> separated (item_op p) (item_op q)"
  have "sorted_wrt (\<lambda>p q. base_end (item_op p) < base_start (item_op q)) (filter of_ours items)"
    using assms(2) ours by (auto simp: tidy_def sorted_wrt_map)
  moreover have "sorted_wrt (\<lambda>p q. base_end (item_op p) < base_start (item_op q)) (filter of_theirs items)"
    using assms(3) theirs
    by (auto simp: tidy_def sorted_wrt_iff_nth_less list_all2_conv_all_nth stands_for_def same_span_def) 
  ultimately show "compatible_items items"
    unfolding compatible_items_def
    by (intro sorted_wrt_cover [of _ of_ours items of_theirs])
      (auto simp: separated_def opposite_def of_ours_def of_theirs_def elim!: sorted_wrt_mono_rel [rotated] split: item_side.splits)
  assume it: "it \<in> set items"
  show "base_start (item_op it) \<le> base_end (item_op it)"
  proof (cases "of_ours it")
    case True
    with it have "item_op it \<in> set xs" by (simp flip: ours)
    then show ?thesis using assms(2) by (simp add: tidy_def)
  next
    case False
    then have "it \<in> set (filter of_theirs items)" using it by (auto simp: of_ours_def of_theirs_def)
    then obtain t where "t \<in> set ys" "stands_for same it t" using theirs by (metis in_set_conv_nth list_all2_conv_all_nth)
    then show ?thesis using assms(3) by (auto simp: tidy_def stands_for_def same_span_def)
  qed
qed

theorem merge_items_ok:
  assumes "tidy xs" "tidy ys" "\<forall>op \<in> set xs. \<forall>t \<in> set ys. same t op \<noteq> None"
  obtains items where "merge_items same xs ys = Some items" "items_for same xs ys items" "ordered_items items" "compatible_items items"
proof -
  obtain its used where pair: "pair_ops same ys xs (replicate (length ys) False) = Some (its, used)" "paired same xs ys its used"
    by (rule pair_ops_paired [OF assms(3)])
  let ?items = "sort_key item_key (its @ unused used ys)"
  have items: "items_for same xs ys ?items" by (rule paired_items_for [OF pair(2) assms(1,2)])
  have "item_start ?items i \<le> item_start ?items j" if "i \<le> j" "j < length ?items" for i j
  proof -
    have "item_key (?items ! i) \<le> item_key (?items ! j)"
      using sorted_nth_mono [OF sorted_sort_key, of i j item_key "its @ unused used ys"] that by simp
    then show ?thesis by (auto simp: item_start_def item_key_def)
  qed
  moreover have "item_start ?items i \<le> item_end ?items i" if "i < length ?items" for i
    unfolding item_start_def item_end_def by (rule items_for_spans(2) [OF items assms(1,2) nth_mem [OF that]])
  ultimately have "ordered_items ?items" unfolding ordered_items_def by blast
  then show thesis using that [of ?items] pair(1) items items_for_spans(1) [OF items assms(1,2)]
    by (simp add: merge_items_def unused_def)
qed

end
