(* ===== verification/Text_Pieces.thy ===== *)
theory Text_Pieces
  imports Text_Align
begin

text \<open>
  The pieces of the text merge. The emitted groups cut the items into blocks in base order; each block
  gives one hunk, a stretch of the base with what either side made of it; and the pieces are those of the
  hunks. So the merge never fabricates text: the base, our side and their side are the concatenations of
  their parts of the hunks.
\<close>

section \<open>Blocks of items\<close>

definition block_lo :: "item list \<Rightarrow> nat" where
  "block_lo blk = Min (set (map (base_start \<circ> item_op) blk))"

definition block_hi :: "item list \<Rightarrow> nat" where
  "block_hi blk = Max (set (map (base_end \<circ> item_op) blk))"

definition block_emit :: "item list \<Rightarrow> emit" where
  "block_emit blk = (if length blk = 1 then EmitOp (hd blk) else EmitRegion (block_lo blk) (block_hi blk))"

definition well_blocked :: "item list list \<Rightarrow> bool" where
  "well_blocked blocks \<longleftrightarrow> [] \<notin> set blocks
     \<and> (\<forall>it \<in> set (concat blocks). base_start (item_op it) \<le> base_end (item_op it))
     \<and> sorted_wrt (\<lambda>B C. block_hi B \<le> block_lo C \<and> (2 \<le> length B \<or> 2 \<le> length C \<longrightarrow> block_hi B < block_lo C)) blocks"

lemma region_hull:
  assumes "regions_closed r items" "i < length items" "r i \<noteq> g" "2 \<le> length (members r (length items) g)"
  shows "\<not> touches (item_op (items ! i)) (group_lo items r g) (group_hi items r g)"
proof -
  let ?G = "{i. i < length items \<and> r i = g}"
  have "card (set (members r (length items) g)) = length (members r (length items) g)"
    by (rule distinct_card) (simp add: members_def)
  then have card: "2 \<le> card ?G" using assms(4) by simp
  have "?G \<noteq> {}" using card by (intro notI) simp
  then have g: "g \<in> r ` {..<length items}" by blast
  obtain j k where j: "j < length items" "r j = g" "group_lo items r g = item_start items j"
    and k: "k < length items" "r k = g" "group_hi items r g = item_end items k" by (rule group_attained [OF g])
  have "\<not> ?G \<subseteq> {j}"
  proof
    assume "?G \<subseteq> {j}"
    then have "card ?G \<le> card {j}" by (rule card_mono [rotated]) simp
    with card show False by simp
  qed
  then obtain l where l: "l \<in> ?G" "k = j \<longrightarrow> l \<noteq> j" "k \<noteq> j \<longrightarrow> l = k" using k by blast
  have lj: "l \<noteq> j" using l by auto
  have "\<not> touches (item_op (items ! i)) (min (item_start items j) (item_start items l)) (max (item_end items j) (item_end items l))"
    using assms(1-3) j l(1) lj unfolding regions_closed_def item_start_def item_end_def by simp
  moreover have "min (item_start items j) (item_start items l) = group_lo items r g"
    using group_bounds(1) [of l items r g] l(1) j(3) by simp
  moreover have "max (item_end items j) (item_end items l) = group_hi items r g"
    using group_bounds(2) [of l items r g] group_bounds(2) [of j items r g] l j(1,2) k(3) by (cases "k = j") auto
  ultimately show ?thesis by simp
qed

definition group_block :: "item list \<Rightarrow> (nat \<Rightarrow> nat) \<Rightarrow> nat \<Rightarrow> item list" where
  "group_block items r g = map ((!) items) (members r (length items) g)"

lemma group_block_bounds:
  "block_lo (group_block items r g) = group_lo items r g" "block_hi (group_block items r g) = group_hi items r g"
  by (simp_all add: block_lo_def block_hi_def group_block_def group_lo_def group_hi_def image_image
      item_start_def [abs_def] item_end_def [abs_def])

lemma group_block_emit:
  assumes "g \<in> r ` {..<length items}"
  shows "block_emit (group_block items r g) = emit_of items (members r (length items) g)"
proof -
  have "members r (length items) g \<noteq> []" using assms by (auto simp: members_def filter_empty_conv)
  then show ?thesis
    by (simp add: block_emit_def emit_of_def group_block_bounds hd_map group_lo_def group_hi_def
        item_start_def [abs_def] item_end_def [abs_def]) (simp add: group_block_def hd_map)
qed

lemma groups_strict:
  assumes closed: "regions_closed r items" and items: "ordered_items items"
    and gh: "g \<in> r ` {..<length items}" "h \<in> r ` {..<length items}" "g \<noteq> h" "group_hi items r g \<le> group_lo items r h"
    and long: "2 \<le> length (members r (length items) g) \<or> 2 \<le> length (members r (length items) h)"
  shows "group_hi items r g < group_lo items r h"
proof -
  obtain i where i: "i < length items" "r i = g" "group_hi items r g = item_end items i" by (rule group_attained [OF gh(1)])
  obtain j where j: "j < length items" "r j = h" "group_lo items r h = item_start items j" by (rule group_attained [OF gh(2)])
  have le: "item_start items i \<le> item_end items i" "item_start items j \<le> item_end items j"
    using items i(1) j(1) by (simp_all add: ordered_items_def)
  note lohi = group_lo_hi [OF items gh(1)] group_lo_hi [OF items gh(2)]
  from long show ?thesis
  proof
    assume "2 \<le> length (members r (length items) g)"
    from region_hull [OF closed j(1) _ this] gh(3) j(2) have "\<not> touches (item_op (items ! j)) (group_lo items r g) (group_hi items r g)"
      by simp
    then show ?thesis using le lohi gh(4) j(3) by (simp add: touches_def item_start_def item_end_def)
  next
    assume "2 \<le> length (members r (length items) h)"
    from region_hull [OF closed i(1) _ this] gh(3) i(2) have "\<not> touches (item_op (items ! i)) (group_lo items r h) (group_hi items r h)"
      by simp
    then show ?thesis using le lohi gh(4) i(3) by (simp add: touches_def item_start_def item_end_def)
  qed
qed

theorem regions_blocks:
  assumes "regions (conflicting config wp pp) items r gs" "ordered_items items" "compatible_items items"
  shows "concat (map (group_block items r) gs) = items" and "well_blocked (map (group_block items r) gs)"
    and "map (\<lambda>g. emit_of items (members r (length items) g)) gs = map block_emit (map (group_block items r) gs)"
proof -
  let ?n = "length items"
  have closed: "regions_closed r items" and gs: "set gs = r ` {..<?n}" using assms(1) by (simp_all add: regions_def)
  have "concat (map (group_block items r) gs) = map ((!) items) (concat (map (members r ?n) gs))"
    by (simp add: group_block_def [abs_def] map_concat o_def)
  then show items: "concat (map (group_block items r) gs) = items" by (simp add: groups_tile [OF assms] map_nth)
  show "map (\<lambda>g. emit_of items (members r ?n g)) gs = map block_emit (map (group_block items r) gs)"
    by (simp add: gs group_block_emit)
  have "sorted_wrt (\<lambda>B C. block_hi B \<le> block_lo C \<and> (2 \<le> length B \<or> 2 \<le> length C \<longrightarrow> block_hi B < block_lo C))
      (map (group_block items r) gs)"
    unfolding sorted_wrt_map
  proof (rule sorted_wrt_mono_rel [OF _ groups_in_order [OF assms]])
    fix g h
    assume g: "g \<in> set gs" and h: "h \<in> set gs" and gh: "group_hi items r g \<le> group_lo items r h
      \<and> (\<forall>i j. i < ?n \<longrightarrow> j < ?n \<longrightarrow> r i = g \<longrightarrow> r j = h \<longrightarrow> i < j)"
    from g obtain i where "i < ?n" "r i = g" unfolding gs by blast
    then have "g \<noteq> h" using gh by blast
    show "block_hi (group_block items r g) \<le> block_lo (group_block items r h)
      \<and> (2 \<le> length (group_block items r g) \<or> 2 \<le> length (group_block items r h)
        \<longrightarrow> block_hi (group_block items r g) < block_lo (group_block items r h))"
      using groups_strict [OF closed assms(2), of g h] \<open>g \<noteq> h\<close> gh g h unfolding group_block_bounds gs by (simp add: group_block_def)
  qed
  moreover have "[] \<notin> set (map (group_block items r) gs)"
    by (force simp: group_block_def members_def filter_empty_conv gs)
  moreover have "\<forall>it \<in> set (concat (map (group_block items r) gs)). base_start (item_op it) \<le> base_end (item_op it)"
    unfolding items using assms(2) by (auto simp: ordered_items_def in_set_conv_nth item_start_def item_end_def)
  ultimately show "well_blocked (map (group_block items r) gs)" unfolding well_blocked_def by blast
qed

section \<open>Walking a side\<close>

lemma common_split:
  assumes "common a b p q p' q'" "p \<le> x" "x \<le> p'"
  shows "common a b p q x (q + (x - p))" and "common a b x (q + (x - p)) p' q'"
proof -
  have eq: "slice a p p' = slice b q q'" and le: "p \<le> p'" "q \<le> q'" "p' \<le> length a" "q' \<le> length b"
    using assms(1) by (simp_all add: common_def)
  have len: "p' - p = q' - q" by (rule common_length [OF assms(1)])
  have cut: "slice a p x = take (x - p) (slice a p p')" "slice a x p' = drop (x - p) (slice a p p')"
    using assms(2,3) by (simp_all add: slice_def min_def drop_take)
  have cut': "slice b q (q + (x - p)) = take (x - p) (slice b q q')" "slice b (q + (x - p)) q' = drop (x - p) (slice b q q')"
    using assms(2,3) len le by (simp_all add: slice_def min_def drop_take add.commute)
  show "common a b p q x (q + (x - p))" "common a b x (q + (x - p)) p' q'"
    using assms(2,3) le len eq unfolding common_def cut cut' by auto
qed

lemma edits_ok_advance:
  assumes "edits_ok a b c p ops n m" "c \<le> x" "x \<le> n" "\<forall>(s, e, s', e') \<in> set ops. x \<le> s"
  shows "common a b c p x (p + (x - c))" and "edits_ok a b x (p + (x - c)) ops n m"
proof -
  have "common a b c p x (p + (x - c)) \<and> edits_ok a b x (p + (x - c)) ops n m"
  proof (cases ops)
    case Nil
    then show ?thesis using common_split [of a b c p n m x] assms by simp
  next
    case (Cons op ops')
    obtain s e s' e' where op: "op = (s, e, s', e')" by (cases op)
    then show ?thesis using common_split [of a b c p s s' x] assms by (simp add: Cons op)
  qed
  then show "common a b c p x (p + (x - c))" "edits_ok a b x (p + (x - c)) ops n m" by auto
qed

lemma edits_ok_split:
  assumes "edits_ok a b c p (ops @ ops') n m" "c \<le> x" "x \<le> n"
    and "\<forall>(s, e, s', e') \<in> set ops. e \<le> x" "\<forall>(s, e, s', e') \<in> set ops'. x \<le> s"
  shows "\<exists>q. edits_ok a b c p ops x q \<and> edits_ok a b x q ops' n m"
  using assms
proof (induction ops arbitrary: c p)
  case Nil
  then show ?case using edits_ok_advance [of a b c p ops' n m x] by auto
next
  case (Cons op ops)
  obtain s e s' e' where op: "op = (s, e, s', e')" by (cases op)
  then show ?case using Cons.IH [of e e'] Cons.prems by auto
qed

definition span_delta :: "span \<Rightarrow> int" where
  "span_delta op = (case op of (s, e, s', e') \<Rightarrow> (int e' - int s') - (int e - int s))"

lemma edits_ok_position:
  "edits_ok a b c p ops c' p' \<Longrightarrow> int p' - int p = (int c' - int c) + sum_list (map span_delta ops)"
proof (induction ops arbitrary: c p)
  case Nil
  then show ?case using common_length [of a b c p c' p'] by (auto simp: common_def)
next
  case (Cons op ops)
  obtain s e s' e' where op: "op = (s, e, s', e')" by (cases op)
  have "s - c = s' - p" "c \<le> s" "p \<le> s'" using Cons.prems common_length [of a b c p s s'] by (auto simp: op common_def)
  moreover have "int p' - int e' = (int c' - int e) + sum_list (map span_delta ops)" using Cons by (simp add: op)
  moreover have "span_delta op = (int e' - int s') - (int e - int s)" by (simp add: op span_delta_def)
  ultimately show ?case by simp
qed

text \<open>The part of a script that is done, and the part to come, at a cursor in the base and in the side.\<close>

definition side_at :: "string list \<Rightarrow> string list \<Rightarrow> edit_op list \<Rightarrow> edit_op list \<Rightarrow> edit_op list \<Rightarrow> nat \<Rightarrow> nat \<Rightarrow> bool" where
  "side_at wb ws script past rest c p \<longleftrightarrow> script = past @ rest
     \<and> edits_ok wb ws 0 0 (map edit_span past) c p \<and> edits_ok wb ws c p (map edit_span rest) (length wb) (length ws)"

lemma side_at_start: "script_ok wb ws script \<Longrightarrow> side_at wb ws script [] script 0 0"
  by (simp add: side_at_def script_ok_def common_refl)

lemma side_at_bounds:
  assumes "side_at wb ws script past rest c p"
  shows "c \<le> length wb" and "p \<le> length ws" and "op \<in> set past \<Longrightarrow> base_start op \<le> base_end op \<and> base_end op \<le> c"
    and "op \<in> set rest \<Longrightarrow> c \<le> base_start op \<and> base_start op \<le> base_end op \<and> base_end op \<le> length wb
      \<and> repl_start op \<le> repl_end op \<and> repl_end op \<le> length ws"
proof -
  have past: "edits_ok wb ws 0 0 (map edit_span past) c p" and rest: "edits_ok wb ws c p (map edit_span rest) (length wb) (length ws)"
    using assms by (simp_all add: side_at_def)
  show "c \<le> length wb" "p \<le> length ws" using edits_ok_bounds [OF past] by simp_all
  show "base_start op \<le> base_end op \<and> base_end op \<le> c" if "op \<in> set past" using edits_ok_bounds [OF past] that by (fastforce simp: edit_span_def)
  show "c \<le> base_start op \<and> base_start op \<le> base_end op \<and> base_end op \<le> length wb
      \<and> repl_start op \<le> repl_end op \<and> repl_end op \<le> length ws" if "op \<in> set rest"
    using edits_ok_bounds [OF rest] that by (fastforce simp: edit_span_def)
qed

lemma side_keep:
  assumes "side_at wb ws script past rest c p" "c \<le> x" "x \<le> length wb" "\<forall>op \<in> set rest. x \<le> base_start op"
  obtains q where "side_at wb ws script past rest x q" "common wb ws c p x q"
proof -
  have "\<forall>(s, e, s', e') \<in> set (map edit_span rest). x \<le> s" using assms(4) by (simp add: edit_span_def)
  from edits_ok_advance [OF _ assms(2,3) this, of wb ws p "length ws"] assms(1)
  have "common wb ws c p x (p + (x - c))" "edits_ok wb ws x (p + (x - c)) (map edit_span rest) (length wb) (length ws)"
    by (simp_all add: side_at_def)
  with assms(1) show thesis by (intro that [of "p + (x - c)"]) (auto simp: side_at_def intro: edits_ok_post)
qed

lemma side_take:
  assumes "side_at wb ws script past (op # rest) c p" "base_start op = c"
  shows "repl_start op = p" and "side_at wb ws script (past @ [op]) rest (base_end op) (repl_end op)"
proof -
  have past: "edits_ok wb ws 0 0 (map edit_span past) c p" and c: "common wb ws c p c (repl_start op)"
    and rest: "edits_ok wb ws (base_end op) (repl_end op) (map edit_span rest) (length wb) (length ws)"
    and op: "base_start op \<le> base_end op \<and> repl_start op \<le> repl_end op
      \<and> (base_start op < base_end op \<or> repl_start op < repl_end op)"
    using assms by (simp_all add: side_at_def edit_span_def)
  show p: "repl_start op = p" using common_length [OF c] c by (simp add: common_def)
  have "edits_ok wb ws c p [edit_span op] (base_end op) (repl_end op)"
    using c op p assms(2) edits_ok_bounds [OF rest] by (simp add: edit_span_def common_def)
  with past rest assms(1) show "side_at wb ws script (past @ [op]) rest (base_end op) (repl_end op)"
    by (simp add: side_at_def edits_ok_append)
qed

lemma side_region:
  assumes "side_at wb ws script past (ops @ rest) c p" "c \<le> x" "x \<le> length wb"
    and "\<forall>op \<in> set ops. base_end op \<le> x" "\<forall>op \<in> set rest. x \<le> base_start op"
  obtains q where "side_at wb ws script (past @ ops) rest x q" "edits_ok wb ws c p (map edit_span ops) x q"
proof -
  have "\<exists>q. edits_ok wb ws c p (map edit_span ops) x q \<and> edits_ok wb ws x q (map edit_span rest) (length wb) (length ws)"
    by (rule edits_ok_split) (use assms in \<open>auto simp: side_at_def edit_span_def\<close>)
  then show thesis using assms(1) that by (auto simp: side_at_def intro: edits_ok_append)
qed

text \<open>The two deltas of a span are sums over the operations before it and inside it.\<close>

definition delta_step :: "nat \<Rightarrow> nat \<Rightarrow> int \<times> int \<Rightarrow> edit_op \<Rightarrow> int \<times> int" where
  "delta_step lo hi d op = (case d of (start_delta, inner_delta) \<Rightarrow>
     if before_span lo op then (start_delta + op_delta op, inner_delta)
     else if base_start op \<ge> lo \<and> base_end op \<le> hi then (start_delta, inner_delta + op_delta op)
     else (start_delta, inner_delta))"

lemma deltas_sum:
  "foldl (delta_step lo hi) (d, i) script =
    (d + sum_list (map op_delta (filter (before_span lo) script)),
     i + sum_list (map op_delta (filter (inside_span lo hi) script)))"
  by (induction script arbitrary: d i) (auto simp: delta_step_def inside_span_def)

lemma op_delta_span: "op_delta op = span_delta (edit_span op)"
  by (simp add: op_delta_def span_delta_def edit_span_def)

lemma as_usize_id: "n < 2 ^ 64 \<Longrightarrow> as_usize (int n) = n"
  by (simp add: as_usize_def)

lemma side_span_region:
  assumes past: "side_at wb ws script past (ops @ rest) lo p" and here: "edits_ok wb ws lo p (map edit_span ops) hi q"
    and "\<forall>op \<in> set past. base_end op < lo \<and> base_start op \<le> base_end op" "\<forall>op \<in> set ops. base_end op \<le> hi"
      "\<forall>op \<in> set rest. hi < base_start op"
    and small: "length ws < 2 ^ 64"
  shows "side_span script lo hi = (p, q)"
proof -
  have script: "script = past @ ops @ rest" using past by (simp add: side_at_def)
  have ops: "\<forall>op \<in> set ops. lo \<le> base_start op \<and> base_start op \<le> base_end op" using side_at_bounds(4) [OF past] by simp
  have rest: "\<forall>op \<in> set rest. base_start op \<le> base_end op" using side_at_bounds(4) [OF past] by simp
  have "lo \<le> hi" using edits_ok_bounds [OF here] by simp
  have sp: "side_span script lo hi = (let (d, i) = foldl (delta_step lo hi) (0, 0) script
      in (as_usize (int lo + d), as_usize (int hi + d + i)))"
    by (simp add: side_span_def delta_step_def [abs_def] case_prod_unfold)
  have "filter (before_span lo) past = past" "filter (before_span lo) ops = []" "filter (before_span lo) rest = []"
    "filter (inside_span lo hi) past = []" "filter (inside_span lo hi) ops = ops" "filter (inside_span lo hi) rest = []"
    using assms(3-5) ops rest \<open>lo \<le> hi\<close>
    by (fastforce simp: before_span_def inside_span_def filter_empty_conv intro: filter_True)+
  then have "foldl (delta_step lo hi) (0, 0) script = (sum_list (map op_delta past), sum_list (map op_delta ops))"
    by (simp add: deltas_sum script)
  moreover have "int p = int lo + sum_list (map op_delta past)"
    using edits_ok_position [of wb ws 0 0 "map edit_span past" lo p] past by (simp add: side_at_def op_delta_span [abs_def] o_def)
  moreover have "int q = int hi + sum_list (map op_delta past) + sum_list (map op_delta ops)"
    using edits_ok_position [OF here] calculation(2) by (simp add: op_delta_span [abs_def] o_def)
  moreover have "p < 2 ^ 64" "q < 2 ^ 64" using side_at_bounds(2) [OF past] edits_ok_bounds [OF here] small by simp_all
  ultimately show ?thesis unfolding sp using as_usize_id [of p] as_usize_id [of q] by simp
qed

section \<open>Hunks\<close>

datatype hunk =
    Kept string
  | OursHunk string string
  | TheirsHunk string string
  | BothHunk string string
  | ConflictHunk string string string

fun hunk_base :: "hunk \<Rightarrow> string" where
  "hunk_base (Kept s) = s"
| "hunk_base (OursHunk b s) = b"
| "hunk_base (TheirsHunk b s) = b"
| "hunk_base (BothHunk b s) = b"
| "hunk_base (ConflictHunk b x y) = b"

fun hunk_ours :: "hunk \<Rightarrow> string" where
  "hunk_ours (Kept s) = s"
| "hunk_ours (OursHunk b s) = s"
| "hunk_ours (TheirsHunk b s) = b"
| "hunk_ours (BothHunk b s) = s"
| "hunk_ours (ConflictHunk b x y) = x"

fun hunk_theirs :: "hunk \<Rightarrow> string" where
  "hunk_theirs (Kept s) = s"
| "hunk_theirs (OursHunk b s) = b"
| "hunk_theirs (TheirsHunk b s) = s"
| "hunk_theirs (BothHunk b s) = s"
| "hunk_theirs (ConflictHunk b x y) = y"

definition merged_piece :: "string \<Rightarrow> provenance \<Rightarrow> merge_piece list" where
  "merged_piece s v = (if s = [] then [] else [Merged s v])"

fun hunk_pieces :: "hunk \<Rightarrow> merge_piece list" where
  "hunk_pieces (Kept s) = merged_piece s Base"
| "hunk_pieces (OursHunk b s) = merged_piece s Ours"
| "hunk_pieces (TheirsHunk b s) = merged_piece s Theirs"
| "hunk_pieces (BothHunk b s) = merged_piece s Both"
| "hunk_pieces (ConflictHunk b x y) = [Conflict b x y]"

fun hunk_ok :: "hunk \<Rightarrow> bool" where
  "hunk_ok (ConflictHunk b x y) \<longleftrightarrow> x \<noteq> y"
| "hunk_ok _ \<longleftrightarrow> True"

fun hunk_conflict :: "hunk \<Rightarrow> bool" where
  "hunk_conflict (ConflictHunk b x y) \<longleftrightarrow> True"
| "hunk_conflict _ \<longleftrightarrow> False"

lemma push_merged_piece: "push_merged ps s v = ps @ merged_piece s v"
  by (simp add: push_merged_def merged_piece_def)

text \<open>The hunks between two cursors.\<close>

definition text_between :: "string list \<Rightarrow> nat \<Rightarrow> nat \<Rightarrow> string" where
  "text_between ws i j = concat (slice ws i j)"

definition hunks_between ::
  "string list \<Rightarrow> string list \<Rightarrow> string list \<Rightarrow> nat \<times> nat \<times> nat \<Rightarrow> hunk list \<Rightarrow> nat \<times> nat \<times> nat \<Rightarrow> bool" where
  "hunks_between wb wx wy start hs finish \<longleftrightarrow> (case (start, finish) of ((c, p, q), (c', p', q')) \<Rightarrow>
     c \<le> c' \<and> p \<le> p' \<and> q \<le> q' \<and> list_all hunk_ok hs
     \<and> concat (map hunk_base hs) = text_between wb c c'
     \<and> concat (map hunk_ours hs) = text_between wx p p'
     \<and> concat (map hunk_theirs hs) = text_between wy q q')"

lemma text_between_join: "i \<le> j \<Longrightarrow> j \<le> k \<Longrightarrow> text_between ws i j @ text_between ws j k = text_between ws i k"
  by (simp add: text_between_def slice_join flip: concat_append)

lemma common_text: "common a b p q p' q' \<Longrightarrow> text_between a p p' = text_between b q q'"
  by (simp add: common_def text_between_def)

lemma hunks_between_append:
  "hunks_between wb wx wy start hs mid \<Longrightarrow> hunks_between wb wx wy mid hs' finish \<Longrightarrow> hunks_between wb wx wy start (hs @ hs') finish"
  by (cases start; cases mid; cases finish) (auto simp: hunks_between_def text_between_join)

section \<open>Walking both sides\<close>

definition sides_ok :: "(string \<Rightarrow> bool) \<Rightarrow> merge_sides \<Rightarrow> bool" where
  "sides_ok alnum m \<longleftrightarrow> base_tokens m = tokenize alnum (m_base m) \<and> ours_tokens m = tokenize alnum (m_ours m)
     \<and> theirs_tokens m = tokenize alnum (m_theirs m)
     \<and> length (words alnum (m_ours m)) < 2 ^ 64 \<and> length (words alnum (m_theirs m)) < 2 ^ 64"

definition same_of :: "merge_sides \<Rightarrow> edit_op \<Rightarrow> edit_op \<Rightarrow> bool option" where
  "same_of m = same_text (m_theirs m) (theirs_tokens m) (m_ours m) (ours_tokens m)"

definition synced ::
  "(string \<Rightarrow> bool) \<Rightarrow> merge_sides \<Rightarrow> item list list \<Rightarrow> edit_op list \<Rightarrow> edit_op list \<Rightarrow> edit_op list \<Rightarrow> edit_op list
    \<Rightarrow> nat \<Rightarrow> nat \<Rightarrow> nat \<Rightarrow> bool" where
  "synced alnum m blocks dx rx dy ry c p q \<longleftrightarrow>
     side_at (words alnum (m_base m)) (words alnum (m_ours m)) (ours_script m) dx rx c p
     \<and> side_at (words alnum (m_base m)) (words alnum (m_theirs m)) (theirs_script m) dy ry c q
     \<and> items_for (same_of m) rx ry (concat blocks) \<and> well_blocked blocks
     \<and> (\<forall>blk \<in> set blocks. c \<le> block_lo blk
          \<and> (2 \<le> length blk \<longrightarrow> (\<forall>op \<in> set dx \<union> set dy. base_end op < block_lo blk)))"

lemma items_for_ops:
  assumes "items_for same xs ys items" "op \<in> set xs \<union> set ys"
  shows "\<exists>it \<in> set items. base_start op = base_start (item_op it) \<and> base_end op = base_end (item_op it)"
  using assms(2)
proof
  assume "op \<in> set xs"
  then show ?thesis using assms(1) by (auto simp: items_for_def)
next
  assume "op \<in> set ys"
  moreover have "list_all2 (stands_for same) (filter of_theirs items) ys" using assms(1) by (simp add: items_for_def)
  ultimately obtain it where "it \<in> set (filter of_theirs items)" "stands_for same it op"
    by (metis in_set_conv_nth list_all2_conv_all_nth)
  then show ?thesis by (auto simp: stands_for_def same_span_def)
qed

lemma items_for_item:
  assumes "items_for same xs ys items" "it \<in> set items"
  shows "\<exists>op \<in> set xs \<union> set ys. base_start op = base_start (item_op it) \<and> base_end op = base_end (item_op it)"
proof (cases "of_ours it")
  case True
  then show ?thesis using assms by (auto simp: items_for_def)
next
  case False
  then have "it \<in> set (filter of_theirs items)" using assms(2) by (auto simp: of_ours_def of_theirs_def)
  moreover have "list_all2 (stands_for same) (filter of_theirs items) ys" using assms(1) by (simp add: items_for_def)
  ultimately obtain op where "op \<in> set ys" "stands_for same it op" by (metis in_set_conv_nth list_all2_conv_all_nth)
  then show ?thesis by (auto simp: stands_for_def same_span_def)
qed

lemma items_for_append:
  assumes "items_for same xs ys (A @ B)"
  obtains xa xb ya yb where "xs = xa @ xb" "ys = ya @ yb" "items_for same xa ya A" "items_for same xb yb B"
  using assms by (auto simp: items_for_def list_all2_append1)

lemma block_bounds: "it \<in> set blk \<Longrightarrow> block_lo blk \<le> base_start (item_op it) \<and> base_end (item_op it) \<le> block_hi blk"
  by (simp add: block_lo_def block_hi_def)

lemma rest_starts:
  assumes "items_for same rx ry (concat blocks)" "\<forall>blk \<in> set blocks. x \<le> block_lo blk" "op \<in> set rx \<union> set ry"
  shows "x \<le> base_start op"
proof -
  obtain it where "it \<in> set (concat blocks)" "base_start op = base_start (item_op it)"
    using items_for_ops [OF assms(1,3)] by blast
  then show ?thesis using assms(2) block_bounds by fastforce
qed

lemma synced_block:
  assumes "synced alnum m (blk # blocks) dx rx dy ry c p q"
  shows "c \<le> block_lo blk" and "block_lo blk \<le> block_hi blk" and "block_hi blk \<le> length (words alnum (m_base m))"
proof -
  have items: "items_for (same_of m) rx ry (concat (blk # blocks))" and wb: "well_blocked (blk # blocks)"
    and x: "side_at (words alnum (m_base m)) (words alnum (m_ours m)) (ours_script m) dx rx c p"
    and y: "side_at (words alnum (m_base m)) (words alnum (m_theirs m)) (theirs_script m) dy ry c q"
    and "c \<le> block_lo blk" using assms by (simp_all add: synced_def)
  then show "c \<le> block_lo blk" by simp
  have ne: "blk \<noteq> []" using wb by (auto simp: well_blocked_def)
  then have "hd blk \<in> set blk" by simp
  moreover from this have "base_start (item_op (hd blk)) \<le> base_end (item_op (hd blk))" using wb by (simp add: well_blocked_def)
  ultimately show "block_lo blk \<le> block_hi blk" using block_bounds [of "hd blk" blk] by simp
  have "block_hi blk \<in> set (map (base_end \<circ> item_op) blk)" unfolding block_hi_def using ne by (intro Max_in) simp_all
  then obtain it where "it \<in> set (concat (blk # blocks))" "block_hi blk = base_end (item_op it)" by auto
  then show "block_hi blk \<le> length (words alnum (m_base m))"
    using items_for_item [OF items] side_at_bounds(4) [OF x] side_at_bounds(4) [OF y] by fastforce
qed

abbreviation wbase :: "(string \<Rightarrow> bool) \<Rightarrow> merge_sides \<Rightarrow> string list" where
  "wbase alnum m \<equiv> words alnum (m_base m)"

abbreviation wours :: "(string \<Rightarrow> bool) \<Rightarrow> merge_sides \<Rightarrow> string list" where
  "wours alnum m \<equiv> words alnum (m_ours m)"

abbreviation wtheirs :: "(string \<Rightarrow> bool) \<Rightarrow> merge_sides \<Rightarrow> string list" where
  "wtheirs alnum m \<equiv> words alnum (m_theirs m)"

lemma synced_keep:
  assumes "synced alnum m blocks dx rx dy ry c p q" "c \<le> x" "x \<le> length (wbase alnum m)"
    and "\<forall>blk \<in> set blocks. x \<le> block_lo blk"
  obtains p' q' where "synced alnum m blocks dx rx dy ry x p' q'"
    "hunks_between (wbase alnum m) (wours alnum m) (wtheirs alnum m) (c, p, q) [Kept (text_between (wbase alnum m) c x)] (x, p', q')"
proof -
  have items: "items_for (same_of m) rx ry (concat blocks)"
    and x: "side_at (wbase alnum m) (wours alnum m) (ours_script m) dx rx c p"
    and y: "side_at (wbase alnum m) (wtheirs alnum m) (theirs_script m) dy ry c q"
    using assms(1) by (simp_all add: synced_def)
  have starts: "\<forall>op \<in> set rx. x \<le> base_start op" "\<forall>op \<in> set ry. x \<le> base_start op"
    using rest_starts [OF items assms(4)] by blast+
  obtain p' where p': "side_at (wbase alnum m) (wours alnum m) (ours_script m) dx rx x p'" "common (wbase alnum m) (wours alnum m) c p x p'"
    by (rule side_keep [OF x assms(2,3) starts(1)])
  obtain q' where q': "side_at (wbase alnum m) (wtheirs alnum m) (theirs_script m) dy ry x q'" "common (wbase alnum m) (wtheirs alnum m) c q x q'"
    by (rule side_keep [OF y assms(2,3) starts(2)])
  have "synced alnum m blocks dx rx dy ry x p' q'" using assms(1,4) p'(1) q'(1) by (simp add: synced_def)
  moreover have "hunks_between (wbase alnum m) (wours alnum m) (wtheirs alnum m) (c, p, q) [Kept (text_between (wbase alnum m) c x)] (x, p', q')"
    using common_text [OF p'(2)] common_text [OF q'(2)] p'(2) q'(2) by (simp add: hunks_between_def common_def)
  ultimately show thesis by (rule that)
qed

lemma synced_next:
  assumes "synced alnum m (blk # blocks) dx rx dy ry c p q" "items_for (same_of m) rx' ry' (concat blocks)"
    and "side_at (wbase alnum m) (wours alnum m) (ours_script m) dx' rx' (block_hi blk) p'"
    and "side_at (wbase alnum m) (wtheirs alnum m) (theirs_script m) dy' ry' (block_hi blk) q'"
  shows "synced alnum m blocks dx' rx' dy' ry' (block_hi blk) p' q'"
proof -
  have wb: "well_blocked (blk # blocks)" using assms(1) by (simp add: synced_def)
  have past: "base_end op \<le> block_hi blk" if "op \<in> set dx' \<union> set dy'" for op
    using that side_at_bounds(3) [OF assms(3)] side_at_bounds(3) [OF assms(4)] by blast
  have "block_hi blk \<le> block_lo C \<and> (2 \<le> length C \<longrightarrow> (\<forall>op \<in> set dx' \<union> set dy'. base_end op < block_lo C))"
    if "C \<in> set blocks" for C
    using wb that past by (fastforce simp: well_blocked_def)
  moreover have "well_blocked blocks" using wb by (simp add: well_blocked_def)
  ultimately show ?thesis using assms(2-4) by (simp add: synced_def)
qed

text \<open>What one emit adds, whatever was emitted before.\<close>

definition emit_step :: "merge_sides \<Rightarrow> emit \<Rightarrow> merge_piece list \<Rightarrow> bool \<Rightarrow> (merge_piece list \<times> bool) option" where
  "emit_step m em ps conflicted = (case em of
       EmitOp it \<Rightarrow> Option.bind (op_piece m it ps) (\<lambda>ps. Some (ps, conflicted))
     | EmitRegion lo hi \<Rightarrow> region_piece m lo hi ps conflicted)"

definition emits_hunk :: "merge_sides \<Rightarrow> emit \<Rightarrow> hunk \<Rightarrow> bool" where
  "emits_hunk m em h \<longleftrightarrow> (\<forall>ps conflicted. emit_step m em ps conflicted = Some (ps @ hunk_pieces h, conflicted \<or> hunk_conflict h))"

lemma side_text:
  assumes "i \<le> j" "j \<le> length (words alnum s)"
  shows "token_text s (tokenize alnum s) (i, j) = Some (text_between (words alnum s) i j)"
  using token_text_slice [OF assms] by (simp add: text_between_def)

lemma op_piece_ours:
  assumes "sides_ok alnum m" "item_side it = SideOurs" "repl_start (item_op it) = p" "repl_end (item_op it) = p'" "p \<le> p'"
    "p' \<le> length (wours alnum m)"
  shows "emits_hunk m (EmitOp it) (OursHunk b (text_between (wours alnum m) p p'))"
  using assms by (simp add: emits_hunk_def emit_step_def op_piece_def sides_ok_def side_text push_merged_piece)

lemma op_piece_both:
  assumes "sides_ok alnum m" "item_side it = SideBoth" "repl_start (item_op it) = p" "repl_end (item_op it) = p'" "p \<le> p'"
    "p' \<le> length (wours alnum m)"
  shows "emits_hunk m (EmitOp it) (BothHunk b (text_between (wours alnum m) p p'))"
  using assms by (simp add: emits_hunk_def emit_step_def op_piece_def sides_ok_def side_text push_merged_piece)

lemma op_piece_theirs:
  assumes "sides_ok alnum m" "item_side it = SideTheirs" "repl_start (item_op it) = q" "repl_end (item_op it) = q'" "q \<le> q'"
    "q' \<le> length (wtheirs alnum m)"
  shows "emits_hunk m (EmitOp it) (TheirsHunk b (text_between (wtheirs alnum m) q q'))"
  using assms by (simp add: emits_hunk_def emit_step_def op_piece_def sides_ok_def side_text push_merged_piece)

definition region_hunk :: "string \<Rightarrow> string \<Rightarrow> string \<Rightarrow> hunk" where
  "region_hunk b x y = (if x = y then BothHunk b x else ConflictHunk b x y)"

lemma region_piece_hunk:
  assumes "sides_ok alnum m" "side_span (ours_script m) lo hi = (p, p')" "side_span (theirs_script m) lo hi = (q, q')"
    and "lo \<le> hi" "hi \<le> length (wbase alnum m)" "p \<le> p'" "p' \<le> length (wours alnum m)" "q \<le> q'" "q' \<le> length (wtheirs alnum m)"
  shows "emits_hunk m (EmitRegion lo hi) (region_hunk (text_between (wbase alnum m) lo hi)
    (text_between (wours alnum m) p p') (text_between (wtheirs alnum m) q q'))"
  using assms by (auto simp: emits_hunk_def emit_step_def region_piece_def sides_ok_def side_text push_merged_piece region_hunk_def)

text \<open>A block of items is passed with one hunk, and both sides stay in step.\<close>

definition passes ::
  "(string \<Rightarrow> bool) \<Rightarrow> merge_sides \<Rightarrow> item list \<Rightarrow> item list list \<Rightarrow> nat \<Rightarrow> nat \<Rightarrow> hunk \<Rightarrow> bool" where
  "passes alnum m blk blocks p q h \<longleftrightarrow> (\<exists>dx rx dy ry p' q'.
     synced alnum m blocks dx rx dy ry (block_hi blk) p' q'
     \<and> hunks_between (wbase alnum m) (wours alnum m) (wtheirs alnum m) (block_lo blk, p, q) [h] (block_hi blk, p', q')
     \<and> emits_hunk m (block_emit blk) h)"

lemma single_block: "block_lo [it] = base_start (item_op it)" "block_hi [it] = base_end (item_op it)" "block_emit [it] = EmitOp it"
  by (simp_all add: block_lo_def block_hi_def block_emit_def)

lemma block_rest:
  assumes "synced alnum m (blk # blocks) dx rx dy ry (block_lo blk) p q"
  obtains xa xb ya yb where "rx = xa @ xb" "ry = ya @ yb" "items_for (same_of m) xa ya blk" "items_for (same_of m) xb yb (concat blocks)"
    "\<forall>op \<in> set xb \<union> set yb. block_hi blk \<le> base_start op"
    "side_at (wbase alnum m) (wours alnum m) (ours_script m) dx (xa @ xb) (block_lo blk) p"
    "side_at (wbase alnum m) (wtheirs alnum m) (theirs_script m) dy (ya @ yb) (block_lo blk) q"
proof -
  have "items_for (same_of m) rx ry (blk @ concat blocks)" using assms by (simp add: synced_def)
  then obtain xa xb ya yb where split: "rx = xa @ xb" "ry = ya @ yb" "items_for (same_of m) xa ya blk"
    "items_for (same_of m) xb yb (concat blocks)" by (rule items_for_append)
  have "\<forall>C \<in> set blocks. block_hi blk \<le> block_lo C" using assms by (simp add: synced_def well_blocked_def)
  from rest_starts [OF split(4) this] have "\<forall>op \<in> set xb \<union> set yb. block_hi blk \<le> base_start op" by blast
  with split assms show thesis by (intro that [of xa xb ya yb]) (simp_all add: synced_def)
qed

lemma pass_ours:
  assumes m: "sides_ok alnum m" and it: "item_side it = SideOurs"
    and sync: "synced alnum m ([it] # blocks) dx rx dy ry (block_lo [it]) p q"
  shows "\<exists>b s. passes alnum m [it] blocks p q (OursHunk b s)"
proof -
  let ?lo = "base_start (item_op it)" and ?hi = "base_end (item_op it)"
  obtain xa xb ya yb where r: "items_for (same_of m) xa ya [it]" "items_for (same_of m) xb yb (concat blocks)"
    "\<forall>op \<in> set xb \<union> set yb. block_hi [it] \<le> base_start op"
    "side_at (wbase alnum m) (wours alnum m) (ours_script m) dx (xa @ xb) (block_lo [it]) p"
    "side_at (wbase alnum m) (wtheirs alnum m) (theirs_script m) dy (ya @ yb) (block_lo [it]) q" by (rule block_rest [OF sync])
  have "xa = [item_op it]" "ya = []" using r(1) it by (simp_all add: items_for_def of_ours_def of_theirs_def)
  note x = side_take [OF r(4) [unfolded this(1) append_Cons append_Nil], unfolded single_block, OF refl]
  have le: "?lo \<le> ?hi" "?hi \<le> length (wbase alnum m)" using synced_block(2,3) [OF sync] by (simp_all add: single_block)
  obtain q' where q': "side_at (wbase alnum m) (wtheirs alnum m) (theirs_script m) dy yb ?hi q'" "common (wbase alnum m) (wtheirs alnum m) ?lo q ?hi q'"
    by (rule side_keep [OF r(5) [unfolded \<open>ya = []\<close> append_Nil single_block] le]) (use r(3) in \<open>simp add: single_block\<close>)
  let ?p' = "repl_end (item_op it)"
  have p: "p \<le> ?p'" using side_at_bounds(4) [OF r(4), of "item_op it"] x(1) \<open>xa = _\<close> by simp
  let ?h = "OursHunk (text_between (wbase alnum m) ?lo ?hi) (text_between (wours alnum m) p ?p')"
  have "synced alnum m blocks (dx @ [item_op it]) xb dy yb ?hi ?p' q'"
    using synced_next [OF sync r(2)] x(2) q'(1) by (simp add: single_block)
  moreover have "hunks_between (wbase alnum m) (wours alnum m) (wtheirs alnum m) (?lo, p, q) [?h] (?hi, ?p', q')"
    using le p common_text [OF q'(2)] q'(2) by (simp add: hunks_between_def common_def)
  moreover have "emits_hunk m (EmitOp it) ?h"
    by (rule op_piece_ours [OF m it x(1) refl p side_at_bounds(2) [OF x(2)]])
  ultimately show ?thesis unfolding passes_def single_block by blast
qed

lemma pass_theirs:
  assumes m: "sides_ok alnum m" and it: "item_side it = SideTheirs"
    and sync: "synced alnum m ([it] # blocks) dx rx dy ry (block_lo [it]) p q"
  shows "\<exists>b s. passes alnum m [it] blocks p q (TheirsHunk b s)"
proof -
  let ?lo = "base_start (item_op it)" and ?hi = "base_end (item_op it)"
  obtain xa xb ya yb where r: "items_for (same_of m) xa ya [it]" "items_for (same_of m) xb yb (concat blocks)"
    "\<forall>op \<in> set xb \<union> set yb. block_hi [it] \<le> base_start op"
    "side_at (wbase alnum m) (wours alnum m) (ours_script m) dx (xa @ xb) (block_lo [it]) p"
    "side_at (wbase alnum m) (wtheirs alnum m) (theirs_script m) dy (ya @ yb) (block_lo [it]) q" by (rule block_rest [OF sync])
  have "ya = [item_op it]" "xa = []"
    using r(1) it by (auto simp: items_for_def of_ours_def of_theirs_def list_all2_Cons1 stands_for_def)
  note y = side_take [OF r(5) [unfolded this(1) append_Cons append_Nil], unfolded single_block, OF refl]
  have le: "?lo \<le> ?hi" "?hi \<le> length (wbase alnum m)" using synced_block(2,3) [OF sync] by (simp_all add: single_block)
  obtain p' where p': "side_at (wbase alnum m) (wours alnum m) (ours_script m) dx xb ?hi p'" "common (wbase alnum m) (wours alnum m) ?lo p ?hi p'"
    by (rule side_keep [OF r(4) [unfolded \<open>xa = []\<close> append_Nil single_block] le]) (use r(3) in \<open>simp add: single_block\<close>)
  let ?q' = "repl_end (item_op it)"
  have q: "q \<le> ?q'" using side_at_bounds(4) [OF r(5), of "item_op it"] y(1) \<open>ya = _\<close> by simp
  let ?h = "TheirsHunk (text_between (wbase alnum m) ?lo ?hi) (text_between (wtheirs alnum m) q ?q')"
  have "synced alnum m blocks dx xb (dy @ [item_op it]) yb ?hi p' ?q'"
    using synced_next [OF sync r(2)] y(2) p'(1) by (simp add: single_block)
  moreover have "hunks_between (wbase alnum m) (wours alnum m) (wtheirs alnum m) (?lo, p, q) [?h] (?hi, p', ?q')"
    using le q common_text [OF p'(2)] p'(2) by (simp add: hunks_between_def common_def)
  moreover have "emits_hunk m (EmitOp it) ?h"
    by (rule op_piece_theirs [OF m it y(1) refl q side_at_bounds(2) [OF y(2)]])
  ultimately show ?thesis unfolding passes_def single_block by blast
qed

lemma pass_both:
  assumes m: "sides_ok alnum m" and it: "item_side it = SideBoth"
    and sync: "synced alnum m ([it] # blocks) dx rx dy ry (block_lo [it]) p q"
  shows "\<exists>b s. passes alnum m [it] blocks p q (BothHunk b s)"
proof -
  let ?lo = "base_start (item_op it)" and ?hi = "base_end (item_op it)"
  obtain xa xb ya yb where r: "items_for (same_of m) xa ya [it]" "items_for (same_of m) xb yb (concat blocks)"
    "\<forall>op \<in> set xb \<union> set yb. block_hi [it] \<le> base_start op"
    "side_at (wbase alnum m) (wours alnum m) (ours_script m) dx (xa @ xb) (block_lo [it]) p"
    "side_at (wbase alnum m) (wtheirs alnum m) (theirs_script m) dy (ya @ yb) (block_lo [it]) q" by (rule block_rest [OF sync])
  obtain t where t: "xa = [item_op it]" "ya = [t]" "same_span t (item_op it)" "same_of m t (item_op it) = Some True"
    using r(1) it by (auto simp: items_for_def of_ours_def of_theirs_def list_all2_Cons1 stands_for_def)
  have lo: "base_start t = block_lo [it]" "base_end t = ?hi" using t(3) by (simp_all add: same_span_def single_block)
  note x = side_take [OF r(4) [unfolded t(1) append_Cons append_Nil], unfolded single_block, OF refl]
  note y = side_take [OF r(5) [unfolded t(2) append_Cons append_Nil] lo(1), unfolded lo(2)]
  have le: "?lo \<le> ?hi" using synced_block(2) [OF sync] by (simp add: single_block)
  let ?p' = "repl_end (item_op it)" and ?q' = "repl_end t"
  have p: "p \<le> ?p'" "?p' \<le> length (wours alnum m)" using side_at_bounds(4) [OF r(4), of "item_op it"] x(1) t(1) by simp_all
  have q: "q \<le> ?q'" "?q' \<le> length (wtheirs alnum m)" using side_at_bounds(4) [OF r(5), of t] y(1) t(2) by simp_all
  have same: "text_between (wtheirs alnum m) q ?q' = text_between (wours alnum m) p ?p'"
    using t(4) m p q x(1) y(1) by (simp add: same_of_def same_text_def sides_ok_def side_text)
  let ?h = "BothHunk (text_between (wbase alnum m) ?lo ?hi) (text_between (wours alnum m) p ?p')"
  have "synced alnum m blocks (dx @ [item_op it]) xb (dy @ [t]) yb ?hi ?p' ?q'"
    using synced_next [OF sync r(2)] x(2) y(2) by (simp add: single_block)
  moreover have "hunks_between (wbase alnum m) (wours alnum m) (wtheirs alnum m) (?lo, p, q) [?h] (?hi, ?p', ?q')"
    using le p(1) q(1) same by (simp add: hunks_between_def)
  moreover have "emits_hunk m (EmitOp it) ?h"
    by (rule op_piece_both [OF m it x(1) refl p])
  ultimately show ?thesis unfolding passes_def single_block by blast
qed

lemma pass_region:
  assumes m: "sides_ok alnum m" and long: "2 \<le> length blk"
    and sync: "synced alnum m (blk # blocks) dx rx dy ry (block_lo blk) p q"
  shows "\<exists>b x y. passes alnum m blk blocks p q (region_hunk b x y)"
proof -
  obtain xa xb ya yb where r: "items_for (same_of m) xa ya blk" "items_for (same_of m) xb yb (concat blocks)"
    "\<forall>op \<in> set xb \<union> set yb. block_hi blk \<le> base_start op"
    "side_at (wbase alnum m) (wours alnum m) (ours_script m) dx (xa @ xb) (block_lo blk) p"
    "side_at (wbase alnum m) (wtheirs alnum m) (theirs_script m) dy (ya @ yb) (block_lo blk) q" by (rule block_rest [OF sync])
  have le: "block_lo blk \<le> block_hi blk" "block_hi blk \<le> length (wbase alnum m)" using synced_block(2,3) [OF sync] .
  have here: "\<forall>op \<in> set xa. base_end op \<le> block_hi blk" "\<forall>op \<in> set ya. base_end op \<le> block_hi blk"
    using items_for_ops [OF r(1)] block_bounds [of _ blk] by fastforce+
  have "\<forall>C \<in> set blocks. Suc (block_hi blk) \<le> block_lo C" using sync long by (simp add: synced_def well_blocked_def Suc_le_eq)
  from rest_starts [OF r(2) this] have rest: "\<forall>op \<in> set xb. block_hi blk < base_start op" "\<forall>op \<in> set yb. block_hi blk < base_start op"
    by (simp_all add: Suc_le_eq)
  have past: "\<forall>op \<in> set dx. base_end op < block_lo blk \<and> base_start op \<le> base_end op"
    "\<forall>op \<in> set dy. base_end op < block_lo blk \<and> base_start op \<le> base_end op"
    using sync long side_at_bounds(3) [OF r(4)] side_at_bounds(3) [OF r(5)] by (simp_all add: synced_def)
  obtain p' where p': "side_at (wbase alnum m) (wours alnum m) (ours_script m) (dx @ xa) xb (block_hi blk) p'"
    "edits_ok (wbase alnum m) (wours alnum m) (block_lo blk) p (map edit_span xa) (block_hi blk) p'"
    by (rule side_region [OF r(4) le here(1)]) (use r(3) in auto)
  obtain q' where q': "side_at (wbase alnum m) (wtheirs alnum m) (theirs_script m) (dy @ ya) yb (block_hi blk) q'"
    "edits_ok (wbase alnum m) (wtheirs alnum m) (block_lo blk) q (map edit_span ya) (block_hi blk) q'"
    by (rule side_region [OF r(5) le here(2)]) (use r(3) in auto)
  have small: "length (wours alnum m) < 2 ^ 64" "length (wtheirs alnum m) < 2 ^ 64" using m by (simp_all add: sides_ok_def)
  note spans = side_span_region [OF r(4) p'(2) past(1) here(1) rest(1) small(1)]
    side_span_region [OF r(5) q'(2) past(2) here(2) rest(2) small(2)]
  have p: "p \<le> p'" "p' \<le> length (wours alnum m)" using edits_ok_bounds [OF p'(2)] by simp_all
  have q: "q \<le> q'" "q' \<le> length (wtheirs alnum m)" using edits_ok_bounds [OF q'(2)] by simp_all
  let ?h = "region_hunk (text_between (wbase alnum m) (block_lo blk) (block_hi blk))
    (text_between (wours alnum m) p p') (text_between (wtheirs alnum m) q q')"
  have "hunks_between (wbase alnum m) (wours alnum m) (wtheirs alnum m) (block_lo blk, p, q) [?h] (block_hi blk, p', q')"
    using le p q by (simp add: hunks_between_def region_hunk_def)
  moreover have "emits_hunk m (block_emit blk) ?h"
    using region_piece_hunk [OF m spans le p q] long by (simp add: block_emit_def)
  ultimately show ?thesis using synced_next [OF sync r(2) p'(1) q'(1)] unfolding passes_def by blast
qed

text \<open>Which blocks give which hunks.\<close>

fun made_by :: "item list \<Rightarrow> hunk \<Rightarrow> bool" where
  "made_by blk (Kept s) \<longleftrightarrow> False"
| "made_by blk (OursHunk b s) \<longleftrightarrow> (\<exists>it. blk = [it] \<and> item_side it = SideOurs)"
| "made_by blk (TheirsHunk b s) \<longleftrightarrow> (\<exists>it. blk = [it] \<and> item_side it = SideTheirs)"
| "made_by blk (BothHunk b s) \<longleftrightarrow> 2 \<le> length blk \<or> (\<exists>it. blk = [it] \<and> item_side it = SideBoth)"
| "made_by blk (ConflictHunk b x y) \<longleftrightarrow> 2 \<le> length blk"

lemma block_pass:
  assumes "sides_ok alnum m" "synced alnum m (blk # blocks) dx rx dy ry (block_lo blk) p q"
  shows "\<exists>h. passes alnum m blk blocks p q h \<and> made_by blk h"
proof (cases "2 \<le> length blk")
  case True
  then show ?thesis using pass_region [OF assms(1) True assms(2)] by (auto simp: region_hunk_def split: if_splits)
next
  case False
  moreover have "blk \<noteq> []" using assms(2) by (auto simp: synced_def well_blocked_def)
  ultimately obtain it where blk: "blk = [it]" by (cases blk; cases "tl blk") auto
  show ?thesis
    using pass_ours [OF assms(1) _ assms(2) [unfolded blk]] pass_theirs [OF assms(1) _ assms(2) [unfolded blk]]
      pass_both [OF assms(1) _ assms(2) [unfolded blk]]
    by (cases "item_side it") (auto simp: blk)
qed

lemma block_emit_key: "blk \<noteq> [] \<Longrightarrow> emit_key (block_emit blk) = (block_lo blk, block_hi blk)"
  by (cases blk; cases "tl blk") (auto simp: block_emit_def item_key_def block_lo_def block_hi_def)

lemma emit_pieces_step:
  assumes "sides_ok alnum m" "blk \<noteq> []" "c \<le> block_lo blk" "block_lo blk \<le> block_hi blk" "block_hi blk \<le> length (wbase alnum m)"
    and "emits_hunk m (block_emit blk) h"
  shows "emit_pieces m (block_emit blk # ems) c ps conflicted = emit_pieces m ems (block_hi blk)
    (ps @ hunk_pieces (Kept (text_between (wbase alnum m) c (block_lo blk))) @ hunk_pieces h) (conflicted \<or> hunk_conflict h)"
proof -
  have "token_text (m_base m) (base_tokens m) (c, block_lo blk) = Some (text_between (wbase alnum m) c (block_lo blk))"
    using assms(1,3-5) by (simp add: sides_ok_def side_text)
  then show ?thesis
    using assms(3,4,6) by (simp add: block_emit_key [OF assms(2)] emits_hunk_def emit_step_def push_merged_piece Let_def)
qed

theorem emit_blocks:
  assumes m: "sides_ok alnum m"
  shows "synced alnum m blocks dx rx dy ry c p q \<Longrightarrow>
    \<exists>hs. emit_pieces m (map block_emit blocks) c ps conflicted
        = Some (ps @ concat (map hunk_pieces hs), conflicted \<or> list_ex hunk_conflict hs)
      \<and> hunks_between (wbase alnum m) (wours alnum m) (wtheirs alnum m) (c, p, q) hs
          (length (wbase alnum m), length (wours alnum m), length (wtheirs alnum m))
      \<and> (\<forall>h \<in> set hs. (\<exists>s. h = Kept s) \<or> (\<exists>blk \<in> set blocks. made_by blk h))"
proof (induction blocks arbitrary: dx rx dy ry c p q ps conflicted)
  case Nil
  have x: "side_at (wbase alnum m) (wours alnum m) (ours_script m) dx [] c p"
    and y: "side_at (wbase alnum m) (wtheirs alnum m) (theirs_script m) dy [] c q"
    using Nil by (auto simp: synced_def items_for_def)
  have cx: "common (wbase alnum m) (wours alnum m) c p (length (wbase alnum m)) (length (wours alnum m))"
    and cy: "common (wbase alnum m) (wtheirs alnum m) c q (length (wbase alnum m)) (length (wtheirs alnum m))"
    using x y by (simp_all add: side_at_def)
  let ?h = "Kept (text_between (wbase alnum m) c (length (wbase alnum m)))"
  have "emit_pieces m [] c ps conflicted = Some (ps @ hunk_pieces ?h, conflicted)"
    using m cx by (simp add: sides_ok_def side_text push_merged_piece common_def)
  moreover have "hunks_between (wbase alnum m) (wours alnum m) (wtheirs alnum m) (c, p, q) [?h]
      (length (wbase alnum m), length (wours alnum m), length (wtheirs alnum m))"
    using cx cy common_text [OF cx] common_text [OF cy] by (simp add: hunks_between_def common_def)
  ultimately show ?case by (intro exI [of _ "[?h]"]) simp
next
  case (Cons blk blocks)
  note le = synced_block [OF Cons.prems]
  have ne: "blk \<noteq> []" and lows: "\<forall>C \<in> set (blk # blocks). block_lo blk \<le> block_lo C"
    using Cons.prems le by (auto simp: synced_def well_blocked_def intro: order_trans)
  let ?k = "Kept (text_between (wbase alnum m) c (block_lo blk))"
  obtain p1 q1 where keep: "synced alnum m (blk # blocks) dx rx dy ry (block_lo blk) p1 q1"
    "hunks_between (wbase alnum m) (wours alnum m) (wtheirs alnum m) (c, p, q) [?k] (block_lo blk, p1, q1)"
    by (rule synced_keep [OF Cons.prems le(1) order_trans [OF le(2,3)] lows])
  obtain h dx' rx' dy' ry' p' q' where h: "synced alnum m blocks dx' rx' dy' ry' (block_hi blk) p' q'" "made_by blk h"
    "hunks_between (wbase alnum m) (wours alnum m) (wtheirs alnum m) (block_lo blk, p1, q1) [h] (block_hi blk, p', q')"
    "emits_hunk m (block_emit blk) h"
    using block_pass [OF m keep(1)] unfolding passes_def by blast
  let ?ps = "ps @ hunk_pieces ?k @ hunk_pieces h"
  obtain hs where hs: "emit_pieces m (map block_emit blocks) (block_hi blk) ?ps (conflicted \<or> hunk_conflict h)
      = Some (?ps @ concat (map hunk_pieces hs), (conflicted \<or> hunk_conflict h) \<or> list_ex hunk_conflict hs)"
    "hunks_between (wbase alnum m) (wours alnum m) (wtheirs alnum m) (block_hi blk, p', q') hs
      (length (wbase alnum m), length (wours alnum m), length (wtheirs alnum m))"
    "\<forall>h \<in> set hs. (\<exists>s. h = Kept s) \<or> (\<exists>blk \<in> set blocks. made_by blk h)"
    using Cons.IH [OF h(1)] by blast
  have "emit_pieces m (map block_emit (blk # blocks)) c ps conflicted
      = Some (ps @ concat (map hunk_pieces (?k # h # hs)), conflicted \<or> list_ex hunk_conflict (?k # h # hs))"
    using emit_pieces_step [OF m ne le h(4)] hs(1) by (simp add: disj_assoc)
  moreover note hunks_between_append [OF keep(2) hunks_between_append [OF h(3) hs(2)]]
  ultimately show ?case using hs(3) h(2) by (intro exI [of _ "?k # h # hs"]) auto
qed

end
