(* ===== verification/Text_Merge_Props.thy ===== *)
theory Text_Merge_Props
  imports Text_Pieces
begin

text \<open>
  Properties of the three-way text merge as a whole: it returns on every input within the size bound,
  its pieces cut the three inputs into corresponding hunks, and one-sided and identical changes merge
  clean to the changed text.
\<close>

section \<open>Sizes\<close>

lemma words_le: "length (words alnum s) \<le> length s"
  using block_count [OF words_nonempty, of alnum s] by simp

lemma small_words:
  assumes "within_size config b x y" "max_bytes config \<le> 2 ^ 31"
  shows "length (words alnum b) + length (words alnum x) \<le> 2 ^ 32" "length (words alnum b) + length (words alnum y) \<le> 2 ^ 32"
  using assms words_le [of alnum b] words_le [of alnum x] words_le [of alnum y] by (simp_all add: within_size_def)

lemma prefix_length: "length (foldl (\<lambda>acc t. acc @ [g acc t]) acc ts) = length acc + length ts"
  by (induction ts arbitrary: acc) simp_all

lemma gap_tables_cover:
  assumes "script_ok (words alnum b) ws script" "op \<in> set script"
  shows "base_end op < length (word_prefix (tokenize alnum b))" "base_end op < length (paragraph_prefix b (tokenize alnum b))"
  using script_ok_facts(2) [OF assms] by (simp_all add: word_prefix_def paragraph_prefix_def prefix_length)

section \<open>The merge in hunks\<close>

lemma same_text_total:
  assumes "script_ok (words alnum b) (words alnum x) xs" "script_ok (words alnum b) (words alnum y) ys"
  shows "\<forall>op \<in> set xs. \<forall>t \<in> set ys. same_text y (tokenize alnum y) x (tokenize alnum x) t op \<noteq> None"
  using script_ok_facts(2) [OF assms(1)] script_ok_facts(2) [OF assms(2)] by (simp add: same_text_def token_text_slice)

lemma text_between_all: "text_between (words alnum s) 0 (length (words alnum s)) = s"
  by (simp add: text_between_def)

text \<open>The sides of a merge with the given scripts.\<close>

definition sides_of :: "(string \<Rightarrow> bool) \<Rightarrow> string \<Rightarrow> string \<Rightarrow> string \<Rightarrow> edit_op list \<Rightarrow> edit_op list \<Rightarrow> merge_sides" where
  "sides_of alnum b x y xs ys = \<lparr>m_base = b, m_ours = x, m_theirs = y, base_tokens = tokenize alnum b,
     ours_tokens = tokenize alnum x, theirs_tokens = tokenize alnum y, ours_script = xs, theirs_script = ys\<rparr>"

lemma synced_start:
  assumes "script_ok (words alnum b) (words alnum x) xs" "script_ok (words alnum b) (words alnum y) ys"
    and "items_for (same_text y (tokenize alnum y) x (tokenize alnum x)) xs ys (concat blocks)" "well_blocked blocks"
  shows "synced alnum (sides_of alnum b x y xs ys) blocks [] xs [] ys 0 0 0"
  using assms side_at_start by (simp add: synced_def sides_of_def same_of_def)

lemma hunks_conflict: "list_ex is_conflict (concat (map hunk_pieces hs)) = list_ex hunk_conflict hs"
proof (induction hs)
  case (Cons h hs)
  have "list_ex is_conflict (hunk_pieces h) = hunk_conflict h" by (cases h) (simp_all add: merged_piece_def)
  with Cons show ?case by simp
qed simp

lemma not_opposite_quiet: "\<not> opposite p q \<Longrightarrow> \<not> conflicting config wp pp p q"
  by (auto simp: opposite_def conflicting_def)

lemma quiet_blocks:
  assumes "regions conflict items r gs" "\<And>i j. i < length items \<Longrightarrow> j < length items \<Longrightarrow> \<not> conflict (items ! i) (items ! j)"
    and "blk \<in> set (map (group_block items r) gs)"
  shows "length blk = 1"
proof -
  have r: "\<forall>i. r i = i" and gs: "set gs = r ` {..<length items}" using assms(1,2) by (auto simp: regions_def)
  obtain g where g: "g < length items" "blk = group_block items r g" using assms(3) r gs by auto
  have "members r (length items) g = [g]"
    using g(1) r by (intro sorted_distinct_set_unique) (auto simp: members_def intro: sorted_wrt_filter)
  then show ?thesis by (simp add: g(2) group_block_def)
qed

theorem text_merge_hunks:
  assumes size: "within_size config b x y" "max_bytes config \<le> 2 ^ 31"
    and orders: "\<And>s. mset (span_order s) = mset s" "\<And>g. mset (group_order g) = mset g"
    and xs: "build_script b (tokenize alnum b) x (tokenize alnum x) config = Some xs"
    and ys: "build_script b (tokenize alnum b) y (tokenize alnum y) config = Some ys"
    and items: "merge_items (same_text y (tokenize alnum y) x (tokenize alnum x)) xs ys = Some items"
  shows "\<exists>hs blocks. text_merge alnum span_order group_order b x y config = Some (from_pieces (concat (map hunk_pieces hs)))
    \<and> concat (map hunk_base hs) = b \<and> concat (map hunk_ours hs) = x \<and> concat (map hunk_theirs hs) = y \<and> list_all hunk_ok hs
    \<and> (\<forall>h \<in> set hs. (\<exists>s. h = Kept s) \<or> (\<exists>blk \<in> set blocks. made_by blk h)) \<and> concat blocks = items
    \<and> ((\<forall>p \<in> set items. \<forall>q \<in> set items. \<not> opposite p q) \<longrightarrow> (\<forall>blk \<in> set blocks. length blk = 1))"
proof -
  note small = small_words [OF size, of alnum]
  have okx: "script_ok (words alnum b) (words alnum x) xs" and oky: "script_ok (words alnum b) (words alnum y) ys"
    using build_script_ok [OF small(1), of config] build_script_ok [OF small(2), of config] xs ys by simp_all
  obtain items' where "merge_items (same_text y (tokenize alnum y) x (tokenize alnum x)) xs ys = Some items'"
    "items_for (same_text y (tokenize alnum y) x (tokenize alnum x)) xs ys items'" "ordered_items items'" "compatible_items items'"
    by (rule merge_items_ok [OF script_ok_tidy [OF okx] script_ok_tidy [OF oky] same_text_total [OF okx oky]])
  with items have its: "items_for (same_text y (tokenize alnum y) x (tokenize alnum x)) xs ys items"
    and ordered: "ordered_items items" and compatible: "compatible_items items" by simp_all
  let ?wp = "word_prefix (tokenize alnum b)" and ?pp = "paragraph_prefix b (tokenize alnum b)"
  obtain r gs where regions: "regions (conflicting config ?wp ?pp) items r gs"
    and emits: "merge_emits span_order group_order (conflicting config ?wp ?pp) items
      = Some (map (\<lambda>g. emit_of items (members r (length items) g)) gs)"
    using merge_emits_regions [OF ordered orders] by blast
  let ?blocks = "map (group_block items r) gs" and ?m = "sides_of alnum b x y xs ys"
  note blocks = regions_blocks [OF regions ordered compatible]
  have m: "sides_ok alnum ?m" using small by (simp add: sides_ok_def sides_of_def)
  have "synced alnum ?m ?blocks [] xs [] ys 0 0 0" by (rule synced_start [OF okx oky]) (simp_all add: blocks(1,2) its)
  from emit_blocks [OF m this, of "[]" False] obtain hs where
    hs: "emit_pieces ?m (map block_emit ?blocks) 0 [] False = Some (concat (map hunk_pieces hs), list_ex hunk_conflict hs)"
    "hunks_between (words alnum b) (words alnum x) (words alnum y) (0, 0, 0) hs
      (length (words alnum b), length (words alnum x), length (words alnum y))"
    "\<forall>h \<in> set hs. (\<exists>s. h = Kept s) \<or> (\<exists>blk \<in> set ?blocks. made_by blk h)" by (auto simp: sides_of_def)
  have "text_merge alnum span_order group_order b x y config = Some (from_pieces (concat (map hunk_pieces hs)))"
    using xs ys items emits hs(1) unfolding blocks(3)
    by (simp add: text_merge_def Let_def from_pieces_def hunks_conflict sides_of_def)
  moreover have "length blk = 1" if "\<forall>p \<in> set items. \<forall>q \<in> set items. \<not> opposite p q" "blk \<in> set ?blocks" for blk
    using quiet_blocks [OF regions] that by (auto simp: not_opposite_quiet)
  moreover have "concat (map hunk_base hs) = b" "concat (map hunk_ours hs) = x" "concat (map hunk_theirs hs) = y" "list_all hunk_ok hs"
    using hs(2) by (simp_all add: hunks_between_def text_between_all)
  ultimately show ?thesis using hs(3) blocks(1) by blast
qed

lemma scripts_exist:
  assumes "within_size config b x y" "max_bytes config \<le> 2 ^ 31"
  obtains xs ys items where "build_script b (tokenize alnum b) x (tokenize alnum x) config = Some xs"
    "build_script b (tokenize alnum b) y (tokenize alnum y) config = Some ys" "tidy xs" "tidy ys"
    "merge_items (same_text y (tokenize alnum y) x (tokenize alnum x)) xs ys = Some items"
    "items_for (same_text y (tokenize alnum y) x (tokenize alnum x)) xs ys items"
    "\<forall>op \<in> set xs. repl_start op \<le> repl_end op \<and> repl_end op \<le> length (words alnum x)"
proof -
  note small = small_words [OF assms, of alnum]
  obtain xs where xs: "build_script b (tokenize alnum b) x (tokenize alnum x) config = Some xs"
    "script_ok (words alnum b) (words alnum x) xs" using build_script_ok [OF small(1), of config] by blast
  obtain ys where ys: "build_script b (tokenize alnum b) y (tokenize alnum y) config = Some ys"
    "script_ok (words alnum b) (words alnum y) ys" using build_script_ok [OF small(2), of config] by blast
  show thesis
    by (rule merge_items_ok [OF script_ok_tidy [OF xs(2)] script_ok_tidy [OF ys(2)] same_text_total [OF xs(2) ys(2)]])
      (rule that [OF xs(1) ys(1) script_ok_tidy [OF xs(2)] script_ok_tidy [OF ys(2)]],
        use script_ok_facts(2) [OF xs(2)] in auto)
qed

section \<open>Unchanged and identical sides\<close>

lemma trim_front_same: "i \<le> n \<Longrightarrow> trim_front a a i n i n = (n, n)"
proof (induction "n - i" arbitrary: i)
  case (Suc k)
  then show ?case by (subst trim_front.simps) simp
qed (subst trim_front.simps, simp)

lemma patience_diff_same: "patience_diff a a = []"
proof -
  have "trim_back a a n n n n = (n, n)" for n by (subst trim_back.simps) simp
  then have "diff_range a a (0, length a, 0, length a) = ([], [])"
    by (simp add: diff_range_def trim_front_same)
  then show ?thesis by (simp add: patience_diff_ref patience_ref.simps)
qed

lemma build_script_same:
  assumes "length (words alnum b) + length (words alnum b) \<le> 2 ^ 32"
  shows "build_script b (tokenize alnum b) b (tokenize alnum b) config = Some []"
proof -
  let ?B = "map concat (seg_blocks (words alnum b) (segment_ranges b (tokenize alnum b) config))"
  have "length ?B + length ?B \<le> 2 ^ 32" using segment_blocks(4) [of alnum b config] assms by simp
  then obtain g where "intern_pair ?B ?B = (map g ?B, map g ?B)" by (rule intern_pair_ids)
  then show ?thesis
    by (simp add: build_script_def segment_texts Let_def patience_diff_same coalesce_def)
qed

text \<open>The hunk kind of a side, its provenance, and the text it stands for.\<close>

fun side_provenance :: "item_side \<Rightarrow> provenance" where
  "side_provenance SideOurs = Ours"
| "side_provenance SideTheirs = Theirs"
| "side_provenance SideBoth = Both"

fun hunk_of_side :: "item_side \<Rightarrow> hunk \<Rightarrow> bool" where
  "hunk_of_side v (Kept s) \<longleftrightarrow> True"
| "hunk_of_side v (OursHunk b s) \<longleftrightarrow> v = SideOurs"
| "hunk_of_side v (TheirsHunk b s) \<longleftrightarrow> v = SideTheirs"
| "hunk_of_side v (BothHunk b s) \<longleftrightarrow> v = SideBoth"
| "hunk_of_side v (ConflictHunk b x y) \<longleftrightarrow> False"

lemma clean_side:
  assumes "list_all (hunk_of_side v) hs"
  shows "from_pieces (concat (map hunk_pieces hs)) = Clean (concat (map hunk_pieces hs))
      (if v = SideTheirs then concat (map hunk_theirs hs) else concat (map hunk_ours hs))"
    and "list_all (\<lambda>p. \<not> is_conflict p \<and> piece_provenance p \<in> {Base, side_provenance v}) (concat (map hunk_pieces hs))"
proof -
  have one: "\<not> hunk_conflict h \<and> concat (map piece_text (hunk_pieces h)) = (if v = SideTheirs then hunk_theirs h else hunk_ours h)
      \<and> list_all (\<lambda>p. \<not> is_conflict p \<and> piece_provenance p \<in> {Base, side_provenance v}) (hunk_pieces h)"
    if "hunk_of_side v h" for h
    using that by (cases h; cases v) (simp_all add: merged_piece_def)
  have "\<not> list_ex hunk_conflict hs
      \<and> concat (map piece_text (concat (map hunk_pieces hs))) = (if v = SideTheirs then concat (map hunk_theirs hs) else concat (map hunk_ours hs))
      \<and> list_all (\<lambda>p. \<not> is_conflict p \<and> piece_provenance p \<in> {Base, side_provenance v}) (concat (map hunk_pieces hs))"
    using assms one by (induction hs) auto
  then show "from_pieces (concat (map hunk_pieces hs)) = Clean (concat (map hunk_pieces hs))
      (if v = SideTheirs then concat (map hunk_theirs hs) else concat (map hunk_ours hs))"
    "list_all (\<lambda>p. \<not> is_conflict p \<and> piece_provenance p \<in> {Base, side_provenance v}) (concat (map hunk_pieces hs))"
    by (simp_all add: from_pieces_def hunks_conflict)
qed

text \<open>When every item is on one side, every hunk is kept or of that side, and the merge is that side's text.\<close>

lemma one_side_hunks:
  assumes "\<forall>it \<in> set (concat blocks). item_side it = v" "\<forall>blk \<in> set blocks. length blk = 1" "blk \<in> set blocks" "made_by blk h"
  shows "hunk_of_side v h"
proof -
  obtain it where it: "blk = [it]" using assms(2,3) by (auto simp: length_Suc_conv)
  then have "it \<in> set (concat blocks)" using assms(3) by force
  then have "item_side it = v" using assms(1) by blast
  then show ?thesis using assms(4) it by (cases h) simp_all
qed

lemma one_side_merge:
  assumes "within_size config b x y" "max_bytes config \<le> 2 ^ 31"
    and "\<And>s. mset (span_order s) = mset s" "\<And>g. mset (group_order g) = mset g"
    and "build_script b (tokenize alnum b) x (tokenize alnum x) config = Some xs"
    and "build_script b (tokenize alnum b) y (tokenize alnum y) config = Some ys"
    and "merge_items (same_text y (tokenize alnum y) x (tokenize alnum x)) xs ys = Some items"
    and side: "\<forall>it \<in> set items. item_side it = v"
  shows "\<exists>ps. text_merge alnum span_order group_order b x y config = Some (Clean ps (if v = SideTheirs then y else x))
    \<and> list_all (\<lambda>p. \<not> is_conflict p \<and> piece_provenance p \<in> {Base, side_provenance v}) ps"
proof -
  obtain hs blocks where
    hs: "text_merge alnum span_order group_order b x y config = Some (from_pieces (concat (map hunk_pieces hs)))"
      "concat (map hunk_ours hs) = x" "concat (map hunk_theirs hs) = y"
      "\<forall>h \<in> set hs. (\<exists>s. h = Kept s) \<or> (\<exists>blk \<in> set blocks. made_by blk h)" "concat blocks = items"
      "(\<forall>p \<in> set items. \<forall>q \<in> set items. \<not> opposite p q) \<longrightarrow> (\<forall>blk \<in> set blocks. length blk = 1)"
    using text_merge_hunks [OF assms(1-7)] by blast
  have "\<forall>blk \<in> set blocks. length blk = 1" using hs(6) side by (simp add: opposite_def)
  then have "hunk_of_side v h" if "h \<in> set hs" for h
    using hs(4) that one_side_hunks [of blocks v] side hs(5) by fastforce
  then have "list_all (hunk_of_side v) hs" by (simp add: list_all_iff)
  from clean_side [OF this] hs(1-3) show ?thesis by simp
qed

lemma paired_same:
  assumes paired: "paired same xs xs its used" and tidy: "tidy xs" and refl: "\<forall>op \<in> set xs. same op op = Some True"
  shows "\<forall>it \<in> set its. item_side it = SideBoth" and "unused used xs = []"
proof -
  have ops: "map item_op its = xs" and len: "length used = length xs" "length its = length xs"
    using paired by (auto simp: paired_def dest: map_eq_imp_length_eq)
  have conv: "convergent same (xs ! i) (xs ! i)" if "i < length xs" for i
    using that refl by (simp add: convergent_def same_span_def)
  have inj: "i = j" if "i < length xs" "j < length xs" "convergent same (xs ! i) (xs ! j)" for i j
    using key_inj [OF tidy_keys(3) [OF tidy] that(1,2)] that(3) by (simp add: convergent_def same_span_key)
  have nth: "item_op (its ! i) = xs ! i" if "i < length xs" for i
    using that len(2) ops nth_map [of i its item_op] by simp
  have both: "item_side (its ! i) = SideBoth \<and> used ! i" if i: "i < length xs" for i
  proof -
    have mem: "its ! i \<in> set its" using i len(2) by simp
    have "used ! i" if "item_side (its ! i) = SideOurs"
    proof -
      have "\<forall>k. k < length xs \<longrightarrow> convergent same (xs ! k) (item_op (its ! i)) \<longrightarrow> used ! k"
        using paired mem that unfolding paired_def by fastforce
      then show ?thesis using i conv [OF i] nth [OF i] by simp
    qed
    moreover have "item_side (its ! i) = SideBoth" if u: "used ! i"
    proof -
      obtain it where "it \<in> set its" "item_side it = SideBoth" "convergent same (xs ! i) (item_op it)"
        using paired i u unfolding paired_def by blast
      then obtain j where "j < length xs" "it = its ! j" using len(2) by (auto simp: in_set_conv_nth)
      then show ?thesis using inj [OF i, of j] nth \<open>convergent same (xs ! i) (item_op it)\<close> \<open>item_side it = SideBoth\<close> by simp
    qed
    moreover have "used ! i" if both: "item_side (its ! i) = SideBoth"
    proof -
      have "item_side (its ! i) \<noteq> SideOurs" using both by simp
      then obtain j where "j < length xs" "used ! j" "convergent same (xs ! j) (item_op (its ! i))"
        using paired mem unfolding paired_def by blast
      then show ?thesis using inj [of j i] i nth [OF i] by simp
    qed
    ultimately show ?thesis using paired mem unfolding paired_def by blast
  qed
  then show "\<forall>it \<in> set its. item_side it = SideBoth" using len(2) by (auto simp: in_set_conv_nth)
  have "it \<notin> set (unused used xs)" for it using unused_ops(1) [OF len(1), of it] both by blast
  then show "unused used xs = []" using hd_in_set by blast
qed

lemma merge_items_same:
  assumes "tidy xs" "\<forall>op \<in> set xs. same op op = Some True" "\<forall>op \<in> set xs. \<forall>t \<in> set xs. same t op \<noteq> None"
    and "merge_items same xs xs = Some items"
  shows "\<forall>it \<in> set items. item_side it = SideBoth"
proof -
  obtain its used where pair: "pair_ops same xs xs (replicate (length xs) False) = Some (its, used)" "paired same xs xs its used"
    by (rule pair_ops_paired [OF assms(3)])
  note same = paired_same [OF pair(2) assms(1,2)]
  have "items = sort_key item_key (its @ unused used xs)" using assms(4) pair(1) by (simp add: merge_items_def unused_def)
  then show ?thesis using same by simp
qed

section \<open>Properties\<close>

text \<open>
  C15. The three-way merge returns on every three texts within the size limit of at most two gibibytes,
  for every iteration order of its hash maps: no index leaves its range and the absorption loop ends. Its
  pieces come from hunks that cut the base, our text and their text into corresponding stretches whose
  concatenations are exactly the three inputs. A kept stretch is the same in all three; a change of one
  side is emitted only where the other side kept the base; a change of both is emitted once, where both
  made the same text; everything else is a conflict carrying the three texts, with two different sides.
  The outcome is clean exactly when no conflict is emitted, and then the merged text is the
  concatenation of the pieces.\<close>

theorem text_merge_cuts_all_three_inputs:
  assumes "within_size config b x y" "max_bytes config \<le> 2 ^ 31"
    and "\<And>s. mset (span_order s) = mset s" "\<And>g. mset (group_order g) = mset g"
  shows "\<exists>hs. text_merge alnum span_order group_order b x y config = Some (from_pieces (concat (map hunk_pieces hs)))
    \<and> concat (map hunk_base hs) = b \<and> concat (map hunk_ours hs) = x \<and> concat (map hunk_theirs hs) = y
    \<and> list_all hunk_ok hs"
proof -
  obtain xs ys items where "build_script b (tokenize alnum b) x (tokenize alnum x) config = Some xs"
    "build_script b (tokenize alnum b) y (tokenize alnum y) config = Some ys"
    "merge_items (same_text y (tokenize alnum y) x (tokenize alnum x)) xs ys = Some items"
    by (rule scripts_exist [OF assms(1,2)])
  from text_merge_hunks [OF assms this] show ?thesis by blast
qed

theorem text_merge_cuts_all_three_inputs_witness:
  "\<exists>hs. text_merge (\<lambda>_. False) id id ''a b'' ''c b'' ''a d'' default_config = Some (from_pieces (concat (map hunk_pieces hs)))
    \<and> concat (map hunk_base hs) = ''a b'' \<and> concat (map hunk_ours hs) = ''c b'' \<and> concat (map hunk_theirs hs) = ''a d''
    \<and> list_all hunk_ok hs"
  by (rule text_merge_cuts_all_three_inputs) (simp_all add: within_size_def default_config_def)

text \<open>
  C16. A change made by one side only merges clean to that side's text, whichever side made it, and every
  piece is attributed to the base or to that side.\<close>

theorem one_sided_change_merges_clean:
  assumes "within_size config b x x" "max_bytes config \<le> 2 ^ 31"
    and "\<And>s. mset (span_order s) = mset s" "\<And>g. mset (group_order g) = mset g"
  shows "(\<exists>ps. text_merge alnum span_order group_order b x b config = Some (Clean ps x)
      \<and> list_all (\<lambda>p. \<not> is_conflict p \<and> piece_provenance p \<in> {Base, Ours}) ps)
    \<and> (\<exists>ps. text_merge alnum span_order group_order b b x config = Some (Clean ps x)
      \<and> list_all (\<lambda>p. \<not> is_conflict p \<and> piece_provenance p \<in> {Base, Theirs}) ps)"
proof
  have size: "within_size config b x b" "within_size config b b x" using assms(1) by (simp_all add: within_size_def)
  have same: "build_script b (tokenize alnum b) b (tokenize alnum b) config = Some []"
    by (rule build_script_same) (rule small_words(1) [OF size(2) assms(2)])
  obtain xs items where r: "build_script b (tokenize alnum b) x (tokenize alnum x) config = Some xs"
    "merge_items (same_text b (tokenize alnum b) x (tokenize alnum x)) xs [] = Some items"
    "items_for (same_text b (tokenize alnum b) x (tokenize alnum x)) xs [] items"
    by (rule scripts_exist [OF size(1) assms(2), of alnum]) (simp add: same)
  then have "\<forall>it \<in> set items. item_side it = SideOurs" by (auto simp: items_for_def of_theirs_def filter_empty_conv)
  from one_side_merge [OF size(1) assms(2-4) r(1) same r(2) this]
  show "\<exists>ps. text_merge alnum span_order group_order b x b config = Some (Clean ps x)
      \<and> list_all (\<lambda>p. \<not> is_conflict p \<and> piece_provenance p \<in> {Base, Ours}) ps" by simp
  obtain ys items where r: "build_script b (tokenize alnum b) x (tokenize alnum x) config = Some ys"
    "merge_items (same_text x (tokenize alnum x) b (tokenize alnum b)) [] ys = Some items"
    "items_for (same_text x (tokenize alnum x) b (tokenize alnum b)) [] ys items"
    by (rule scripts_exist [OF size(2) assms(2), of alnum]) (simp add: same)
  then have "\<forall>it \<in> set items. item_side it = SideTheirs" by (auto simp: items_for_def of_ours_def filter_empty_conv)
  from one_side_merge [OF size(2) assms(2-4) same r(1,2) this]
  show "\<exists>ps. text_merge alnum span_order group_order b b x config = Some (Clean ps x)
      \<and> list_all (\<lambda>p. \<not> is_conflict p \<and> piece_provenance p \<in> {Base, Theirs}) ps" by simp
qed

theorem one_sided_change_merges_clean_witness:
  "(\<exists>ps. text_merge (\<lambda>_. False) id rev ''a b'' ''c b'' ''a b'' default_config = Some (Clean ps ''c b''))
    \<and> (\<exists>ps. text_merge (\<lambda>_. False) id rev ''a b'' ''a b'' ''c b'' default_config = Some (Clean ps ''c b''))"
  using one_sided_change_merges_clean [of default_config "''a b''" "''c b''" id rev "\<lambda>_. False"]
  by (auto simp: within_size_def default_config_def)

text \<open>
  C17. When both sides made the same text of the base, the merge is clean, is that text, and every piece
  is attributed to the base or to both sides: the common change is taken once.\<close>

theorem identical_changes_merge_clean:
  assumes "within_size config b x x" "max_bytes config \<le> 2 ^ 31"
    and "\<And>s. mset (span_order s) = mset s" "\<And>g. mset (group_order g) = mset g"
  shows "\<exists>ps. text_merge alnum span_order group_order b x x config = Some (Clean ps x)
    \<and> list_all (\<lambda>p. \<not> is_conflict p \<and> piece_provenance p \<in> {Base, Both}) ps"
proof -
  let ?same = "same_text x (tokenize alnum x) x (tokenize alnum x)"
  obtain xs ys items where r: "build_script b (tokenize alnum b) x (tokenize alnum x) config = Some xs"
    "build_script b (tokenize alnum b) x (tokenize alnum x) config = Some ys" "tidy xs" "merge_items ?same xs ys = Some items"
    "\<forall>op \<in> set xs. repl_start op \<le> repl_end op \<and> repl_end op \<le> length (words alnum x)"
    by (rule scripts_exist [OF assms(1,2), of alnum])
  have "xs = ys" using r(1,2) by simp
  moreover have "\<forall>op \<in> set xs. ?same op op = Some True" "\<forall>op \<in> set xs. \<forall>t \<in> set xs. ?same t op \<noteq> None"
    using r(5) by (simp_all add: same_text_def token_text_slice)
  ultimately have "\<forall>it \<in> set items. item_side it = SideBoth" using merge_items_same [OF r(3)] r(4) by blast
  from one_side_merge [OF assms r(1,2,4) this] show ?thesis by simp
qed

theorem identical_changes_merge_clean_witness:
  "\<exists>ps. text_merge (\<lambda>_. False) id id ''a b'' ''c b'' ''c b'' default_config = Some (Clean ps ''c b'')"
  using identical_changes_merge_clean [of default_config "''a b''" "''c b''" id id "\<lambda>_. False"]
  by (auto simp: within_size_def default_config_def)

end
