(* ===== verification/Egress_Scope.thy ===== *)
theory Egress_Scope
  imports Glob
begin

text \<open>
  Where a credential may reach and what it may sign (\<^verbatim>\<open>custody/src/egress.rs\<close> and
  \<^verbatim>\<open>custody/src/sign_prefix.rs\<close>): request targets, the entries of an egress allow-list and how they
  are parsed and matched component by component, and the declared prefixes of a signing grant.

  \<^verbatim>\<open>url::Url::parse\<close> belongs to another crate: it is a parameter from texts to parsed urls. Bytes
  are characters, as everywhere in this development.
\<close>

section \<open>Text\<close>

definition ascii_upper :: "char \<Rightarrow> bool" where
  "ascii_upper c = (let n = of_char c :: nat in 65 \<le> n \<and> n \<le> 90)"

definition ascii_lower :: "char \<Rightarrow> bool" where
  "ascii_lower c = (let n = of_char c :: nat in 97 \<le> n \<and> n \<le> 122)"

definition lower_char :: "char \<Rightarrow> char" where
  "lower_char c = (if ascii_upper c then char_of ((of_char c :: nat) + 32) else c)"

definition upper_char :: "char \<Rightarrow> char" where
  "upper_char c = (if ascii_lower c then char_of ((of_char c :: nat) - 32) else c)"

definition to_ascii_lowercase :: "string \<Rightarrow> string" where
  "to_ascii_lowercase = map lower_char"

definition to_ascii_uppercase :: "string \<Rightarrow> string" where
  "to_ascii_uppercase = map upper_char"

text \<open>\<^verbatim>\<open>split_once\<close> at the first whitespace character and at the first occurrence of a text, and \<^verbatim>\<open>split\<close>.\<close>

fun split_once_ws :: "string \<Rightarrow> (string \<times> string) option" where
  "split_once_ws [] = None"
| "split_once_ws (c # s) =
     (case strip_unit ws_units (c # s) of
        Some r \<Rightarrow> Some ([], r)
      | None \<Rightarrow> map_option (\<lambda>(a, b). (c # a, b)) (split_once_ws s))"

fun split_once_str :: "string \<Rightarrow> string \<Rightarrow> (string \<times> string) option" where
  "split_once_str sep [] = (if sep = [] then Some ([], []) else None)"
| "split_once_str sep (c # s) =
     (case strip_prefix (c # s) sep of
        Some r \<Rightarrow> Some ([], r)
      | None \<Rightarrow> map_option (\<lambda>(a, b). (c # a, b)) (split_once_str sep s))"

fun split_char :: "char \<Rightarrow> string \<Rightarrow> string list" where
  "split_char d [] = [[]]"
| "split_char d (c # s) =
     (if c = d then [] # split_char d s
      else (case split_char d s of [] \<Rightarrow> [[c]] | w # ws \<Rightarrow> (c # w) # ws))"

definition listed :: "string \<Rightarrow> string list" where
  "listed raw = filter (\<lambda>e. e \<noteq> []) (map trim (split_char (CHR '','') raw))"

section \<open>Targets and entries\<close>

record parsed_url =
  url_scheme :: string
  url_host :: "string option"
  url_port :: "nat option"
  url_path :: string

record egress_target =
  t_method :: string
  t_scheme :: string
  t_host :: string
  t_path :: string

definition target_parse :: "(string \<Rightarrow> (parsed_url, string) result) \<Rightarrow> string \<Rightarrow> string \<Rightarrow> (egress_target, message) result" where
  "target_parse url_parse verb url =
     (case url_parse url of
        Inl error \<Rightarrow> Err (Format ''unparsable url: {error}'' [error])
      | Inr parsed \<Rightarrow>
          let scheme = to_ascii_lowercase (url_scheme parsed)
          in if scheme \<noteq> ''http'' \<and> scheme \<noteq> ''https'' then
               Err (Format ''egress scheme must be http or https, not `{scheme}`'' [scheme])
             else (case url_host parsed of
                     None \<Rightarrow> Err (Format ''url names no host'' [])
                   | Some host \<Rightarrow>
                       let host = to_ascii_lowercase host;
                           host = (case url_port parsed of Some port \<Rightarrow> host @ '':'' @ show_nat port | None \<Rightarrow> host);
                           path = url_path parsed
                       in Ok \<lparr>t_method = to_ascii_uppercase (trim verb), t_scheme = scheme, t_host = host,
                              t_path = (if path = [] then ''/'' else path)\<rparr>))"

definition target_render :: "egress_target \<Rightarrow> string" where
  "target_render t = t_method t @ '' '' @ t_scheme t @ ''://'' @ t_host t @ t_path t"

record scope_entry =
  e_method :: "string option"
  e_scheme :: string
  e_host :: string
  e_path :: string

definition entry_method :: "string \<Rightarrow> string option \<times> string" where
  "entry_method raw =
     (case split_once_ws raw of
        Some (head, tail) \<Rightarrow>
          if head \<noteq> [] \<and> list_all ascii_upper head \<and> trim tail \<noteq> [] then (Some head, trim tail) else (None, raw)
      | None \<Rightarrow> (None, raw))"

definition entry_parse :: "string \<Rightarrow> (scope_entry, message) result" where
  "entry_parse input =
     (let raw = trim input
      in if raw = [] then Err (Format ''empty scope entry'' [])
         else
           let (verb, rest) = entry_method raw
           in (case split_once_str ''://'' rest of
                 None \<Rightarrow> Err (Format ''scope entry `{rest}` names no scheme: write `https://<host>/<path>`, so that a plaintext endpoint cannot be admitted by a pattern written for a TLS one'' [rest])
               | Some (scheme, authority_and_path) \<Rightarrow>
                   let scheme = to_ascii_lowercase scheme
                   in if scheme \<noteq> ''http'' \<and> scheme \<noteq> ''https'' then
                        Err (Format ''scope scheme must be http or https, not `{scheme}`'' [scheme])
                      else if starts_with authority_and_path ''*'' \<and> \<not> starts_with authority_and_path ''*.'' then
                        Err (Format ''a scope host may begin with `*` only as a whole label (`*.stripe.com`): `*stripe.com` reads as narrowed to that host while admitting `evil-stripe.com`, and a bare `*` host is not a narrowing at all'' [])
                      else (case split_once (CHR ''/'') authority_and_path of
                              None \<Rightarrow> Err (Format ''scope entry `{raw}` names a host but no path: write `/...` for one path, or `/*` for the whole host, so that the whole-host case is something the author says rather than something a default decides'' [raw])
                            | Some (host, path) \<Rightarrow>
                                if host = [] then Err (Format ''scope entry names an empty host'' [])
                                else Ok \<lparr>e_method = verb, e_scheme = scheme, e_host = to_ascii_lowercase host,
                                         e_path = ''/'' @ path\<rparr>)))"

definition entry_admits :: "scope_entry \<Rightarrow> egress_target \<Rightarrow> bool" where
  "entry_admits e t \<longleftrightarrow>
     (case e_method e of None \<Rightarrow> True | Some verb \<Rightarrow> verb = t_method t)
     \<and> e_scheme e = t_scheme t \<and> glob_matches (e_host e) (t_host t) \<and> glob_matches (e_path e) (t_path t)"

definition egress_admits :: "scope_entry list \<Rightarrow> egress_target \<Rightarrow> bool" where
  "egress_admits entries t \<longleftrightarrow> list_ex (\<lambda>e. entry_admits e t) entries"

text \<open>\<^verbatim>\<open>collect\<close> into a result stops at the first error.\<close>

fun collect_results :: "('a \<Rightarrow> ('b, 'e) result) \<Rightarrow> 'a list \<Rightarrow> ('b list, 'e) result" where
  "collect_results f [] = Ok []"
| "collect_results f (x # xs) = and_then (f x) (\<lambda>y. and_then (collect_results f xs) (\<lambda>ys. Ok (y # ys)))"

definition parse_scope :: "string \<Rightarrow> (scope_entry list, message) result" where
  "parse_scope raw =
     (let entries = listed raw
      in if entries = [] then Err (Format ''an egress scope lists no entries'' [])
         else collect_results entry_parse entries)"

section \<open>Signing prefixes\<close>

definition tls13_client_auth :: string where
  "tls13_client_auth = replicate 64 (CHR 0x20) @ ''TLS 1.3, client CertificateVerify'' @ [CHR 0x00]"

definition jwt_rs256_header :: string where
  "jwt_rs256_header = ''eyJhbGciOiJSUzI1NiIsInR5cCI6IkpXVCJ9.''"

definition named_prefix :: "string \<Rightarrow> string option" where
  "named_prefix name =
     (if name = ''tls13-client-auth'' then Some tls13_client_auth
      else if name = ''jwt-rs256-header'' then Some jwt_rs256_header
      else None)"

definition NAMED :: "string list" where
  "NAMED = [''tls13-client-auth'', ''jwt-rs256-header'']"

definition hex_value :: "char \<Rightarrow> nat option" where
  "hex_value c =
     (let n = of_char c :: nat
      in if 48 \<le> n \<and> n \<le> 57 then Some (n - 48)
         else if 97 \<le> n \<and> n \<le> 102 then Some (n - 87)
         else if 65 \<le> n \<and> n \<le> 70 then Some (n - 55) else None)"

text \<open>
  \<^verbatim>\<open>u8::from_str_radix(_, 16)\<close> on a chunk of two bytes. As for every unsigned type, a leading plus
  sign is accepted when a digit follows.
\<close>

definition u8_from_hex :: "char \<Rightarrow> char \<Rightarrow> char option" where
  "u8_from_hex a b =
     (case hex_value b of
        None \<Rightarrow> None
      | Some lo \<Rightarrow>
          if a = CHR ''+'' then Some (char_of lo)
          else map_option (\<lambda>hi. char_of (16 * hi + lo)) (hex_value a))"

fun hex_chunks :: "string \<Rightarrow> string \<Rightarrow> (string, message) result" where
  "hex_chunks entry (a # b # s) =
     (case u8_from_hex a b of
        Some byte \<Rightarrow> and_then (hex_chunks entry s) (\<lambda>bytes. Ok (byte # bytes))
      | None \<Rightarrow> Err (Format ''bad hex in sign prefix: {entry:?}'' [entry]))"
| "hex_chunks entry s = Ok []"

definition prefix_parse :: "string \<Rightarrow> (string, message) result" where
  "prefix_parse input =
     (let entry = trim input
      in if entry = [] then Err (Format ''empty sign prefix'' [])
         else (case strip_prefix entry ''hex:'' of
                 Some digits \<Rightarrow>
                   if digits = [] \<or> length digits mod 2 \<noteq> 0 then
                     Err (Format ''hex sign prefix must be an even number of digits: {entry:?}'' [entry])
                   else hex_chunks entry digits
               | None \<Rightarrow>
                   (case named_prefix entry of
                      Some p \<Rightarrow> Ok p
                    | None \<Rightarrow> Err (Format ''unknown sign prefix {entry:?}: name one of {}, or write `hex:<digits>`'' (entry # NAMED)))))"

definition prefix_parse_list :: "string \<Rightarrow> (string list, message) result" where
  "prefix_parse_list raw =
     (let entries = listed raw
      in if entries = [] then Err (Format ''sign grant needs at least one prefix'' [])
         else collect_results prefix_parse entries)"

definition sign_admits :: "string list \<Rightarrow> string \<Rightarrow> bool" where
  "sign_admits granted payload \<longleftrightarrow> list_ex (starts_with payload) granted"

section \<open>Parsed entries\<close>

lemma lower_char_idem [simp]: "lower_char (lower_char c) = lower_char c"
  by (auto simp: lower_char_def ascii_upper_def Let_def)

lemma lower_char_fixed: "\<not> ascii_lower d \<Longrightarrow> \<not> ascii_upper d \<Longrightarrow> lower_char c = d \<longleftrightarrow> c = d"
  by (auto simp: lower_char_def ascii_upper_def ascii_lower_def Let_def)

lemma lowercase_member: "\<not> ascii_lower d \<Longrightarrow> \<not> ascii_upper d \<Longrightarrow> d \<in> set (to_ascii_lowercase s) \<longleftrightarrow> d \<in> set s"
  unfolding to_ascii_lowercase_def set_map image_iff by (metis lower_char_fixed)

lemma lowercase_starts_with:
  "list_all (\<lambda>d. \<not> ascii_lower d \<and> \<not> ascii_upper d) p \<Longrightarrow> starts_with (to_ascii_lowercase s) p \<longleftrightarrow> starts_with s p"
  unfolding to_ascii_lowercase_def
  by (induction s p rule: starts_with.induct) (auto simp: lower_char_fixed)

lemma starts_with_append_left: "starts_with s p \<Longrightarrow> starts_with (s @ t) p"
  by (auto simp: starts_with_iff_append)

lemma collect_results_Ok: "collect_results f xs = Ok ys \<longleftrightarrow> list_all2 (\<lambda>x y. f x = Ok y) xs ys"
  by (induction xs arbitrary: ys) (auto simp: res_simps list_all2_Cons1)

lemma collect_results_Ok_mem: "collect_results f xs = Ok ys \<Longrightarrow> y \<in> set ys \<Longrightarrow> \<exists>x. x \<in> set xs \<and> f x = Ok y"
  by (auto simp: collect_results_Ok list_all2_conv_all_nth in_set_conv_nth)

definition entry_ok :: "scope_entry \<Rightarrow> bool" where
  "entry_ok e \<longleftrightarrow>
     (e_scheme e = ''http'' \<or> e_scheme e = ''https'')
     \<and> e_host e \<noteq> [] \<and> CHR ''/'' \<notin> set (e_host e) \<and> to_ascii_lowercase (e_host e) = e_host e
     \<and> (starts_with (e_host e) ''*'' \<longrightarrow> starts_with (e_host e) ''*.'')
     \<and> starts_with (e_path e) ''/''
     \<and> (case e_method e of None \<Rightarrow> True | Some verb \<Rightarrow> verb \<noteq> [] \<and> list_all ascii_upper verb)"

lemma entry_method_ok:
  "entry_method raw = (Some verb, rest) \<Longrightarrow> verb \<noteq> [] \<and> list_all ascii_upper verb"
  by (auto simp: entry_method_def split: option.splits if_splits)

lemma star_host:
  assumes "\<not> (starts_with (host @ CHR ''/'' # path) ''*'' \<and> \<not> starts_with (host @ CHR ''/'' # path) ''*.'')"
    and "starts_with host ''*''"
  shows "starts_with host ''*.''"
  using assms by (cases host; cases "tl host") auto

lemma entry_parse_ok: "entry_parse raw = Ok e \<Longrightarrow> entry_ok e"
proof -
  assume ok: "entry_parse raw = Ok e"
  obtain verb rest where m: "entry_method (trim raw) = (verb, rest)" by fastforce
  from ok m obtain scheme authority host path where
    parts: "split_once_str ''://'' rest = Some (scheme, authority)" "split_once (CHR ''/'') authority = Some (host, path)"
    and checks: "to_ascii_lowercase scheme = ''http'' \<or> to_ascii_lowercase scheme = ''https''"
      "\<not> (starts_with authority ''*'' \<and> \<not> starts_with authority ''*.'')" "host \<noteq> []"
    and e: "e = \<lparr>e_method = verb, e_scheme = to_ascii_lowercase scheme, e_host = to_ascii_lowercase host,
                 e_path = ''/'' @ path\<rparr>"
    by (auto simp: entry_parse_def Let_def simp del: starts_with.simps split: if_splits option.splits)
  have host: "authority = host @ CHR ''/'' # path" "CHR ''/'' \<notin> set host" using parts(2) by (simp_all add: split_once_eq)
  have "starts_with host ''*'' \<longrightarrow> starts_with host ''*.''"
    using checks(2) star_host unfolding host by blast
  then have "starts_with (to_ascii_lowercase host) ''*'' \<longrightarrow> starts_with (to_ascii_lowercase host) ''*.''"
    using lowercase_starts_with [of "''*''" host] lowercase_starts_with [of "''*.''" host]
    by (simp add: ascii_lower_def ascii_upper_def)
  moreover have "CHR ''/'' \<notin> set (to_ascii_lowercase host)"
    using host(2) by (simp add: lowercase_member ascii_lower_def ascii_upper_def)
  ultimately show ?thesis
    using checks(1,3) e m entry_method_ok [of "trim raw"]
    by (simp add: entry_ok_def to_ascii_lowercase_def split: option.splits)
qed

lemma parse_scope_ok:
  assumes "parse_scope raw = Ok entries"
  shows "entries \<noteq> []" and "list_all entry_ok entries"
proof -
  have entries: "listed raw \<noteq> []" "collect_results entry_parse (listed raw) = Ok entries"
    using assms by (auto simp: parse_scope_def Let_def split: if_splits)
  have "entry_ok e" if "e \<in> set entries" for e
    using collect_results_Ok_mem [OF entries(2) that] entry_parse_ok by blast
  then show "list_all entry_ok entries" by (simp add: list_all_iff)
  show "entries \<noteq> []" using entries by (auto simp: collect_results_Ok)
qed

text \<open>
  C26. A parsed allow-list is well formed: it is not empty, and every entry names http or https,
  a non-empty lower-case host without a slash that begins with a star only as a whole label, a
  path from the root, and either no method or one written in capitals.
\<close>

theorem parsed_scope_well_formed:
  assumes "parse_scope raw = Ok entries"
  shows "entries \<noteq> [] \<and> list_all entry_ok entries"
  using parse_scope_ok [OF assms] by simp

lemmas egress_eval = parse_scope_def listed_def entry_parse_def entry_method_def Let_def ws_units_def
  trim_def trim_start_def trim_end_def trim_units.simps to_ascii_lowercase_def to_ascii_uppercase_def
  lower_char_def upper_char_def ascii_upper_def ascii_lower_def

theorem parsed_scope_well_formed_witness:
  "\<exists>entries. parse_scope ''POST https://*.Stripe.com/v1/*, http://localhost/'' = Ok entries \<and> length entries = 2
     \<and> list_all entry_ok entries"
proof -
  have "\<exists>entries. parse_scope ''POST https://*.Stripe.com/v1/*, http://localhost/'' = Ok entries \<and> length entries = 2"
    by (simp add: egress_eval)
  then show ?thesis using parsed_scope_well_formed by blast
qed

section \<open>Matching\<close>

lemma glob_spec_literal: "CHR ''*'' \<notin> set p \<Longrightarrow> CHR ''?'' \<notin> set p \<Longrightarrow> glob_spec p v \<longleftrightarrow> v = p"
  by (induction p v rule: glob_spec.induct) auto

lemma glob_spec_label_star:
  assumes "CHR ''*'' \<notin> set d" "CHR ''?'' \<notin> set d"
  shows "glob_spec (''*.'' @ d) v \<longleftrightarrow> (\<exists>labels. v = labels @ ''.'' @ d)"
proof -
  have "glob_spec (''*.'' @ d) v \<longleftrightarrow> (\<exists>n. n \<le> length v \<and> drop n v = ''.'' @ d)"
    using assms glob_spec_literal [of "''.'' @ d"] by (simp add: glob_spec_star)
  also have "\<dots> \<longleftrightarrow> (\<exists>labels. v = labels @ ''.'' @ d)"
    by (metis append_eq_conv_conj append_take_drop_id le_add1 length_append)
  finally show ?thesis .
qed

text \<open>
  C25. What an allow-list admits is confined component by component. Some entry has the scheme
  of the target and its method, if it names one; its host pattern describes the host and its
  path pattern the path. A host without wildcards is met only by itself, and a host that is a
  star label before a domain only by that domain under further labels: neither can be met by
  moving text between host and path.
\<close>

theorem egress_confined:
  assumes "parse_scope raw = Ok entries" and "egress_admits entries t"
  shows "\<exists>e. e \<in> set entries \<and> entry_ok e \<and> e_scheme e = t_scheme t \<and> e_method e \<in> {None, Some (t_method t)}
     \<and> glob_spec (e_host e) (t_host t) \<and> glob_spec (e_path e) (t_path t)
     \<and> (\<forall>d. CHR ''*'' \<notin> set d \<longrightarrow> CHR ''?'' \<notin> set d \<longrightarrow>
          (e_host e = d \<longrightarrow> t_host t = d) \<and> (e_host e = ''*.'' @ d \<longrightarrow> (\<exists>labels. t_host t = labels @ ''.'' @ d)))"
proof -
  obtain e where e: "e \<in> set entries" "entry_admits e t"
    using assms(2) by (auto simp: egress_admits_def list_ex_iff)
  then have "e_scheme e = t_scheme t" "e_method e \<in> {None, Some (t_method t)}"
    "glob_spec (e_host e) (t_host t)" "glob_spec (e_path e) (t_path t)"
    by (auto simp: entry_admits_def glob_sound split: option.splits)
  moreover have "entry_ok e" using parse_scope_ok(2) [OF assms(1)] e(1) by (simp add: list_all_iff)
  ultimately show ?thesis using e(1) glob_spec_literal glob_spec_label_star by metis
qed

text \<open>A host that only looks like the granted one is refused.\<close>

theorem egress_confined_witness:
  "\<exists>entries. parse_scope ''https://*.stripe.com/v1/*'' = Ok entries
     \<and> (\<forall>t. t_host t = ''evil.example'' \<longrightarrow> \<not> egress_admits entries t)"
proof -
  define e where "e = \<lparr>e_method = None, e_scheme = ''https'', e_host = ''*.stripe.com'', e_path = ''/v1/*''\<rparr>"
  have parsed: "parse_scope ''https://*.stripe.com/v1/*'' = Ok [e]"
    by (simp add: egress_eval e_def)
  have "\<not> egress_admits [e] t" if host: "t_host t = ''evil.example''" for t
  proof
    assume "egress_admits [e] t"
    from egress_confined [OF parsed this] have "\<exists>labels. t_host t = labels @ ''.'' @ ''stripe.com''"
      by (auto simp: e_def)
    then obtain labels where "''evil.example'' = labels @ ''.stripe.com''" unfolding host by auto
    then have "rev ''evil.example'' = rev (labels @ ''.stripe.com'')" by (simp only:)
    then show False by simp
  qed
  then show ?thesis using parsed by blast
qed

section \<open>Signing\<close>

lemma hex_value_digit [simp]: "d < 16 \<Longrightarrow> hex_value (hex_digit d) = Some d"
  by (auto simp: hex_value_def hex_digit_def Let_def)

lemma hex_digit_not_plus: "d < 16 \<Longrightarrow> hex_digit d \<noteq> CHR ''+''"
  using hex_value_digit [of d] by (auto simp: hex_value_def)

lemma u8_from_hex_byte: "u8_from_hex (hex_digit (of_char c div 16)) (hex_digit (of_char c mod 16)) = Some c"
proof -
  have "(of_char c :: nat) div 16 < 16" using nat_of_char_less_256 [of c] by linarith
  then show ?thesis by (simp add: u8_from_hex_def hex_digit_not_plus)
qed

lemma hex_chunks_bytes: "hex_chunks entry (concat (map hex_byte bytes)) = Ok bytes"
  by (induction bytes) (simp_all add: hex_byte_def Let_def u8_from_hex_byte)

lemma trim_clean:
  assumes "strip_unit ws_units s = None" "strip_unit (map rev ws_units) (rev s) = None"
  shows "trim s = s"
  using assms by (simp add: trim_def trim_start_def trim_end_def trim_units_none)

text \<open>A prefix written in hexadecimal is read back as the bytes it stands for.\<close>

lemma hex_prefix_round_trip:
  assumes "bytes \<noteq> []"
  shows "prefix_parse (''hex:'' @ concat (map hex_byte bytes)) = Ok bytes"
proof -
  let ?digits = "concat (map hex_byte bytes)"
  obtain init c where bytes: "bytes = init @ [c]" using assms by (cases bytes rule: rev_cases) auto
  have head: "strip_unit ws_units (''hex:'' @ ?digits) = None"
    by (simp add: ws_units_def)
  have "hex_digit d \<notin> hd ` set (map rev ws_units)" if "d < 16" for d
    using hex_value_digit [OF that] by (auto simp: hex_value_def ws_units_def)
  then have "strip_unit (map rev ws_units) (rev (''hex:'' @ ?digits)) = None"
    unfolding bytes by (simp add: hex_byte_def Let_def) (rule strip_unit_head, auto simp: ws_units_def)
  with head have "trim (''hex:'' @ ?digits) = ''hex:'' @ ?digits" by (rule trim_clean)
  moreover have "length ?digits mod 2 = 0" by (induction bytes) (simp_all add: hex_byte_def Let_def)
  moreover have "?digits \<noteq> []" unfolding bytes by (simp add: hex_byte_def Let_def)
  moreover have "strip_prefix (''hex:'' @ ?digits) ''hex:'' = Some ?digits" by (rule strip_prefix_self_append)
  ultimately show ?thesis by (simp add: prefix_parse_def Let_def hex_chunks_bytes)
qed

text \<open>So is a chunk whose first byte is a plus sign, though it has one digit.\<close>

lemma hex_prefix_accepts_sign: "prefix_parse ''hex:+f'' = Ok [char_of (15 :: nat)]"
  by (simp add: prefix_parse_def egress_eval u8_from_hex_def hex_value_def)

lemma starts_with_both:
  "starts_with s p \<Longrightarrow> starts_with s q \<Longrightarrow> starts_with p q \<or> starts_with q p"
  unfolding starts_with_iff_append by (metis append_eq_append_conv2)

text \<open>
  A key granted the prefix of one protocol signs nothing of another: when none of the
  granted prefixes is a beginning of a text or begins with it, no admitted payload begins with
  that text. The two named prefixes exclude each other in this way.
\<close>

theorem signing_confined_to_protocol:
  assumes "sign_admits granted payload"
    and "\<forall>p. p \<in> set granted \<longrightarrow> \<not> starts_with p other \<and> \<not> starts_with other p"
  shows "\<not> starts_with payload other"
  using assms starts_with_both by (auto simp: sign_admits_def list_ex_iff)

theorem signing_confined_to_protocol_witness:
  "\<not> starts_with (jwt_rs256_header @ ''e30'') tls13_client_auth"
  by (rule signing_confined_to_protocol [of "[jwt_rs256_header]"])
    (simp_all add: sign_admits_def jwt_rs256_header_def tls13_client_auth_def numeral_eq_Suc)


end
