(* ===== verification/Provider_Trust.thy ===== *)
theory Provider_Trust
  imports Ordered_Maps
begin

text \<open>
  Model trust tiers (\<^verbatim>\<open>kernel/src/provider_trust.rs\<close>): the custody classes and evidence rungs of an
  endpoint, their derivation from evidence, and the admission of a delegation edge against the
  class an envelope demands.

  \<^verbatim>\<open>chrono\<close>'s RFC 3339 parser is a parameter that returns an instant, an integer, or nothing.
\<close>

section \<open>Classes and rungs\<close>

datatype custody_class = Unknown | Trains | Retained | ZeroRetention | OperatorHeld

datatype provider_rung = Unattested | Pinned | Attested

text \<open>Both orders are derived: they follow the order of the constructors.\<close>

fun custody_index :: "custody_class \<Rightarrow> nat" where
  "custody_index Unknown = 0"
| "custody_index Trains = 1"
| "custody_index Retained = 2"
| "custody_index ZeroRetention = 3"
| "custody_index OperatorHeld = 4"

fun rung_index :: "provider_rung \<Rightarrow> nat" where
  "rung_index Unattested = 0"
| "rung_index Pinned = 1"
| "rung_index Attested = 2"

instantiation custody_class :: linorder
begin

definition less_eq_custody_class :: "custody_class \<Rightarrow> custody_class \<Rightarrow> bool" where
  "less_eq_custody_class a b \<longleftrightarrow> custody_index a \<le> custody_index b"

definition less_custody_class :: "custody_class \<Rightarrow> custody_class \<Rightarrow> bool" where
  "less_custody_class a b \<longleftrightarrow> custody_index a < custody_index b"

instance
proof
  fix a b :: custody_class
  show "a \<le> b \<Longrightarrow> b \<le> a \<Longrightarrow> a = b" by (cases a; cases b) (simp_all add: less_eq_custody_class_def)
qed (auto simp: less_eq_custody_class_def less_custody_class_def)

end

instantiation provider_rung :: linorder
begin

definition less_eq_provider_rung :: "provider_rung \<Rightarrow> provider_rung \<Rightarrow> bool" where
  "less_eq_provider_rung a b \<longleftrightarrow> rung_index a \<le> rung_index b"

definition less_provider_rung :: "provider_rung \<Rightarrow> provider_rung \<Rightarrow> bool" where
  "less_provider_rung a b \<longleftrightarrow> rung_index a < rung_index b"

instance
proof
  fix a b :: provider_rung
  show "a \<le> b \<Longrightarrow> b \<le> a \<Longrightarrow> a = b" by (cases a; cases b) (simp_all add: less_eq_provider_rung_def)
qed (auto simp: less_eq_provider_rung_def less_provider_rung_def)

end

fun custody_as_str :: "custody_class \<Rightarrow> string" where
  "custody_as_str Unknown = ''unknown''"
| "custody_as_str Trains = ''trains''"
| "custody_as_str Retained = ''retained''"
| "custody_as_str ZeroRetention = ''zero-retention''"
| "custody_as_str OperatorHeld = ''operator-held''"

definition custody_parse :: "string \<Rightarrow> custody_class option" where
  "custody_parse v =
     (if v = ''unknown'' \<or> v = ''c0'' then Some Unknown
      else if v = ''trains'' \<or> v = ''c1'' then Some Trains
      else if v = ''retained'' \<or> v = ''c2'' then Some Retained
      else if v = ''zero-retention'' \<or> v = ''c3'' then Some ZeroRetention
      else if v = ''operator-held'' \<or> v = ''c4'' then Some OperatorHeld
      else None)"

fun provider_rung_as_str :: "provider_rung \<Rightarrow> string" where
  "provider_rung_as_str Unattested = ''unattested''"
| "provider_rung_as_str Pinned = ''pinned''"
| "provider_rung_as_str Attested = ''attested''"

definition provider_rung_parse :: "string \<Rightarrow> provider_rung option" where
  "provider_rung_parse v =
     (if v = ''unattested'' \<or> v = ''r0'' then Some Unattested
      else if v = ''pinned'' \<or> v = ''r1'' then Some Pinned
      else if v = ''attested'' \<or> v = ''r2'' then Some Attested
      else None)"

section \<open>Evidence\<close>

record filed_claim =
  claim_class :: custody_class
  claim_signer :: string
  claim_current :: bool

record provider_evidence =
  pinned_digest :: "string option"
  live_digest :: "string option"
  filed :: "filed_claim option"
  operator_run :: bool

record derived_trust =
  rung :: provider_rung
  custody :: custody_class
  degraded :: bool

definition derive :: "provider_evidence \<Rightarrow> derived_trust" where
  "derive evidence =
     (let pinned = (case (pinned_digest evidence, live_digest evidence) of
                      (Some p, Some l) \<Rightarrow> p = l | _ \<Rightarrow> False)
      in if \<not> pinned then \<lparr>rung = Unattested, custody = Unknown, degraded = True\<rparr>
         else
           let attested = (case filed evidence of Some claim \<Rightarrow> claim_current claim | None \<Rightarrow> False);
               from_claim = (if attested
                             then (case filed evidence of Some claim \<Rightarrow> claim_class claim | None \<Rightarrow> Unknown)
                             else Unknown);
               from_operator = (if operator_run evidence then OperatorHeld else Unknown)
           in \<lparr>rung = (if attested then Attested else Pinned),
               custody = max from_claim from_operator, degraded = False\<rparr>)"

record registry_evidence =
  row_pinned_digest :: "string option"
  row_claim_class :: "string option"
  row_claim_signer :: "string option"
  row_claim_expires_at :: "string option"
  row_operator_run :: bool

definition claim_is_current :: "(string \<Rightarrow> int option) \<Rightarrow> string \<Rightarrow> int \<Rightarrow> bool" where
  "claim_is_current parse_rfc3339 expires_at now =
     (case parse_rfc3339 expires_at of Some expiry \<Rightarrow> expiry > now | None \<Rightarrow> False)"

definition evidence_from_registry ::
  "(string \<Rightarrow> int option) \<Rightarrow> registry_evidence \<Rightarrow> string option \<Rightarrow> int \<Rightarrow> provider_evidence" where
  "evidence_from_registry parse_rfc3339 row live now =
     \<lparr>pinned_digest = row_pinned_digest row, live_digest = live,
      filed = (case (row_claim_class row, row_claim_signer row, row_claim_expires_at row) of
                 (Some cls, Some signer, Some expires_at) \<Rightarrow>
                   map_option (\<lambda>c. \<lparr>claim_class = c, claim_signer = signer,
                                    claim_current = claim_is_current parse_rfc3339 expires_at now\<rparr>)
                     (custody_parse cls)
               | _ \<Rightarrow> None),
      operator_run = row_operator_run row\<rparr>"

text \<open>
  The identity a pin freezes. Parsing a configuration as JSON and printing it again is one
  parameter, which fails where the text does not parse.
\<close>

definition endpoint_digest :: "(string \<Rightarrow> string option) \<Rightarrow> (string \<Rightarrow> string) \<Rightarrow> string \<Rightarrow> string" where
  "endpoint_digest reprint sha256 config =
     stable_hash_hex sha256 (case reprint config of Some canonical \<Rightarrow> canonical | None \<Rightarrow> config)"

section \<open>Delegation\<close>

datatype delegation_denial =
    BelowRung provider_rung
  | UnderClass custody_class custody_class

fun delegation_message :: "delegation_denial \<Rightarrow> string \<Rightarrow> string \<Rightarrow> message" where
  "delegation_message (BelowRung r) provider role =
     Format ''delegating `provider:{provider}` for `{role}` needs a pinned endpoint, but `{provider}` is `{rung}` -- a custody claim about an endpoint is meaningless if the endpoint can change underneath it (run `whip provider pin {provider}`)''
       [provider, role, provider_rung_as_str r]"
| "delegation_message (UnderClass d demanded) provider role =
     Format ''delegating `provider:{provider}` for `{role}` needs custody `{demanded}`, but the evidence for `{provider}` supports only `{derived}` -- either file a claim that reaches `{demanded}`, or lower the demand for `{role}` in the signed envelope''
       [provider, role, custody_as_str demanded, custody_as_str d]"

definition delegation_admissible :: "derived_trust \<Rightarrow> custody_class option \<Rightarrow> (unit, delegation_denial) result" where
  "delegation_admissible derived demand =
     (case demand of
        None \<Rightarrow> Ok ()
      | Some demanded \<Rightarrow>
          if rung derived < Pinned then Err (BelowRung (rung derived))
          else if custody derived < demanded then Err (UnderClass (custody derived) demanded)
          else Ok ())"

section \<open>What the evidence supports\<close>

lemma custody_round_trip: "custody_parse (custody_as_str c) = Some c"
  by (cases c) (simp_all add: custody_parse_def)

lemma provider_rung_round_trip: "provider_rung_parse (provider_rung_as_str r) = Some r"
  by (cases r) (simp_all add: provider_rung_parse_def)

lemma Unknown_least [simp]: "Unknown \<le> c"
  by (simp add: less_eq_custody_class_def)

lemma le_Unknown [simp]: "c \<le> Unknown \<longleftrightarrow> c = Unknown"
  by (auto intro: antisym)

lemma OperatorHeld_greatest [simp]: "c \<le> OperatorHeld"
  by (cases c) (simp_all add: less_eq_custody_class_def)

text \<open>A pin is fresh when it was taken against what the endpoint resolves to now.\<close>

definition pin_fresh :: "provider_evidence \<Rightarrow> bool" where
  "pin_fresh e \<longleftrightarrow> pinned_digest e \<noteq> None \<and> pinned_digest e = live_digest e"

lemma derive_eq:
  "derive e =
     (if \<not> pin_fresh e then \<lparr>rung = Unattested, custody = Unknown, degraded = True\<rparr>
      else \<lparr>rung = (if \<exists>c. filed e = Some c \<and> claim_current c then Attested else Pinned),
            custody = (if operator_run e then OperatorHeld
                       else case filed e of Some c \<Rightarrow> if claim_current c then claim_class c else Unknown | None \<Rightarrow> Unknown),
            degraded = False\<rparr>)"
  by (auto simp: derive_def pin_fresh_def max_def Let_def split: option.splits)

text \<open>
  C30. An endpoint is admitted for a demanded custody class exactly on evidence: the demand is
  absent, or the pin matches what the endpoint resolves to now and either the demand is for
  the least class, the operator runs the endpoint, or the registry row carries a signed claim
  of a known class that reaches the demand and whose expiry can be read and lies in the
  future. Nothing else in the row counts.
\<close>

theorem delegation_admitted_on_evidence:
  "delegation_admissible (derive (evidence_from_registry parse row live now)) demand = Ok () \<longleftrightarrow>
     (case demand of None \<Rightarrow> True
      | Some demanded \<Rightarrow>
          row_pinned_digest row \<noteq> None \<and> row_pinned_digest row = live
          \<and> (demanded = Unknown \<or> row_operator_run row
             \<or> (\<exists>cls c signer ends expiry.
                  row_claim_class row = Some cls \<and> custody_parse cls = Some c \<and> demanded \<le> c
                  \<and> row_claim_signer row = Some signer \<and> row_claim_expires_at row = Some ends
                  \<and> parse ends = Some expiry \<and> now < expiry)))"
proof (cases demand)
  case (Some demanded)
  let ?e = "evidence_from_registry parse row live now"
  have fresh: "pin_fresh ?e \<longleftrightarrow> row_pinned_digest row \<noteq> None \<and> row_pinned_digest row = live"
    by (simp add: pin_fresh_def evidence_from_registry_def)
  have reach: "demanded \<le> custody (derive ?e) \<longleftrightarrow>
      demanded = Unknown \<or> row_operator_run row
      \<or> (\<exists>cls c signer ends expiry.
           row_claim_class row = Some cls \<and> custody_parse cls = Some c \<and> demanded \<le> c
           \<and> row_claim_signer row = Some signer \<and> row_claim_expires_at row = Some ends
           \<and> parse ends = Some expiry \<and> now < expiry)" if "pin_fresh ?e"
    using that
    by (auto simp: derive_eq evidence_from_registry_def claim_is_current_def split: option.splits)
  have "rung (derive ?e) < Pinned \<longleftrightarrow> \<not> pin_fresh ?e"
    by (simp add: derive_eq less_provider_rung_def)
  then have "delegation_admissible (derive ?e) demand = Ok () \<longleftrightarrow> pin_fresh ?e \<and> demanded \<le> custody (derive ?e)"
    by (auto simp: Some delegation_admissible_def not_less)
  also have "\<dots> \<longleftrightarrow> pin_fresh ?e \<and> (demanded = Unknown \<or> row_operator_run row
      \<or> (\<exists>cls c signer ends expiry.
           row_claim_class row = Some cls \<and> custody_parse cls = Some c \<and> demanded \<le> c
           \<and> row_claim_signer row = Some signer \<and> row_claim_expires_at row = Some ends
           \<and> parse ends = Some expiry \<and> now < expiry))"
    by (rule conj_cong [OF refl reach])
  finally show ?thesis unfolding fresh Some by (simp only: option.case conj_assoc)
qed (simp add: delegation_admissible_def)

text \<open>An expired claim does not reach the class it names; one still running does.\<close>

theorem delegation_admitted_on_evidence_witness:
  "let row = \<lparr>row_pinned_digest = Some ''d'', row_claim_class = Some ''c3'', row_claim_signer = Some ''ops'',
             row_claim_expires_at = Some ''100'', row_operator_run = False\<rparr>
   in delegation_admissible (derive (evidence_from_registry parse_i64 row (Some ''d'') 50)) (Some Retained) = Ok ()
      \<and> delegation_admissible (derive (evidence_from_registry parse_i64 row (Some ''d'') 100)) (Some Retained) \<noteq> Ok ()
      \<and> delegation_admissible (derive (evidence_from_registry parse_i64 row (Some ''e'') 50)) (Some Unknown) \<noteq> Ok ()"
  by (simp add: delegation_admitted_on_evidence custody_parse_def less_eq_custody_class_def parse_i64_def
      digit_value_def Let_def in_i64_def i64_min_def i64_max_def)

end
