(* ===== verification/Ifc_Envelope.thy ===== *)
theory Ifc_Envelope
  imports Egress_Scope Provider_Trust Mcp_Tools
begin

text \<open>
  The governance envelope and the decisions taken from it (\<^verbatim>\<open>kernel/src/ifc.rs\<close>,
  \<^verbatim>\<open>kernel/src/ifc/source_flow.rs\<close> and \<^verbatim>\<open>kernel/src/ifc/authority_policy.rs\<close>): the acts-for walk over
  delegation edges, reader and integrity labels, leak and injection checks with their audited
  crossings, unwrap grants, and where a credential may reach, sign and be handed.

  A \<^verbatim>\<open>BTreeSet\<close> is a set and a \<^verbatim>\<open>BTreeMap\<close> a sorted association list. Reading an envelope from JSON
  or from the policy language is not modelled: the record is taken as parsed.
\<close>

section \<open>The record\<close>

definition PUBLIC :: string where
  "PUBLIC = ''public''"

record attachment =
  att_authority :: string
  att_exposure :: string
  att_digest :: string
  att_readers :: "string set"

record dual_label =
  source_label :: "string set"
  sink_label :: "string set"

definition both :: "string set \<Rightarrow> dual_label" where
  "both S = \<lparr>source_label = S, sink_label = S\<rparr>"

record unwrap_grant =
  credential :: string
  payload_type :: string
  grant_role :: string

datatype sealing_rung = Process | OsKeyring | Hardware | Remote

record provider_binding_policy =
  pb_provider :: string
  pb_model :: string
  pb_base_url :: string
  pb_credential_ref :: string
  pb_wire :: "string option"

record placement_policy =
  pl_kind :: string
  pl_provider_bindings :: "string set"
  pl_command_network :: bool

record envelope =
  readers :: "(string, dual_label) bmap"
  governed :: "string set"
  authority :: "string option"
  requires_authority :: "string set"
  policy_lifetime :: "nat option"
  exposes :: "(string, string) bmap"
  attachments :: "attachment list"
  deleg :: "(string \<times> string) list"
  declassify :: "(string \<times> string) list"
  integrity :: "(string, dual_label) bmap"
  endorse :: "(string \<times> string) list"
  unwrap_grants :: "unwrap_grant list"
  request_scopes :: "(string, string list) bmap"
  sign_prefixes :: "(string, string list) bmap"
  deliver_scopes :: "(string, string list) bmap"
  confined_egress :: "string set"
  custodian_role :: "string option"
  internal_signals :: "string set"
  mcp_min_rung :: "mcp_rung option"
  credential_min_rung :: "sealing_rung option"
  custody_demand :: "(string, custody_class) bmap"
  require_verified :: "string set"
  internal_workflows :: "string set"
  principals :: "string set"
  address_of :: "(string, string) bmap"
  party_of :: "(string, string) bmap"
  guarantees :: "(string \<times> string list) list"
  capabilities :: "string set"
  provider_bindings :: "(string, provider_binding_policy) bmap"
  placements :: "(string, placement_policy) bmap"

section \<open>Acts-for\<close>

text \<open>
  The walk keeps a stack, here with its top at the head, and the set of roles already
  expanded. The targets of a role's edges are pushed in order, so the last one is on top.
\<close>

definition targets :: "(string \<times> string) list \<Rightarrow> string \<Rightarrow> string list" where
  "targets edges current = map snd (filter (\<lambda>(left, right). left = current) edges)"

function acts_for_walk :: "(string \<times> string) list \<Rightarrow> string \<Rightarrow> string list \<Rightarrow> string set \<Rightarrow> bool" where
  "acts_for_walk edges q [] visited = False"
| "acts_for_walk edges q (current # frontier) visited =
     (if current = q then True
      else if current \<in> visited then acts_for_walk edges q frontier visited
      else acts_for_walk edges q (rev (targets edges current) @ frontier) (insert current visited))"
  by pat_completeness auto
termination
proof (relation "measures [\<lambda>(edges, q, frontier, visited). card (fst ` set edges - visited),
    \<lambda>(edges, q, frontier, visited). length frontier]")
  fix edges :: "(string \<times> string) list" and q current :: string and frontier visited
  assume "current \<notin> visited"
  show "((edges, q, rev (targets edges current) @ frontier, insert current visited), edges, q, current # frontier, visited)
      \<in> measures [\<lambda>(edges, q, frontier, visited). card (fst ` set edges - visited),
          \<lambda>(edges, q, frontier, visited). length frontier]"
  proof (cases "current \<in> fst ` set edges")
    case True
    then have "card (fst ` set edges - insert current visited) < card (fst ` set edges - visited)"
      using \<open>current \<notin> visited\<close> by (intro psubset_card_mono) auto
    then show ?thesis by simp
  next
    case False
    then have "targets edges current = []" by (force simp: targets_def filter_empty_conv)
    moreover have "fst ` set edges - insert current visited = fst ` set edges - visited" using False by blast
    ultimately show ?thesis by simp
  qed
qed simp_all

definition acts_for_over :: "(string \<times> string) list \<Rightarrow> string \<Rightarrow> string \<Rightarrow> bool" where
  "acts_for_over edges p q =
     (if q = PUBLIC \<or> p = q then True
      else if p = PUBLIC then False
      else acts_for_walk edges q [p] {})"

section \<open>Labels\<close>

definition resolve :: "envelope \<Rightarrow> string \<Rightarrow> string" where
  "resolve env handle = (case bm_get (address_of env) handle of Some a \<Rightarrow> a | None \<Rightarrow> handle)"

definition has_parties :: "envelope \<Rightarrow> bool" where
  "has_parties env \<longleftrightarrow> party_of env \<noteq> []"

definition role_for_principal :: "envelope \<Rightarrow> string \<Rightarrow> string" where
  "role_for_principal env identity = (case bm_get (party_of env) identity of Some r \<Rightarrow> r | None \<Rightarrow> PUBLIC)"

definition reader_set :: "envelope \<Rightarrow> string \<Rightarrow> string set" where
  "reader_set env resource =
     (case bm_get (readers env) (resolve env resource) of Some label \<Rightarrow> source_label label | None \<Rightarrow> {})"

definition reader_sink :: "envelope \<Rightarrow> string \<Rightarrow> string set" where
  "reader_sink env resource =
     (case bm_get (readers env) (resolve env resource) of Some label \<Rightarrow> sink_label label | None \<Rightarrow> {})"

definition can_act :: "envelope \<Rightarrow> string \<Rightarrow> string \<Rightarrow> bool" where
  "can_act env p q = acts_for_over (deleg env) p q"

definition dominates :: "envelope \<Rightarrow> string set \<Rightarrow> string set \<Rightarrow> bool" where
  "dominates env provider required \<longleftrightarrow> (\<forall>req \<in> required. \<exists>prov \<in> provider. can_act env prov req)"

definition custodian_reader_of :: "envelope \<Rightarrow> string \<Rightarrow> string option" where
  "custodian_reader_of env resource =
     (let address = resolve env resource
      in case custodian_role env of
           None \<Rightarrow> None
         | Some role \<Rightarrow>
             if starts_with address ''credential:'' \<and> address \<notin> confined_egress env then Some role else None)"

definition uncleared_custodian :: "envelope \<Rightarrow> string \<Rightarrow> string \<Rightarrow> string option" where
  "uncleared_custodian env source sink =
     (case custodian_reader_of env sink of
        None \<Rightarrow> None
      | Some custodian \<Rightarrow> if \<not> dominates env {custodian} (reader_set env source) then Some custodian else None)"

definition label_text :: "string set \<Rightarrow> string" where
  "label_text S = (if S = {} then PUBLIC else join '', '' (sorted_list_of_set S))"

definition reader_label :: "envelope \<Rightarrow> string \<Rightarrow> string" where
  "reader_label env resource = label_text (reader_set env resource)"

definition leaks :: "envelope \<Rightarrow> string \<Rightarrow> string \<Rightarrow> bool" where
  "leaks env source sink \<longleftrightarrow>
     \<not> dominates env (reader_sink env sink) (reader_set env source) \<or> uncleared_custodian env source sink \<noteq> None"

definition declassify_releases :: "envelope \<Rightarrow> string \<Rightarrow> string \<Rightarrow> bool" where
  "declassify_releases env source sink =
     (let sink_readers = reader_sink env sink;
          custodian = map_option (\<lambda>role. {role}) (custodian_reader_of env sink)
      in list_ex (\<lambda>(resource, role).
           resolve env resource = resolve env source
           \<and> (role = PUBLIC
              \<or> dominates env sink_readers {role}
                \<and> (case custodian of None \<Rightarrow> True | Some c \<Rightarrow> dominates env c {role}))) (declassify env))"

definition integrity_set :: "envelope \<Rightarrow> string \<Rightarrow> string set" where
  "integrity_set env resource =
     (case bm_get (integrity env) (resolve env resource) of Some label \<Rightarrow> source_label label | None \<Rightarrow> {})"

definition integrity_sink :: "envelope \<Rightarrow> string \<Rightarrow> string set" where
  "integrity_sink env resource =
     (case bm_get (integrity env) (resolve env resource) of Some label \<Rightarrow> sink_label label | None \<Rightarrow> {})"

definition integrity_label :: "envelope \<Rightarrow> string \<Rightarrow> string" where
  "integrity_label env resource = label_text (integrity_sink env resource)"

text \<open>
  The raw relation of integrity, which the unit tests of the source assert. The walk over a program
  asks \<open>flow_injects\<close> below, which also reads an output token as its resource and a marked crossing's
  grant.
\<close>

definition injects :: "envelope \<Rightarrow> string \<Rightarrow> string \<Rightarrow> bool" where
  "injects env src dst \<longleftrightarrow> \<not> dominates env (integrity_set env src) (integrity_sink env dst)"

definition endorse_raises :: "envelope \<Rightarrow> string \<Rightarrow> string \<Rightarrow> bool" where
  "endorse_raises env source sink =
     (let (raised, granted) =
        fold (\<lambda>(resource, role) (raised, granted).
            if resolve env resource = resolve env source then (insert role raised, True) else (raised, granted))
          (endorse env) (integrity_set env source, False)
      in granted \<and> dominates env raised (integrity_sink env sink))"

text \<open>Carried integrity: no set at all is the top, trusted by derivation.\<close>

type_synonym carried_integrity = "string set option"

definition carried_label :: "carried_integrity \<Rightarrow> string" where
  "carried_label carried = (case carried of None \<Rightarrow> ''trusted (derived)'' | Some S \<Rightarrow> label_text S)"

fun meet_integrity :: "carried_integrity \<Rightarrow> carried_integrity \<Rightarrow> carried_integrity" where
  "meet_integrity None x = x"
| "meet_integrity x None = x"
| "meet_integrity (Some a) (Some b) = Some (a \<inter> b)"

text \<open>The flow policy of the rule walk: a marked crossing may use its grant.\<close>

definition flow_leaks :: "envelope \<Rightarrow> string \<Rightarrow> string \<Rightarrow> bool \<Rightarrow> bool" where
  "flow_leaks env source sink marked \<longleftrightarrow>
     leaks env source sink \<and> \<not> (marked \<and> declassify_releases env source sink)"

definition flow_injects :: "envelope \<Rightarrow> string \<Rightarrow> string \<Rightarrow> carried_integrity option \<Rightarrow> bool \<Rightarrow> bool" where
  "flow_injects env source sink carried marked =
     (case carried of
        Some c \<Rightarrow> (case c of None \<Rightarrow> False | Some S \<Rightarrow> \<not> dominates env S (integrity_sink env sink))
      | None \<Rightarrow>
          let source = (case strip_prefix source ''output:'' of Some r \<Rightarrow> r | None \<Rightarrow> source)
          in \<not> (dominates env (integrity_set env source) (integrity_sink env sink)
                \<or> marked \<and> endorse_raises env source sink))"

section \<open>Unwrap grants\<close>

definition owner_name :: "envelope \<Rightarrow> string" where
  "owner_name env = (case authority env of Some a \<Rightarrow> a | None \<Rightarrow> ''an envelope'')"

fun check_unwrap_list :: "envelope \<Rightarrow> unwrap_grant list \<Rightarrow> (unit, message) result" where
  "check_unwrap_list env [] = Ok ()"
| "check_unwrap_list env (grant # grants) =
     (let address = resolve env (credential grant)
      in if address \<notin> governed env then
           Err (Format ''{who} grants unwrap over credential `{}`, which it does not bind (DR-0074: an unwrap grant is owned, not composed)''
             [owner_name env, credential grant])
         else if \<not> starts_with address ''credential:'' then
           Err (Format ''{who} grants unwrap over `{}`, which binds `{address}`: an unwrap grant names a credential''
             [owner_name env, credential grant, address])
         else check_unwrap_list env grants)"

definition check_unwrap_grants_are_owned :: "envelope \<Rightarrow> (unit, message) result" where
  "check_unwrap_grants_are_owned env = check_unwrap_list env (unwrap_grants env)"

definition grants_any_unwrap :: "envelope \<Rightarrow> string \<Rightarrow> string \<Rightarrow> bool" where
  "grants_any_unwrap env cred ty \<longleftrightarrow>
     list_ex (\<lambda>g. resolve env (credential g) = resolve env cred \<and> payload_type g = ty) (unwrap_grants env)"

definition unwrap_types_for :: "envelope \<Rightarrow> string \<Rightarrow> string list" where
  "unwrap_types_for env cred =
     ascending (map payload_type (filter (\<lambda>g. resolve env (credential g) = resolve env cred) (unwrap_grants env)))"

definition may_unwrap :: "envelope \<Rightarrow> string \<Rightarrow> string \<Rightarrow> string \<Rightarrow> bool" where
  "may_unwrap env cred ty role \<longleftrightarrow>
     list_ex (\<lambda>g. resolve env (credential g) = resolve env cred \<and> payload_type g = ty
                 \<and> can_act env role (grant_role g)) (unwrap_grants env)"

definition is_internal_signal :: "envelope \<Rightarrow> string \<Rightarrow> bool" where
  "is_internal_signal env resource \<longleftrightarrow> resolve env resource \<in> internal_signals env"

definition is_internal_workflow :: "envelope \<Rightarrow> string \<Rightarrow> bool" where
  "is_internal_workflow env resource \<longleftrightarrow> resolve env resource \<in> internal_workflows env"

definition governs :: "envelope \<Rightarrow> string \<Rightarrow> bool" where
  "governs env resource \<longleftrightarrow> resolve env resource \<in> governed env"

text \<open>The two authority ceilings: a read above the principal, and a turn that scopes an ungranted unwrap.\<close>

definition principal_read :: "envelope \<Rightarrow> string \<Rightarrow> string \<Rightarrow> string \<Rightarrow> message option" where
  "principal_read env rule src principal_role =
     (if \<forall>r \<in> reader_set env src. can_act env principal_role r then None
      else Some (Format ''denied read in rule `{rule}`: the agent acts-for `{principal_role}`, which is outside `{src}`'s readers ({required}) -- an agent can never read above the user's clearance (DR-0028 D3)''
        [rule, principal_role, src, reader_label env src]))"

record access_operation =
  operation :: string
  op_target :: "string option"

record access_grant =
  grant_resource :: string
  operations :: "access_operation list"

definition unwrap_refusal :: "envelope \<Rightarrow> string \<Rightarrow> string \<Rightarrow> access_operation \<Rightarrow> message list" where
  "unwrap_refusal env rule cred op =
     (if operation op \<noteq> ''unwrap'' then []
      else case op_target op of
             None \<Rightarrow> []
           | Some ty \<Rightarrow>
               if \<not> governs env (resolve env cred) then []
               else if grants_any_unwrap env cred ty then []
               else [Format ''rule `{rule}` scopes `unwrap for {payload_type}` on credential `{credential}`, which governance grants to nobody for that type''
                      ([rule, ty, cred] @ unwrap_types_for env cred)])"

definition unwrap_diagnostics :: "envelope \<Rightarrow> string \<Rightarrow> access_grant list \<Rightarrow> message list" where
  "unwrap_diagnostics env rule grants =
     concat (map (\<lambda>g. case strip_prefix (grant_resource g) ''credential '' of
                        None \<Rightarrow> []
                      | Some cred \<Rightarrow> concat (map (unwrap_refusal env rule cred) (operations g))) grants)"

section \<open>Credentials: requests, signatures and handoffs\<close>

text \<open>\<^verbatim>\<open>rfind('/')\<close> and the text before it.\<close>

definition parent :: "string \<Rightarrow> string option" where
  "parent s = map_option (\<lambda>(a, b). rev b) (split_once (CHR ''/'') (rev s))"

lemma parent_eq: "parent s = Some p \<longleftrightarrow> (\<exists>seg. s = p @ CHR ''/'' # seg \<and> CHR ''/'' \<notin> set seg)"
proof
  assume "parent s = Some p"
  then obtain a where "split_once (CHR ''/'') (rev s) = Some (a, rev p)" by (auto simp: parent_def)
  then have a: "rev s = a @ CHR ''/'' # rev p" "CHR ''/'' \<notin> set a" by (simp_all add: split_once_eq)
  from a(1) have "rev (rev s) = rev (a @ CHR ''/'' # rev p)" by (rule arg_cong)
  then show "\<exists>seg. s = p @ CHR ''/'' # seg \<and> CHR ''/'' \<notin> set seg" using a(2) by (intro exI [of _ "rev a"]) simp
next
  assume "\<exists>seg. s = p @ CHR ''/'' # seg \<and> CHR ''/'' \<notin> set seg"
  then obtain seg where "s = p @ CHR ''/'' # seg" "CHR ''/'' \<notin> set seg" by blast
  then have "split_once (CHR ''/'') (rev s) = Some (rev seg, rev p)" by (simp add: split_once_eq)
  then show "parent s = Some p" by (simp add: parent_def)
qed

lemma parent_shorter: "parent s = Some p \<Longrightarrow> length p < length s"
  by (auto simp: parent_eq)

function credential_ancestors :: "string \<Rightarrow> string list" where
  "credential_ancestors probe =
     probe # (case parent probe of Some p \<Rightarrow> credential_ancestors p | None \<Rightarrow> [])"
  by pat_completeness auto
termination
  by (relation "measure length") (auto dest: parent_shorter)

declare credential_ancestors.simps [simp del]

fun find_map :: "('a \<Rightarrow> 'b option) \<Rightarrow> 'a list \<Rightarrow> 'b option" where
  "find_map f [] = None"
| "find_map f (x # xs) = (case f x of Some y \<Rightarrow> Some y | None \<Rightarrow> find_map f xs)"

definition named_or_bound :: "envelope \<Rightarrow> (string, 'v) bmap \<Rightarrow> string \<Rightarrow> 'v option" where
  "named_or_bound env m probe =
     (case bm_get m probe of Some v \<Rightarrow> Some v | None \<Rightarrow> bm_get m (resolve env probe))"

definition request_scope :: "envelope \<Rightarrow> string \<Rightarrow> string list option" where
  "request_scope env cred = find_map (named_or_bound env (request_scopes env)) (credential_ancestors cred)"

definition deliver_scope :: "envelope \<Rightarrow> string \<Rightarrow> string list option" where
  "deliver_scope env cred = find_map (named_or_bound env (deliver_scopes env)) (credential_ancestors cred)"

definition admits_sign :: "envelope \<Rightarrow> string \<Rightarrow> string \<Rightarrow> (unit, message) result" where
  "admits_sign env cred payload =
     (case find_map (bm_get (sign_prefixes env)) (credential_ancestors cred) of
        None \<Rightarrow>
          if \<not> list_ex (governs env) (credential_ancestors cred) then Ok ()
          else Err (Format ''governance binds credential `{credential}` but names no signing bound for it: add `grant sign {credential} for prefix <entry>` to the policy'' [cred])
      | Some granted \<Rightarrow>
          if sign_admits granted payload then Ok ()
          else Err (Format ''denied signing under `{credential}`: the payload begins with none of the granted prefixes -- a signing oracle bounded to one protocol cannot produce another's'' [cred]))"

definition admits_request ::
  "(string \<Rightarrow> (parsed_url, string) result) \<Rightarrow> envelope \<Rightarrow> string \<Rightarrow> string \<Rightarrow> string \<Rightarrow> (unit, message) result" where
  "admits_request url_parse env cred verb url =
     (case request_scope env cred of
        None \<Rightarrow>
          if \<not> list_ex (governs env) (credential_ancestors cred) then Ok ()
          else Err (Format ''governance binds credential `{credential}` but names no egress scope for it: add `grant request {credential} for <method> <url-glob>` to the policy'' [cred])
      | Some entries \<Rightarrow>
          and_then (target_parse url_parse verb url) (\<lambda>target.
          and_then (parse_scope (join '','' entries)) (\<lambda>parsed.
            if egress_admits parsed target then Ok ()
            else Err (Format ''`{}` is outside the egress scope governance grants credential `{credential}`''
              [target_render target, cred]))))"

definition admits_deliver ::
  "(string \<Rightarrow> (parsed_url, string) result) \<Rightarrow> envelope \<Rightarrow> string \<Rightarrow> string \<Rightarrow> string \<Rightarrow> (unit, message) result" where
  "admits_deliver url_parse env cred verb url =
     (case deliver_scope env cred of
        None \<Rightarrow>
          if \<not> list_ex (governs env) (credential_ancestors cred) then Ok ()
          else Err (Format ''governance binds credential `{credential}` but names no handoff scope for it: add `grant deliver {credential} for <method> <url-glob>` to the policy'' [cred])
      | Some entries \<Rightarrow>
          and_then (target_parse url_parse verb url) (\<lambda>target.
          and_then (parse_scope (join '','' entries)) (\<lambda>parsed.
            if egress_admits parsed target then Ok ()
            else Err (Format ''`{}` is outside the handoff scope governance grants credential `{credential}`''
              [target_render target, cred]))))"

section \<open>Providers and names\<close>

definition custody_demand_for :: "envelope \<Rightarrow> string \<Rightarrow> custody_class option" where
  "custody_demand_for env role = bm_get (custody_demand env) role"

definition provider_delegations :: "envelope \<Rightarrow> (string \<times> string) list" where
  "provider_delegations env =
     List.map_filter (\<lambda>(subject, role). map_option (\<lambda>provider. (provider, role)) (strip_prefix subject ''provider:'')) (deleg env)"

definition permits_capabilities :: "envelope \<Rightarrow> string list \<Rightarrow> bool" where
  "permits_capabilities env wanted \<longleftrightarrow> list_all (\<lambda>c. c \<in> capabilities env) wanted"

definition permits_provider_binding ::
  "envelope \<Rightarrow> string \<Rightarrow> string \<Rightarrow> string \<Rightarrow> string \<Rightarrow> string \<Rightarrow> string \<Rightarrow> bool" where
  "permits_provider_binding env binding_handle credential_ref provider model base_url placement_handle =
     (if provider_bindings env = [] \<and> placements env = [] then True
      else case bm_get (provider_bindings env) binding_handle of
             None \<Rightarrow> False
           | Some b \<Rightarrow>
               if pb_credential_ref b \<noteq> credential_ref \<or> pb_provider b \<noteq> provider
                  \<or> pb_model b \<noteq> model \<or> pb_base_url b \<noteq> base_url then False
               else (case bm_get (placements env) placement_handle of
                       Some placement \<Rightarrow> binding_handle \<in> pl_provider_bindings placement
                     | None \<Rightarrow> False))"

definition resolve_provider_binding :: "envelope \<Rightarrow> string \<Rightarrow> string \<Rightarrow> string \<Rightarrow> provider_binding_policy option" where
  "resolve_provider_binding env binding_handle credential_ref placement_handle =
     (case bm_get (provider_bindings env) binding_handle of
        None \<Rightarrow> None
      | Some b \<Rightarrow>
          if pb_credential_ref b \<noteq> credential_ref then None
          else (case bm_get (placements env) placement_handle of
                  Some placement \<Rightarrow> if binding_handle \<in> pl_provider_bindings placement then Some b else None
                | None \<Rightarrow> None))"

definition reject_pattern_resource :: "string \<Rightarrow> (unit, message) result" where
  "reject_pattern_resource identifier =
     (if CHR ''*'' \<in> set identifier then
        Err (Format ''governance resource `{identifier}` is a pattern; resource identities are matched exactly, so this would govern the literal text and no real resource (name the resource, or its stable binding, exactly)'' [identifier])
      else Ok ())"

definition qualify_role :: "string \<Rightarrow> string option \<Rightarrow> string" where
  "qualify_role role auth =
     (case auth of
        None \<Rightarrow> role
      | Some a \<Rightarrow>
          if role = PUBLIC \<or> split_once2 (CHR '':'') (CHR '':'') role \<noteq> None \<or> CHR '':'' \<in> set role then role
          else a @ ''::'' @ role)"

definition qualify_role_set :: "string set \<Rightarrow> string option \<Rightarrow> string set" where
  "qualify_role_set roles auth = (\<lambda>role. qualify_role role auth) ` roles"

definition clause_head :: "string \<Rightarrow> bool" where
  "clause_head tok \<longleftrightarrow> tok \<in> {''readable'', ''from'', ''egress'', ''internal'', ''sealed'', ''audience''}"

definition label_clause_end :: "string list \<Rightarrow> nat \<Rightarrow> nat" where
  "label_clause_end label start =
     (case List.find (\<lambda>i. clause_head (label ! i)) [start..<length label] of
        Some i \<Rightarrow> i | None \<Rightarrow> length label)"

definition collect_role_set :: "string list \<Rightarrow> string set" where
  "collect_role_set tokens =
     {role \<in> set (concat (map (\<lambda>token. map trim (split_char (CHR '','') token)) tokens)). role \<noteq> [] \<and> role \<noteq> PUBLIC}"

end
