(* ===== verification/Ifc_Flow.thy ===== *)
theory Ifc_Flow
  imports Ifc_Envelope
begin

text \<open>
  What the decisions of an envelope mean: the acts-for walk computes reachability and ends, a
  flow it calls leak-free widens nobody's access and composes along paths, and a credential
  under management reaches only where the nearest list on its name says.
\<close>

section \<open>Acts-for is reachability\<close>

lemma set_targets: "set (targets edges x) = set edges `` {x}"
  by (auto simp: targets_def image_iff)

lemma acts_walk_sound: "acts_for_walk edges q frontier visited \<Longrightarrow> \<exists>x. x \<in> set frontier \<and> (x, q) \<in> (set edges)\<^sup>*"
proof (induction edges q frontier visited rule: acts_for_walk.induct)
  case (2 edges q current frontier visited)
  then show ?case
    by (auto simp: set_targets split: if_splits intro: converse_rtrancl_into_rtrancl)
qed simp

text \<open>When the walk fails it has closed a set of roles under the edges that leaves the target out.\<close>

lemma acts_walk_complete:
  assumes "\<not> acts_for_walk edges q frontier visited" "q \<notin> visited" "set edges `` visited \<subseteq> visited \<union> set frontier"
  shows "\<exists>C. visited \<union> set frontier \<subseteq> C \<and> q \<notin> C \<and> set edges `` C \<subseteq> C"
  using assms
proof (induction edges q frontier visited rule: acts_for_walk.induct)
  case (1 edges q visited)
  then show ?case by (intro exI [of _ visited]) simp
next
  case (2 edges q current frontier visited)
  from "2.prems"(1) have "current \<noteq> q" by auto
  show ?case
  proof (cases "current \<in> visited")
    case True
    then have "set edges `` visited \<subseteq> visited \<union> set frontier" using "2.prems"(3) by auto
    moreover have "\<not> acts_for_walk edges q frontier visited" using "2.prems"(1) True \<open>current \<noteq> q\<close> by simp
    ultimately obtain C where "visited \<union> set frontier \<subseteq> C" "q \<notin> C" "set edges `` C \<subseteq> C"
      using "2.IH"(1) [OF \<open>current \<noteq> q\<close> True] "2.prems"(2) by blast
    then show ?thesis using True by (intro exI [of _ C]) auto
  next
    case False
    have "\<not> acts_for_walk edges q (rev (targets edges current) @ frontier) (insert current visited)"
      using "2.prems"(1) False \<open>current \<noteq> q\<close> by simp
    moreover have "q \<notin> insert current visited" using "2.prems"(2) \<open>current \<noteq> q\<close> by simp
    moreover have "set edges `` insert current visited \<subseteq> insert current visited \<union> set (rev (targets edges current) @ frontier)"
      using "2.prems"(3) by (auto simp: set_targets)
    ultimately obtain C where "insert current visited \<union> set (rev (targets edges current) @ frontier) \<subseteq> C"
        "q \<notin> C" "set edges `` C \<subseteq> C"
      using "2.IH"(2) [OF \<open>current \<noteq> q\<close> False] by blast
    then show ?thesis by (intro exI [of _ C]) auto
  qed
qed

lemma closed_rtrancl: "(x, y) \<in> R\<^sup>* \<Longrightarrow> x \<in> C \<Longrightarrow> R `` C \<subseteq> C \<Longrightarrow> y \<in> C"
  by (induction rule: rtrancl_induct) auto

lemma acts_walk_iff: "acts_for_walk edges q [p] {} \<longleftrightarrow> (p, q) \<in> (set edges)\<^sup>*"
proof
  show "(p, q) \<in> (set edges)\<^sup>*" if "acts_for_walk edges q [p] {}"
    using acts_walk_sound [OF that] by simp
  show "acts_for_walk edges q [p] {}" if "(p, q) \<in> (set edges)\<^sup>*"
  proof (rule ccontr)
    assume "\<not> acts_for_walk edges q [p] {}"
    then obtain C where "p \<in> C" "q \<notin> C" "set edges `` C \<subseteq> C"
      using acts_walk_complete [of edges q "[p]" "{}"] by auto
    then show False using closed_rtrancl that by metis
  qed
qed

lemma acts_for_iff:
  "acts_for_over edges p q \<longleftrightarrow> q = PUBLIC \<or> p = q \<or> p \<noteq> PUBLIC \<and> (p, q) \<in> (set edges)\<^sup>*"
  unfolding acts_for_over_def acts_walk_iff by auto

text \<open>
  C23. The acts-for walk ends on every set of delegation edges, cyclic ones included, and decides
  reachability: one role acts for another when the other is public, when they are the same, or
  when the first is not public and edges lead from it to the second.
\<close>

theorem acts_for_is_reachability:
  "acts_for_over edges p q \<longleftrightarrow> q = PUBLIC \<or> p = q \<or> p \<noteq> PUBLIC \<and> (p, q) \<in> (set edges)\<^sup>*"
  by (rule acts_for_iff)

section \<open>Covering a label\<close>

definition covers :: "('r \<Rightarrow> 'r \<Rightarrow> bool) \<Rightarrow> 'r set \<Rightarrow> 'r set \<Rightarrow> bool" where
  "covers acts provider required \<longleftrightarrow> (\<forall>req \<in> required. \<exists>prov \<in> provider. acts prov req)"

lemma covers_mono:
  "covers acts P R \<Longrightarrow> P \<subseteq> P' \<Longrightarrow> R' \<subseteq> R \<Longrightarrow> (\<And>a b. acts a b \<Longrightarrow> acts' a b) \<Longrightarrow> covers acts' P' R'"
  unfolding covers_def by blast

text \<open>What the flow checks rely on: acting for is reflexive and transitive.\<close>

locale acting_for =
  fixes acts :: "'r \<Rightarrow> 'r \<Rightarrow> bool"
  assumes acts_refl: "acts p p"
    and acts_trans: "acts p q \<Longrightarrow> acts q r \<Longrightarrow> acts p r"
begin

lemma covers_refl: "covers acts S S"
  unfolding covers_def using acts_refl by blast

lemma covers_trans: "covers acts A B \<Longrightarrow> covers acts B C \<Longrightarrow> covers acts A C"
  unfolding covers_def using acts_trans by meson

lemma covered_is_cleared: "covers acts P R \<Longrightarrow> \<forall>r \<in> P. acts x r \<Longrightarrow> \<forall>r \<in> R. acts x r"
  unfolding covers_def using acts_trans by meson

end

interpretation edge_acts: acting_for "acts_for_over edges" for edges
  by unfold_locales (auto simp: acts_for_iff)

lemma can_act_fun: "can_act env = acts_for_over (deleg env)"
  by (intro ext) (simp add: can_act_def)

lemma dominates_covers: "dominates env = covers (acts_for_over (deleg env))"
  by (intro ext) (simp add: dominates_def covers_def can_act_def)

lemma not_leaks_iff:
  "\<not> leaks env source sink \<longleftrightarrow>
     dominates env (reader_sink env sink) (reader_set env source)
     \<and> (\<forall>c. custodian_reader_of env sink = Some c \<longrightarrow> dominates env {c} (reader_set env source))"
  by (auto simp: leaks_def uncleared_custodian_def split: option.splits if_splits)

section \<open>Leaks\<close>

text \<open>A party enrolled with exactly some clearances, under a name no edge mentions.\<close>

definition enrol :: "string \<Rightarrow> string list \<Rightarrow> (string \<times> string) list \<Rightarrow> (string \<times> string) list" where
  "enrol x roles edges = map (\<lambda>r. (x, r)) roles @ edges"

lemma enrolled_reach:
  assumes fresh: "x \<notin> fst ` set edges" "x \<notin> snd ` set edges" "x \<notin> set roles" and "r \<noteq> x"
  shows "(x, r) \<in> (set (enrol x roles edges))\<^sup>* \<longleftrightarrow> (\<exists>s. s \<in> set roles \<and> (s, r) \<in> (set edges)\<^sup>*)"
proof
  have stays: "(s, t) \<in> (set edges)\<^sup>* \<and> t \<noteq> x" if "(s, t) \<in> (set (enrol x roles edges))\<^sup>*" "s \<noteq> x" for s t
    using that
  proof (induction rule: rtrancl_induct)
    case (step y z)
    then have "(y, z) \<in> set edges" by (auto simp: enrol_def)
    then show ?case using step fresh(2) by (force intro: rtrancl_into_rtrancl)
  qed simp
  assume "(x, r) \<in> (set (enrol x roles edges))\<^sup>*"
  then obtain s where "(x, s) \<in> set (enrol x roles edges)" "(s, r) \<in> (set (enrol x roles edges))\<^sup>*"
    using \<open>r \<noteq> x\<close> by (metis converse_rtranclE)
  moreover from this(1) have "s \<in> set roles" "s \<noteq> x" using fresh by (force simp: enrol_def)+
  ultimately show "\<exists>s. s \<in> set roles \<and> (s, r) \<in> (set edges)\<^sup>*" using stays by blast
next
  assume "\<exists>s. s \<in> set roles \<and> (s, r) \<in> (set edges)\<^sup>*"
  then obtain s where "s \<in> set roles" "(s, r) \<in> (set edges)\<^sup>*" by blast
  moreover have "(set edges)\<^sup>* \<subseteq> (set (enrol x roles edges))\<^sup>*" by (rule rtrancl_mono) (simp add: enrol_def)
  ultimately have "(x, s) \<in> set (enrol x roles edges)" "(s, r) \<in> (set (enrol x roles edges))\<^sup>*"
    by (auto simp: enrol_def)
  then show "(x, r) \<in> (set (enrol x roles edges))\<^sup>*" by (rule converse_rtrancl_into_rtrancl)
qed

lemma enrolled_acts:
  assumes "x \<notin> fst ` set edges" "x \<notin> snd ` set edges" "x \<notin> set roles" "x \<noteq> PUBLIC" "PUBLIC \<notin> set roles"
    and "r \<noteq> x" "r \<noteq> PUBLIC"
  shows "acts_for_over (enrol x roles edges) x r \<longleftrightarrow> (\<exists>s \<in> set roles. acts_for_over edges s r)"
proof -
  have "acts_for_over edges s r \<longleftrightarrow> (s, r) \<in> (set edges)\<^sup>*" if "s \<in> set roles" for s
    using that assms(5,7) by (auto simp: acts_for_iff)
  then show ?thesis
    using assms(4,6,7) enrolled_reach [OF assms(1-3,6)] by (auto simp: acts_for_iff [of "enrol x roles edges"])
qed

text \<open>
  C21. The leak decision is exact. Where no custodian reads the sink, take any party under a
  name the policy does not mention and clear it for exactly the readers of the sink: the flow
  is refused just when that party would not be cleared for some compartment of the source.
  Where a custodian does read the sink, a flow is let through only if the custodian too is
  cleared for every compartment of the source.
\<close>

theorem leak_decision_exact:
  assumes "set roster = reader_sink env sink" "PUBLIC \<notin> reader_sink env sink" "PUBLIC \<notin> reader_set env source"
    and "x \<notin> fst ` set (deleg env)" "x \<notin> snd ` set (deleg env)" "x \<noteq> PUBLIC"
      "x \<notin> reader_sink env sink" "x \<notin> reader_set env source"
  shows "leaks env source sink \<longleftrightarrow>
     (\<exists>r \<in> reader_set env source. \<not> acts_for_over (enrol x roster (deleg env)) x r)
     \<or> (\<exists>c. custodian_reader_of env sink = Some c \<and> (\<exists>r \<in> reader_set env source. \<not> can_act env c r))"
proof -
  have "acts_for_over (enrol x roster (deleg env)) x r \<longleftrightarrow> (\<exists>s \<in> reader_sink env sink. acts_for_over (deleg env) s r)"
    if "r \<in> reader_set env source" for r
    using that assms enrolled_acts [of x "deleg env" roster r] by auto
  then have "dominates env (reader_sink env sink) (reader_set env source) \<longleftrightarrow>
      (\<forall>r \<in> reader_set env source. acts_for_over (enrol x roster (deleg env)) x r)"
    by (simp add: dominates_covers covers_def)
  moreover have "(\<exists>c. custodian_reader_of env sink = Some c \<and> \<not> dominates env {c} (reader_set env source)) \<longleftrightarrow>
      (\<exists>c. custodian_reader_of env sink = Some c \<and> (\<exists>r \<in> reader_set env source. \<not> can_act env c r))"
    by (simp add: dominates_def)
  ultimately show ?thesis using not_leaks_iff [of env source sink] by blast
qed

definition blank_envelope :: envelope where
  "blank_envelope =
     \<lparr>readers = [], governed = {}, authority = None, requires_authority = {}, policy_lifetime = None,
      exposes = [], attachments = [], deleg = [], declassify = [], integrity = [], endorse = [],
      unwrap_grants = [], request_scopes = [], sign_prefixes = [], deliver_scopes = [],
      confined_egress = {}, custodian_role = None, internal_signals = {}, mcp_min_rung = None,
      credential_min_rung = None, custody_demand = [], require_verified = {}, internal_workflows = {},
      principals = {}, address_of = [], party_of = [], guarantees = [], capabilities = {},
      provider_bindings = [], placements = []\<rparr>"

definition sample_envelope :: envelope where
  "sample_envelope =
     blank_envelope\<lparr>readers := [(''ledger'', both {''Auditor''}), (''outbox'', both {''Operator''}), (''vault'', both {''Auditor'', ''Legal''})],
       deleg := [(''Auditor'', ''Operator''), (''Operator'', ''Clerk'')]\<rparr>"

theorem leak_decision_exact_witness:
  "leaks sample_envelope ''ledger'' ''outbox'' \<and> \<not> leaks sample_envelope ''outbox'' ''ledger''"
proof -
  have "leaks sample_envelope ''ledger'' ''outbox'' \<longleftrightarrow> True"
    by (subst leak_decision_exact [of "[''Operator'']" _ _ _ "''fresh''"])
      (simp_all add: sample_envelope_def blank_envelope_def reader_set_def reader_sink_def resolve_def both_def PUBLIC_def
        enrol_def acts_for_over_def targets_def)
  moreover have "leaks sample_envelope ''outbox'' ''ledger'' \<longleftrightarrow> False"
    by (subst leak_decision_exact [of "[''Auditor'']" _ _ _ "''fresh''"])
      (simp_all add: sample_envelope_def blank_envelope_def reader_set_def reader_sink_def resolve_def both_def PUBLIC_def
        enrol_def acts_for_over_def targets_def custodian_reader_of_def)
  ultimately show ?thesis by simp
qed

lemma successively_through:
  assumes "successively R (a # path)" "path \<noteq> []"
    and "\<And>m u v. m \<in> set (butlast path) \<Longrightarrow> R u m \<Longrightarrow> R m v \<Longrightarrow> R u v"
  shows "R a (last path)"
  using assms
proof (induction path arbitrary: a)
  case (Cons b path)
  show ?case
  proof (cases "path = []")
    case False
    then have "R b (last path)" using Cons by (intro Cons.IH) (auto simp: successively_Cons)
    then show ?thesis using False Cons.prems(1) Cons.prems(3) [of b] by simp
  qed (use Cons.prems(1) in simp)
next
  case Nil
  from Nil.prems(2) show ?case by simp
qed

lemma leak_free_trans:
  assumes "reader_set env m = reader_sink env m" "\<not> leaks env a m" "\<not> leaks env m b"
  shows "\<not> leaks env a b"
proof -
  have "dominates env (reader_sink env m) (reader_set env a)" using assms(2) by (simp add: not_leaks_iff)
  then have "dominates env P (reader_set env m) \<Longrightarrow> dominates env P (reader_set env a)" for P
    unfolding dominates_covers assms(1) by (rule edge_acts.covers_trans [rotated])
  then show ?thesis using assms(3) unfolding not_leaks_iff by blast
qed

lemma inject_free_trans:
  assumes "integrity_set env m = integrity_sink env m" "\<not> injects env a m" "\<not> injects env m b"
  shows "\<not> injects env a b"
  using assms edge_acts.covers_trans [of "deleg env" "integrity_set env a" "integrity_sink env m" "integrity_sink env b"]
  unfolding injects_def dominates_covers by simp

text \<open>The resource an influence is read from: an output token stands for its resource.\<close>

definition influence_source :: "string \<Rightarrow> string" where
  "influence_source source = (case strip_prefix source ''output:'' of Some r \<Rightarrow> r | None \<Rightarrow> source)"

text \<open>The walk's check of an unmarked crossing is the raw relation from that resource.\<close>

lemma flow_injects_unmarked: "flow_injects env source sink None False \<longleftrightarrow> injects env (influence_source source) sink"
  by (simp add: flow_injects_def injects_def influence_source_def Let_def)

lemma flow_inject_free_trans:
  assumes "integrity_set env (influence_source m) = integrity_sink env m"
    and "\<not> flow_injects env a m None False" "\<not> flow_injects env m b None False"
  shows "\<not> flow_injects env a b None False"
  using assms edge_acts.covers_trans [of "deleg env" "integrity_set env (influence_source a)" "integrity_sink env m" "integrity_sink env b"]
  unfolding flow_injects_unmarked injects_def dominates_covers by simp

text \<open>
  C22. Checks made hop by hop confine a flow from end to end. Along a path of resources whose
  inner ones read and write under one label, if no hop leaks then writing the first into the
  last does not leak, and if no hop injects then driving the last from the first does not
  inject; the latter holds of the raw relation and of the check the walk makes.
\<close>

theorem hop_checks_confine_paths:
  assumes "path \<noteq> []"
  shows "(successively (\<lambda>a b. \<not> leaks env a b) (a # path)
          \<and> (\<forall>m \<in> set (butlast path). reader_set env m = reader_sink env m) \<longrightarrow> \<not> leaks env a (last path))
       \<and> (successively (\<lambda>a b. \<not> injects env a b) (a # path)
          \<and> (\<forall>m \<in> set (butlast path). integrity_set env m = integrity_sink env m) \<longrightarrow> \<not> injects env a (last path))
       \<and> (successively (\<lambda>a b. \<not> flow_injects env a b None False) (a # path)
          \<and> (\<forall>m \<in> set (butlast path). integrity_set env (influence_source m) = integrity_sink env m)
          \<longrightarrow> \<not> flow_injects env a (last path) None False)"
proof (intro conjI impI; elim conjE)
  assume "successively (\<lambda>a b. \<not> leaks env a b) (a # path)" and
    "\<forall>m \<in> set (butlast path). reader_set env m = reader_sink env m"
  then show "\<not> leaks env a (last path)"
    using successively_through [of "\<lambda>a b. \<not> leaks env a b"] assms leak_free_trans by blast
next
  assume "successively (\<lambda>a b. \<not> injects env a b) (a # path)" and
    "\<forall>m \<in> set (butlast path). integrity_set env m = integrity_sink env m"
  then show "\<not> injects env a (last path)"
    using successively_through [of "\<lambda>a b. \<not> injects env a b"] assms inject_free_trans by blast
next
  assume "successively (\<lambda>a b. \<not> flow_injects env a b None False) (a # path)" and
    "\<forall>m \<in> set (butlast path). integrity_set env (influence_source m) = integrity_sink env m"
  then show "\<not> flow_injects env a (last path) None False"
    using successively_through [of "\<lambda>a b. \<not> flow_injects env a b None False"] assms flow_inject_free_trans by blast
qed

theorem hop_checks_confine_paths_witness:
  "\<not> leaks sample_envelope ''outbox'' ''vault'' \<and> \<not> injects sample_envelope ''outbox'' ''vault''
   \<and> \<not> flow_injects sample_envelope ''output:outbox'' ''vault'' None False"
proof -
  have hops: "\<not> leaks sample_envelope ''outbox'' ''ledger''" "\<not> leaks sample_envelope ''ledger'' ''vault''"
    by (simp_all add: not_leaks_iff dominates_def can_act_def acts_for_over_def targets_def custodian_reader_of_def
        sample_envelope_def blank_envelope_def reader_set_def reader_sink_def resolve_def both_def PUBLIC_def)
  have "reader_set sample_envelope ''ledger'' = reader_sink sample_envelope ''ledger''"
    by (simp add: reader_set_def reader_sink_def sample_envelope_def blank_envelope_def both_def resolve_def)
  moreover have "\<not> injects sample_envelope a b" "integrity_set sample_envelope a = integrity_sink sample_envelope a" for a b
    by (simp_all add: injects_def dominates_def integrity_sink_def integrity_set_def sample_envelope_def blank_envelope_def)
  moreover from this have "\<not> flow_injects sample_envelope a b None False" for a b by (simp add: flow_injects_unmarked)
  moreover have "integrity_set sample_envelope (influence_source a) = integrity_sink sample_envelope a" for a
    by (simp add: integrity_sink_def integrity_set_def sample_envelope_def blank_envelope_def)
  ultimately show ?thesis
    using hop_checks_confine_paths [of "[''ledger'', ''vault'']" sample_envelope "''outbox''"]
      hop_checks_confine_paths [of "[''ledger'', ''vault'']" sample_envelope "''output:outbox''"] hops by simp
qed

section \<open>Where a credential reaches\<close>

text \<open>A name is within another when it is that name or continues it after a slash.\<close>

definition within :: "string \<Rightarrow> string \<Rightarrow> bool" where
  "within c p \<longleftrightarrow> c = p \<or> (\<exists>rest. c = p @ CHR ''/'' # rest)"

lemma parent_None: "parent s = None \<longleftrightarrow> CHR ''/'' \<notin> set s"
  by (simp add: parent_def split_once_None)

lemma within_step:
  assumes "parent c = Some q"
  shows "within c p \<longleftrightarrow> p = c \<or> within q p"
proof
  obtain seg where c: "c = q @ CHR ''/'' # seg" "CHR ''/'' \<notin> set seg" using assms by (auto simp: parent_eq)
  assume "within c p"
  then consider "p = c" | rest where "q @ CHR ''/'' # seg = p @ CHR ''/'' # rest" by (auto simp: within_def c)
  then show "p = c \<or> within q p"
  proof cases
    case 2
    then consider us where "p @ us = q" "us @ CHR ''/'' # seg = CHR ''/'' # rest"
      | us where "p = q @ us" "us @ CHR ''/'' # rest = CHR ''/'' # seg"
      by (auto simp: append_eq_append_conv2)
    then show ?thesis
    proof cases
      case (1 us)
      then show ?thesis by (cases us) (auto simp: within_def)
    next
      case (2 us)
      then show ?thesis using c(2) by (cases us) (auto simp: within_def)
    qed
  qed simp
next
  assume "p = c \<or> within q p"
  then show "within c p" using assms by (auto simp: within_def parent_eq)
qed

lemma set_ancestors: "p \<in> set (credential_ancestors c) \<longleftrightarrow> within c p"
proof (induction c rule: credential_ancestors.induct)
  case (1 c)
  show ?case
  proof (cases "parent c")
    case None
    then have "CHR ''/'' \<notin> set c" by (simp add: parent_None)
    then show ?thesis using None by (auto simp: credential_ancestors.simps [of c] within_def)
  next
    case (Some q)
    then show ?thesis using 1 [OF Some] within_step [OF Some] by (simp add: credential_ancestors.simps [of c])
  qed
qed

lemma within_length: "within c p \<Longrightarrow> length p \<le> length c"
  by (auto simp: within_def)

lemma ancestors_descending: "sorted_wrt (\<lambda>a b. length b < length a) (credential_ancestors c)"
proof (induction c rule: credential_ancestors.induct)
  case (1 c)
  show ?case
  proof (cases "parent c")
    case (Some q)
    have "length p < length c" if "p \<in> set (credential_ancestors q)" for p
      using that within_length parent_shorter [OF Some] by (force simp: set_ancestors)
    then show ?thesis using Some 1 [OF Some] by (simp add: credential_ancestors.simps [of c])
  qed (simp add: credential_ancestors.simps [of c])
qed

lemma find_map_None: "find_map f xs = None \<longleftrightarrow> (\<forall>x. x \<in> set xs \<longrightarrow> f x = None)"
  by (induction xs) (auto split: option.splits)

lemma find_map_Some:
  "find_map f xs = Some y \<Longrightarrow> sorted_wrt R xs \<Longrightarrow>
     \<exists>x. x \<in> set xs \<and> f x = Some y \<and> (\<forall>z. z \<in> set xs \<longrightarrow> z = x \<or> R x z \<or> f z = None)"
proof (induction xs)
  case (Cons a xs)
  then show ?case by (cases "f a") (auto intro: exI [of _ a])
qed simp

text \<open>The nearest name on the way up for which a lookup finds something.\<close>

definition nearest :: "(string \<Rightarrow> 'v option) \<Rightarrow> string \<Rightarrow> string \<Rightarrow> 'v \<Rightarrow> bool" where
  "nearest look c p v \<longleftrightarrow>
     within c p \<and> look p = Some v \<and> (\<forall>p'. within c p' \<longrightarrow> length p < length p' \<longrightarrow> look p' = None)"

lemma find_map_nearest: "find_map look (credential_ancestors c) = Some v \<Longrightarrow> \<exists>p. nearest look c p v"
  using find_map_Some [OF _ ancestors_descending] unfolding nearest_def set_ancestors
  by (metis less_irrefl_nat less_not_sym)

lemma ungoverned_refused: "within c p \<Longrightarrow> governs env p \<Longrightarrow> list_ex (governs env) (credential_ancestors c)"
  by (auto simp: list_ex_iff set_ancestors)

text \<open>A target confined by a list: some entry of the parsed list describes each of its components.\<close>

definition confined_by :: "string list \<Rightarrow> egress_target \<Rightarrow> bool" where
  "confined_by entries t \<longleftrightarrow>
     (\<exists>parsed e. parse_scope (join '','' entries) = Ok parsed \<and> e \<in> set parsed \<and> entry_ok e
        \<and> e_scheme e = t_scheme t \<and> e_method e \<in> {None, Some (t_method t)}
        \<and> glob_spec (e_host e) (t_host t) \<and> glob_spec (e_path e) (t_path t))"

lemma admitted_confined:
  assumes "parse_scope (join '','' entries) = Ok parsed" "egress_admits parsed t"
  shows "confined_by entries t"
proof -
  obtain e where "e \<in> set parsed" "entry_admits e t" using assms(2) by (auto simp: egress_admits_def list_ex_iff)
  then show ?thesis
    using assms(1) parse_scope_ok(2) [OF assms(1)]
    by (auto simp: confined_by_def entry_admits_def list_all_iff glob_sound split: option.splits)
qed

text \<open>Requests and handoffs are decided alike, each under its own lookup.\<close>

lemma scoped_admission:
  assumes "(case find_map look (credential_ancestors c) of
      None \<Rightarrow> if \<not> bound then Ok () else Err e
    | Some entries \<Rightarrow>
        and_then target (\<lambda>t. and_then (parse_scope (join '','' entries)) (\<lambda>parsed.
          if egress_admits parsed t then Ok () else Err (refusal t)))) = Ok ()" and bound
  shows "\<exists>p entries t. nearest look c p entries \<and> target = Ok t \<and> confined_by entries t"
proof (cases "find_map look (credential_ancestors c)")
  case None
  with assms show ?thesis by simp
next
  case (Some entries)
  from find_map_nearest [OF this] obtain p where "nearest look c p entries" by blast
  moreover obtain t parsed where "target = Ok t" "parse_scope (join '','' entries) = Ok parsed" "egress_admits parsed t"
    using assms(1) Some by (auto simp: res_simps split: if_splits)
  ultimately show ?thesis using admitted_confined by blast
qed

text \<open>
  C24. A credential under management fails closed. If governance binds a credential or any name
  above it, then a request under it, its handoff, or a signature with it is admitted only when
  the nearest name at or above it that has a list for that act admits it: the url parses and
  an entry of that list describes scheme, method, host and path of the target, or the payload
  begins with a granted prefix. The lists for requests and for handoffs are never exchanged.
\<close>

theorem governed_credentials_fail_closed:
  assumes "within cred owner" "governs env owner"
  shows "(admits_request url_parse env cred verb url = Ok () \<longrightarrow>
            (\<exists>p entries t. nearest (named_or_bound env (request_scopes env)) cred p entries
               \<and> target_parse url_parse verb url = Ok t \<and> confined_by entries t))
       \<and> (admits_deliver url_parse env cred verb url = Ok () \<longrightarrow>
            (\<exists>p entries t. nearest (named_or_bound env (deliver_scopes env)) cred p entries
               \<and> target_parse url_parse verb url = Ok t \<and> confined_by entries t))
       \<and> (admits_sign env cred payload = Ok () \<longrightarrow>
            (\<exists>p granted pre. nearest (bm_get (sign_prefixes env)) cred p granted
               \<and> pre \<in> set granted \<and> starts_with payload pre))"
proof (intro conjI impI)
  note bound = ungoverned_refused [OF assms]
  show "\<exists>p entries t. nearest (named_or_bound env (request_scopes env)) cred p entries
      \<and> target_parse url_parse verb url = Ok t \<and> confined_by entries t"
    if "admits_request url_parse env cred verb url = Ok ()"
    using that bound unfolding admits_request_def request_scope_def by (rule scoped_admission)
  show "\<exists>p entries t. nearest (named_or_bound env (deliver_scopes env)) cred p entries
      \<and> target_parse url_parse verb url = Ok t \<and> confined_by entries t"
    if "admits_deliver url_parse env cred verb url = Ok ()"
    using that bound unfolding admits_deliver_def deliver_scope_def by (rule scoped_admission)
  show "\<exists>p granted pre. nearest (bm_get (sign_prefixes env)) cred p granted
      \<and> pre \<in> set granted \<and> starts_with payload pre" if "admits_sign env cred payload = Ok ()"
  proof (cases "find_map (bm_get (sign_prefixes env)) (credential_ancestors cred)")
    case None
    with that bound show ?thesis by (simp add: admits_sign_def)
  next
    case (Some granted)
    with that have "sign_admits granted payload" by (simp add: admits_sign_def split: if_splits)
    then show ?thesis using find_map_nearest [OF Some] by (auto simp: sign_admits_def list_ex_iff)
  qed
qed

definition mint_envelope :: "(string \<times> string list) list \<Rightarrow> envelope" where
  "mint_envelope scopes = blank_envelope\<lparr>governed := {''acme/key''}, request_scopes := scopes\<rparr>"

definition sample_url :: "string \<Rightarrow> (parsed_url, string) result" where
  "sample_url url = Ok \<lparr>url_scheme = ''https'', url_host = Some ''api.acme.com'', url_port = None, url_path = url\<rparr>"

text \<open>A mint inherits the list of its parent, and is refused when the parent has none.\<close>

theorem governed_credentials_fail_closed_witness:
  "admits_request sample_url (mint_envelope []) ''acme/key/mint-1'' ''GET'' ''/v1'' \<noteq> Ok ()
   \<and> admits_request sample_url (mint_envelope [(''acme/key'', [''https://api.acme.com/v1''])]) ''acme/key/mint-1'' ''GET'' ''/v1'' = Ok ()"
proof
  have mint: "within ''acme/key/mint-1'' ''acme/key''" by (simp add: within_def)
  have bound: "governs (mint_envelope []) ''acme/key''"
    by (simp add: governs_def mint_envelope_def blank_envelope_def resolve_def)
  show "admits_request sample_url (mint_envelope []) ''acme/key/mint-1'' ''GET'' ''/v1'' \<noteq> Ok ()"
  proof
    assume "admits_request sample_url (mint_envelope []) ''acme/key/mint-1'' ''GET'' ''/v1'' = Ok ()"
    then obtain p entries where "nearest (named_or_bound (mint_envelope []) (request_scopes (mint_envelope []))) ''acme/key/mint-1'' p entries"
      using governed_credentials_fail_closed [OF mint bound] by blast
    then show False by (simp add: nearest_def named_or_bound_def mint_envelope_def blank_envelope_def)
  qed
  show "admits_request sample_url (mint_envelope [(''acme/key'', [''https://api.acme.com/v1''])]) ''acme/key/mint-1'' ''GET'' ''/v1'' = Ok ()"
    by code_simp
qed

text \<open>The names above a name below another: those in between, then those above the other.\<close>

lemma ancestors_through:
  "within c p \<Longrightarrow> \<exists>mid. credential_ancestors c = mid @ credential_ancestors p
     \<and> (\<forall>q. q \<in> set mid \<longleftrightarrow> within c q \<and> length p < length q)"
proof (induction c rule: credential_ancestors.induct)
  case (1 c)
  show ?case
  proof (cases "p = c")
    case True
    then show ?thesis using within_length by (intro exI [of _ "[]"]) (force simp: not_less)
  next
    case False
    then have "parent c \<noteq> None" using "1.prems" by (auto simp: parent_None within_def)
    then obtain q where q: "parent c = Some q" "within q p" using "1.prems" False within_step by blast
    from "1.IH" [OF q] obtain mid where mid: "credential_ancestors q = mid @ credential_ancestors p"
      "\<forall>r. r \<in> set mid \<longleftrightarrow> within q r \<and> length p < length r" by blast
    have "length p < length c" using parent_shorter [OF q(1)] within_length [OF q(2)] by simp
    then show ?thesis using mid q within_step [OF q(1)]
      by (intro exI [of _ "c # mid"]) (auto simp: credential_ancestors.simps [of c])
  qed
qed

lemma find_map_append: "find_map f (xs @ ys) = (case find_map f xs of Some y \<Rightarrow> Some y | None \<Rightarrow> find_map f ys)"
  by (induction xs) (auto split: option.splits)

text \<open>A name with no list of its own, nor one in between, has the list of the name above.\<close>

lemma inherited:
  assumes "within child par" and "\<forall>q. within child q \<and> length par < length q \<longrightarrow> look q = None"
  shows "find_map look (credential_ancestors child) = find_map look (credential_ancestors par)"
    and "list_ex (governs env) (credential_ancestors child) \<longleftrightarrow>
      list_ex (governs env) (credential_ancestors par) \<or> (\<exists>q. within child q \<and> length par < length q \<and> governs env q)"
proof -
  from ancestors_through [OF assms(1)] obtain mid where mid: "credential_ancestors child = mid @ credential_ancestors par"
    "\<forall>q. q \<in> set mid \<longleftrightarrow> within child q \<and> length par < length q" by blast
  have "find_map look mid = None" using assms(2) mid(2) by (simp add: find_map_None)
  then show "find_map look (credential_ancestors child) = find_map look (credential_ancestors par)"
    by (simp add: mid(1) find_map_append)
  show "list_ex (governs env) (credential_ancestors child) \<longleftrightarrow>
      list_ex (governs env) (credential_ancestors par) \<or> (\<exists>q. within child q \<and> length par < length q \<and> governs env q)"
    using mid(2) by (auto simp: mid(1) list_ex_iff)
qed

text \<open>
  C39. A mint reaches as far as the credential it was minted from, as long as the policy has no list for
  a name below that one. For requests, handoffs and signatures alike: the child is admitted exactly
  when the parent is and, where no list applies at all, governance binds no name in between. So
  such a child never reaches further.
\<close>

theorem unlisted_mint_reaches_no_further:
  assumes "within child par"
    and "\<forall>q. within child q \<and> length par < length q \<longrightarrow>
      named_or_bound env (request_scopes env) q = None \<and> named_or_bound env (deliver_scopes env) q = None
      \<and> bm_get (sign_prefixes env) q = None"
  shows "(admits_request url_parse env child verb url = Ok () \<longleftrightarrow>
            admits_request url_parse env par verb url = Ok ()
            \<and> (request_scope env par = None \<longrightarrow> \<not> (\<exists>q. within child q \<and> length par < length q \<and> governs env q)))
       \<and> (admits_deliver url_parse env child verb url = Ok () \<longleftrightarrow>
            admits_deliver url_parse env par verb url = Ok ()
            \<and> (deliver_scope env par = None \<longrightarrow> \<not> (\<exists>q. within child q \<and> length par < length q \<and> governs env q)))
       \<and> (admits_sign env child payload = Ok () \<longleftrightarrow>
            admits_sign env par payload = Ok ()
            \<and> (find_map (bm_get (sign_prefixes env)) (credential_ancestors par) = None
               \<longrightarrow> \<not> (\<exists>q. within child q \<and> length par < length q \<and> governs env q)))"
proof (intro conjI)
  note bound = inherited(2) [OF assms(1), of "\<lambda>_. None" env, simplified]
  have "find_map (named_or_bound env (request_scopes env)) (credential_ancestors child) =
      find_map (named_or_bound env (request_scopes env)) (credential_ancestors par)"
    by (rule inherited(1) [OF assms(1)]) (use assms(2) in blast)
  then show "admits_request url_parse env child verb url = Ok () \<longleftrightarrow> admits_request url_parse env par verb url = Ok ()
      \<and> (request_scope env par = None \<longrightarrow> \<not> (\<exists>q. within child q \<and> length par < length q \<and> governs env q))"
    unfolding admits_request_def request_scope_def bound by (auto simp: res_simps split: option.splits if_splits)
  have "find_map (named_or_bound env (deliver_scopes env)) (credential_ancestors child) =
      find_map (named_or_bound env (deliver_scopes env)) (credential_ancestors par)"
    by (rule inherited(1) [OF assms(1)]) (use assms(2) in blast)
  then show "admits_deliver url_parse env child verb url = Ok () \<longleftrightarrow> admits_deliver url_parse env par verb url = Ok ()
      \<and> (deliver_scope env par = None \<longrightarrow> \<not> (\<exists>q. within child q \<and> length par < length q \<and> governs env q))"
    unfolding admits_deliver_def deliver_scope_def bound by (auto simp: res_simps split: option.splits if_splits)
  have "find_map (bm_get (sign_prefixes env)) (credential_ancestors child) =
      find_map (bm_get (sign_prefixes env)) (credential_ancestors par)"
    by (rule inherited(1) [OF assms(1)]) (use assms(2) in blast)
  then show "admits_sign env child payload = Ok () \<longleftrightarrow> admits_sign env par payload = Ok ()
      \<and> (find_map (bm_get (sign_prefixes env)) (credential_ancestors par) = None
         \<longrightarrow> \<not> (\<exists>q. within child q \<and> length par < length q \<and> governs env q))"
    unfolding admits_sign_def bound by (auto split: option.splits if_splits)
qed

theorem unlisted_mint_reaches_no_further_witness:
  "admits_request sample_url (mint_envelope [(''acme/key'', [''https://api.acme.com/v1''])]) ''acme/key/mint-1'' ''GET'' ''/v1'' = Ok ()
   \<and> admits_request sample_url (mint_envelope [(''acme/key'', [''https://api.acme.com/v1''])]) ''acme/key/mint-1'' ''GET'' ''/v2'' \<noteq> Ok ()"
proof -
  let ?env = "mint_envelope [(''acme/key'', [''https://api.acme.com/v1''])]"
  have "within ''acme/key/mint-1'' ''acme/key''" by (simp add: within_def)
  moreover have "\<forall>q. within ''acme/key/mint-1'' q \<and> length ''acme/key'' < length q \<longrightarrow>
      named_or_bound ?env (request_scopes ?env) q = None \<and> named_or_bound ?env (deliver_scopes ?env) q = None
      \<and> bm_get (sign_prefixes ?env) q = None"
    by (auto simp: named_or_bound_def mint_envelope_def blank_envelope_def resolve_def)
  ultimately have same: "admits_request sample_url ?env ''acme/key/mint-1'' ''GET'' url = Ok () \<longleftrightarrow>
      admits_request sample_url ?env ''acme/key'' ''GET'' url = Ok () \<and> (request_scope ?env ''acme/key'' = None
        \<longrightarrow> \<not> (\<exists>q. within ''acme/key/mint-1'' q \<and> length ''acme/key'' < length q \<and> governs ?env q))" for url
    by (rule unlisted_mint_reaches_no_further [THEN conjunct1])
  have "request_scope ?env ''acme/key'' \<noteq> None" by code_simp
  moreover have "admits_request sample_url ?env ''acme/key'' ''GET'' ''/v1'' = Ok ()"
    "admits_request sample_url ?env ''acme/key'' ''GET'' ''/v2'' \<noteq> Ok ()" by code_simp+
  ultimately show ?thesis unfolding same by blast
qed

text \<open>A child that has a list of its own is judged by it alone, and that list may admit what the parent's refuses.\<close>

lemma named_mint_reaches_further:
  "\<exists>env url. within ''acme/key/mint-1'' ''acme/key''
     \<and> admits_request sample_url env ''acme/key'' ''GET'' url \<noteq> Ok ()
     \<and> admits_request sample_url env ''acme/key/mint-1'' ''GET'' url = Ok ()"
proof -
  let ?env = "mint_envelope [(''acme/key'', [''https://api.acme.com/v1'']), (''acme/key/mint-1'', [''https://api.acme.com/*''])]"
  have "admits_request sample_url ?env ''acme/key'' ''GET'' ''/v2'' \<noteq> Ok ()" by code_simp
  moreover have "admits_request sample_url ?env ''acme/key/mint-1'' ''GET'' ''/v2'' = Ok ()" by code_simp
  ultimately show ?thesis by (auto simp: within_def)
qed

section \<open>Unwrap grants and role names\<close>

lemma check_unwrap_list_Ok:
  "check_unwrap_list env gs = Ok () \<longleftrightarrow>
     (\<forall>g. g \<in> set gs \<longrightarrow> governs env (credential g) \<and> starts_with (resolve env (credential g)) ''credential:'')"
  by (induction gs) (auto simp: Let_def governs_def)

text \<open>
  Unwrap narrows by type and by nothing else: what a role may open some grant names with that
  very type, roles above it may open too, and over an owned list every grant binds a credential
  of the envelope.
\<close>

lemma unwrap_role_closed: "may_unwrap env c ty r \<Longrightarrow> can_act env r' r \<Longrightarrow> may_unwrap env c ty r'"
  unfolding may_unwrap_def list_ex_iff can_act_def by (meson edge_acts.acts_trans)

lemma unwrap_needs_grant_of_type: "may_unwrap env c ty r \<Longrightarrow> grants_any_unwrap env c ty \<and> ty \<in> set (unwrap_types_for env c)"
  by (auto simp: may_unwrap_def grants_any_unwrap_def unwrap_types_for_def list_ex_iff)

lemma grants_any_unwrap_iff: "grants_any_unwrap env c ty \<longleftrightarrow> (\<exists>r. may_unwrap env c ty r)"
  unfolding may_unwrap_def grants_any_unwrap_def list_ex_iff can_act_def by (meson edge_acts.acts_refl)

lemma unwrap_over_owned_credential:
  "check_unwrap_grants_are_owned env = Ok () \<Longrightarrow> may_unwrap env c ty r \<Longrightarrow>
     governs env c \<and> starts_with (resolve env c) ''credential:''"
  by (auto simp: check_unwrap_grants_are_owned_def check_unwrap_list_Ok may_unwrap_def list_ex_iff governs_def)

text \<open>Labels never contain the public bottom, and qualifying does not introduce it.\<close>

lemma collect_role_set_no_public: "PUBLIC \<notin> collect_role_set tokens"
  by (simp add: collect_role_set_def)

lemma qualify_role_public: "qualify_role role auth = PUBLIC \<longleftrightarrow> role = PUBLIC"
proof -
  have "a @ ''::'' @ r \<noteq> ''public''" for a r
  proof
    assume "a @ ''::'' @ r = ''public''"
    then have "CHR '':'' \<in> set ''public''" by (metis in_set_conv_decomp append_Cons)
    then show False by simp
  qed
  then show ?thesis by (auto simp: qualify_role_def PUBLIC_def split: option.splits)
qed

lemma qualify_role_set_no_public: "PUBLIC \<notin> S \<Longrightarrow> PUBLIC \<notin> qualify_role_set S auth"
  by (auto simp: qualify_role_set_def dest: sym simp: qualify_role_public)

text \<open>Bare roles of two authorities are never the same principal.\<close>

lemma qualified_roles_distinct:
  assumes "CHR '':'' \<notin> set r" "CHR '':'' \<notin> set r'" "r \<noteq> PUBLIC" "r' \<noteq> PUBLIC"
  shows "qualify_role r (Some a) = qualify_role r' (Some b) \<longleftrightarrow> a = b \<and> r = r'"
proof -
  have bare: "split_once2 (CHR '':'') (CHR '':'') s = None" if "CHR '':'' \<notin> set s" for s
    using that by (induction s rule: induct_list012) auto
  have "qualify_role r (Some a) = qualify_role r' (Some b) \<longleftrightarrow> (a @ '':'') @ CHR '':'' # r = (b @ '':'') @ CHR '':'' # r'"
    using assms bare by (simp add: qualify_role_def)
  also have "\<dots> \<longleftrightarrow> a = b \<and> r = r'" unfolding split_at_last [OF assms(1,2)] by simp
  finally show ?thesis .
qed

end
