(* ===== verification/Ifc_Composition.thy ===== *)
theory Ifc_Composition
  imports Ifc_Flow
begin

text \<open>
  A run governed by several signed envelopes (\<^verbatim>\<open>Composition\<close> in \<^verbatim>\<open>kernel/src/ifc.rs\<close>): how a checked
  set is composed, which labels and edges the meet has, and what it refuses.

  A verified envelope carries the attestation its signature covers; checking the signature is
  not modelled. The digest of a signed entry, SHA-256 over its JSON text, is a parameter.
\<close>

section \<open>Composing\<close>

record attestation =
  at_envelope_hash :: string
  at_signer :: string
  at_key_id :: "string option"
  at_epoch :: "nat option"
  at_authority :: "string option"

record verified_envelope =
  ve_envelope :: envelope
  ve_attestation :: "attestation option"

record composition_entry =
  ce_authority :: string
  ce_envelope_hash :: string
  ce_epoch :: nat

record composition =
  constituents :: "envelope list"
  comp_record :: "composition_entry list"

text \<open>What an envelope's signature covers about one resource.\<close>

record signed_resource =
  sr_reader :: "string set"
  sr_writer :: "string set"
  sr_reader_sink :: "string set option"
  sr_writer_sink :: "string set option"
  sr_principal :: bool
  sr_internal :: bool
  sr_provider_binding :: "provider_binding_policy option"

definition sink_if_different :: "dual_label option \<Rightarrow> string set option" where
  "sink_if_different l =
     (case l of Some label \<Rightarrow> if source_label label \<noteq> sink_label label then Some (sink_label label) else None
      | None \<Rightarrow> None)"

definition signed_entry :: "envelope \<Rightarrow> string \<Rightarrow> signed_resource" where
  "signed_entry env name =
     \<lparr>sr_reader = reader_set env name, sr_writer = integrity_set env name,
      sr_reader_sink = sink_if_different (bm_get (readers env) name),
      sr_writer_sink = sink_if_different (bm_get (integrity env) name),
      sr_principal = (name \<in> principals env),
      sr_internal = (name \<in> internal_signals env \<or> name \<in> internal_workflows env),
      sr_provider_binding = bm_get (provider_bindings env) name\<rparr>"

definition admit_constituent ::
  "composition_entry list \<Rightarrow> verified_envelope \<Rightarrow> envelope list \<times> string set \<Rightarrow> (envelope list \<times> string set, message) result" where
  "admit_constituent entries v = (\<lambda>(accepted, authorities).
     case ve_attestation v of
       None \<Rightarrow> Err (Format ''a composed set admits only signed envelopes'' [])
     | Some att \<Rightarrow>
         (case (at_epoch att, at_authority att) of
            (Some epoch, Some who) \<Rightarrow>
              (case filter (\<lambda>e. ce_authority e = who) entries of
                 [e] \<Rightarrow>
                   if ce_epoch e \<noteq> epoch then
                     Err (Format ''{authority} is signed for epoch {epoch}, but the composition record cites epoch {}''
                       [who, show_nat epoch, show_nat (ce_epoch e)])
                   else if ce_envelope_hash e \<noteq> at_envelope_hash att then
                     Err (Format ''the composition record cites a different envelope for {authority}'' [who])
                   else if who \<in> authorities then
                     Err (Format ''{authority} appears twice in the composed set'' [who])
                   else Ok (accepted @ [ve_envelope v], insert who authorities)
               | es \<Rightarrow> Err (Format ''the composition record names {authority} {} times, not once'' [who, show_nat (length es)]))
          | _ \<Rightarrow> Err (Format ''a composed set admits only :v2 envelopes, whose signature covers the epoch and the authority'' [])))"

fun admit_constituents ::
  "composition_entry list \<Rightarrow> verified_envelope list \<Rightarrow> envelope list \<times> string set \<Rightarrow> (envelope list \<times> string set, message) result" where
  "admit_constituents entries [] s = Ok s"
| "admit_constituents entries (v # vs) s = and_then (admit_constituent entries v s) (admit_constituents entries vs)"

definition check_record_supplied :: "composition_entry list \<Rightarrow> string set \<Rightarrow> (unit, message) result" where
  "check_record_supplied entries authorities =
     (case find (\<lambda>e. ce_authority e \<notin> authorities) entries of
        Some e \<Rightarrow> Err (Format ''the composition record names {}, which supplied no envelope'' [ce_authority e])
      | None \<Rightarrow> Ok ())"

definition labels_resource :: "envelope \<Rightarrow> string \<Rightarrow> bool" where
  "labels_resource env resource \<longleftrightarrow>
     bm_get (readers env) (resolve env resource) \<noteq> None \<or> bm_get (integrity env) (resolve env resource) \<noteq> None"

text \<open>The first value a nested loop finds.\<close>

definition find_in :: "('a \<Rightarrow> 'b list) \<Rightarrow> ('a \<Rightarrow> 'b \<Rightarrow> 'c option) \<Rightarrow> 'a list \<Rightarrow> 'c option" where
  "find_in items f = find_map (\<lambda>a. find_map (f a) (items a))"

definition refuse_if :: "message option \<Rightarrow> (unit, message) result" where
  "refuse_if m = (case m of Some e \<Rightarrow> Err e | None \<Rightarrow> Ok ())"

definition check_grants_are_owned :: "composition \<Rightarrow> (unit, message) result" where
  "check_grants_are_owned c =
     refuse_if (find_in (\<lambda>env. declassify env @ endorse env)
       (\<lambda>env (resource, role).
          if \<not> labels_resource env resource then
            Some (Format ''{who} grants a downgrade over {resource}, which it does not label'' [owner_name env, resource])
          else None) (constituents c))"

definition contested :: "composition \<Rightarrow> envelope \<Rightarrow> unwrap_grant \<Rightarrow> message option" where
  "contested c env grant =
     (let address = resolve env (credential grant)
      in find_map (\<lambda>other.
           if owner_name other = owner_name env then None
           else if address \<in> governed other then
             Some (Format ''{who} grants unwrap over {address}, which {them} also binds -- ownership of a credential is not shared (DR-0074)''
               [owner_name env, address, owner_name other])
           else None) (constituents c))"

definition check_unwrap_ownership_is_unambiguous :: "composition \<Rightarrow> (unit, message) result" where
  "check_unwrap_ownership_is_unambiguous c = refuse_if (find_in unwrap_grants (contested c) (constituents c))"

definition check_required_authorities :: "composition \<Rightarrow> string set \<Rightarrow> (unit, message) result" where
  "check_required_authorities c present =
     refuse_if (find_in (\<lambda>env. sorted_list_of_set (requires_authority env))
       (\<lambda>env required.
          if required \<notin> present then
            Some (Format ''{who} requires authority {required}, which supplied no envelope'' [owner_name env, required])
          else None) (constituents c))"

definition resolve_attachment :: "(signed_resource \<Rightarrow> string) \<Rightarrow> composition \<Rightarrow> attachment \<Rightarrow> string option" where
  "resolve_attachment digest_of c att =
     (case find (\<lambda>env. authority env = Some (att_authority att)) (constituents c) of
        None \<Rightarrow> None
      | Some owner \<Rightarrow>
          (case find (\<lambda>(handle, n). n = att_exposure att) (exposes owner) of
             None \<Rightarrow> None
           | Some (handle, n) \<Rightarrow>
               let resource = resolve owner handle
               in if digest_of (signed_entry owner resource) = att_digest att then Some resource else None))"

definition check_attachments_resolve :: "(signed_resource \<Rightarrow> string) \<Rightarrow> composition \<Rightarrow> (unit, message) result" where
  "check_attachments_resolve digest_of c =
     refuse_if (find_in attachments
       (\<lambda>env att.
          if resolve_attachment digest_of c att = None then
            Some (Format ''{who} attaches to {}::{}, which does not resolve to the entry it pinned''
              [owner_name env, att_authority att, att_exposure att])
          else None) (constituents c))"

definition compose ::
  "(signed_resource \<Rightarrow> string) \<Rightarrow> verified_envelope list \<Rightarrow> composition_entry list \<Rightarrow> (composition, message) result" where
  "compose digest_of envelopes entries =
     and_then (admit_constituents entries envelopes ([], {})) (\<lambda>(accepted, authorities).
     and_then (check_record_supplied entries authorities) (\<lambda>_.
       let composed = \<lparr>constituents = accepted, comp_record = entries\<rparr>
       in and_then (check_grants_are_owned composed) (\<lambda>_.
          and_then (check_unwrap_ownership_is_unambiguous composed) (\<lambda>_.
          and_then (check_required_authorities composed authorities) (\<lambda>_.
          and_then (check_attachments_resolve digest_of composed) (\<lambda>_. Ok composed))))))"

section \<open>The meet\<close>

definition attached_readers :: "(signed_resource \<Rightarrow> string) \<Rightarrow> composition \<Rightarrow> string \<Rightarrow> string set" where
  "attached_readers digest_of c resource =
     (\<Union>env \<in> set (constituents c). \<Union>att \<in> set (attachments env).
        if resolve_attachment digest_of c att = Some resource then att_readers att else {})"

definition comp_policy_lifetime :: "composition \<Rightarrow> nat option" where
  "comp_policy_lifetime c =
     (case List.map_filter policy_lifetime (constituents c) of
        [] \<Rightarrow> None
      | n # ns \<Rightarrow> Some (fold min ns n))"

definition union_of :: "composition \<Rightarrow> (envelope \<Rightarrow> string set) \<Rightarrow> string set" where
  "union_of c f = (\<Union>env \<in> set (constituents c). f env)"

definition intersection_of :: "composition \<Rightarrow> (envelope \<Rightarrow> string set) \<Rightarrow> string set" where
  "intersection_of c f =
     (case map f (constituents c) of
        [] \<Rightarrow> {}
      | first # rest \<Rightarrow> fold (\<lambda>s acc. acc \<inter> s) rest first)"

definition comp_reader_source :: "(signed_resource \<Rightarrow> string) \<Rightarrow> composition \<Rightarrow> string \<Rightarrow> string set" where
  "comp_reader_source digest_of c resource =
     union_of c (\<lambda>env. reader_set env resource) \<union> attached_readers digest_of c resource"

definition comp_reader_sink :: "composition \<Rightarrow> string \<Rightarrow> string set" where
  "comp_reader_sink c resource = intersection_of c (\<lambda>env. reader_sink env resource)"

definition comp_integrity_source :: "composition \<Rightarrow> string \<Rightarrow> string set" where
  "comp_integrity_source c resource = intersection_of c (\<lambda>env. integrity_set env resource)"

definition comp_integrity_sink :: "composition \<Rightarrow> string \<Rightarrow> string set" where
  "comp_integrity_sink c resource = union_of c (\<lambda>env. integrity_sink env resource)"

definition comp_edges :: "composition \<Rightarrow> (string \<times> string) list" where
  "comp_edges c =
     (case constituents c of
        [] \<Rightarrow> []
      | first # rest \<Rightarrow>
          filter (\<lambda>edge. list_all (\<lambda>env. edge \<in> set (deleg env)) (constituents c)) (deleg first))"

definition comp_dominates :: "composition \<Rightarrow> string set \<Rightarrow> string set \<Rightarrow> bool" where
  "comp_dominates c provider required =
     (let edges = comp_edges c
      in \<forall>req \<in> required. \<exists>prov \<in> provider. acts_for_over edges prov req)"

definition comp_uncleared_custodian :: "(signed_resource \<Rightarrow> string) \<Rightarrow> composition \<Rightarrow> string \<Rightarrow> string \<Rightarrow> string option" where
  "comp_uncleared_custodian digest_of c source sink =
     (let required = comp_reader_source digest_of c source
      in find (\<lambda>custodian. \<not> comp_dominates c {custodian} required)
           (List.map_filter (\<lambda>env. custodian_reader_of env sink) (constituents c)))"

definition comp_leaks :: "(signed_resource \<Rightarrow> string) \<Rightarrow> composition \<Rightarrow> string \<Rightarrow> string \<Rightarrow> bool" where
  "comp_leaks digest_of c source sink \<longleftrightarrow>
     \<not> comp_dominates c (comp_reader_sink c sink) (comp_reader_source digest_of c source)
     \<or> comp_uncleared_custodian digest_of c source sink \<noteq> None"

definition comp_injects :: "composition \<Rightarrow> string \<Rightarrow> string \<Rightarrow> bool" where
  "comp_injects c src dst \<longleftrightarrow> \<not> comp_dominates c (comp_integrity_source c src) (comp_integrity_sink c dst)"

record composition_projection =
  cp_authorities :: "string list"
  cp_own_resources :: "string set"

definition projection_for :: "composition \<Rightarrow> string \<Rightarrow> composition_projection" where
  "projection_for c who =
     \<lparr>cp_authorities = map ce_authority (comp_record c),
      cp_own_resources = (\<Union>env \<in> set (filter (\<lambda>env. authority env = Some who) (constituents c)). governed env)\<rparr>"

section \<open>What the meet refuses\<close>

lemma acts_for_mono: "set E \<subseteq> set E' \<Longrightarrow> acts_for_over E p q \<Longrightarrow> acts_for_over E' p q"
  using rtrancl_mono [of "set E" "set E'"] by (auto simp: acts_for_iff)

lemma comp_edges_agreed: "env \<in> set (constituents c) \<Longrightarrow> set (comp_edges c) \<subseteq> set (deleg env)"
  by (auto simp: comp_edges_def list_all_iff split: list.splits)

lemma fold_Int: "fold (\<lambda>s acc. acc \<inter> s) ss S = S \<inter> \<Inter>(set ss)"
  by (induction ss arbitrary: S) auto

lemma intersection_of_lower: "env \<in> set (constituents c) \<Longrightarrow> intersection_of c f \<subseteq> f env"
  by (cases "constituents c") (auto simp: intersection_of_def fold_Int)

lemma union_of_upper: "env \<in> set (constituents c) \<Longrightarrow> f env \<subseteq> union_of c f"
  by (auto simp: union_of_def)

lemma comp_dominates_covers: "comp_dominates c = covers (acts_for_over (comp_edges c))"
  by (intro ext) (simp add: comp_dominates_def covers_def Let_def)

lemma comp_dominates_each:
  assumes "env \<in> set (constituents c)" "comp_dominates c P R" "P \<subseteq> P'" "R' \<subseteq> R"
  shows "dominates env P' R'"
  using assms(2-4) unfolding comp_dominates_covers dominates_covers
  by (rule covers_mono) (rule acts_for_mono [OF comp_edges_agreed [OF assms(1)]])

lemma find_None_iff_all: "find P xs = None \<longleftrightarrow> (\<forall>x. x \<in> set xs \<longrightarrow> \<not> P x)"
  by (auto simp: find_None_iff)

lemma set_map_filter: "x \<in> set (List.map_filter f xs) \<longleftrightarrow> (\<exists>a. a \<in> set xs \<and> f a = Some x)"
  by (induction xs) (auto simp: map_filter_simps split: option.splits)

lemma not_comp_leaks_iff:
  "\<not> comp_leaks d c source sink \<longleftrightarrow>
     comp_dominates c (comp_reader_sink c sink) (comp_reader_source d c source)
     \<and> (\<forall>env custodian. env \<in> set (constituents c) \<longrightarrow> custodian_reader_of env sink = Some custodian \<longrightarrow>
          comp_dominates c {custodian} (comp_reader_source d c source))"
  by (auto simp: comp_leaks_def comp_uncleared_custodian_def Let_def find_None_iff_all set_map_filter)

text \<open>
  C19. Composition is defined by refusal: a flow that any one envelope of the set calls a leak, at
  the endpoint or through a custodian, is a leak under the meet, and an influence that any one
  calls an injection is one under the meet. No composition admits what a constituent refuses.
\<close>

theorem meet_refuses_what_any_refuses:
  assumes "env \<in> set (constituents c)"
  shows "(leaks env source sink \<longrightarrow> comp_leaks digest_of c source sink)
       \<and> (injects env source sink \<longrightarrow> comp_injects c source sink)"
proof (intro conjI impI; rule ccontr)
  have source: "reader_set env source \<subseteq> comp_reader_source digest_of c source"
    using union_of_upper [OF assms, of "\<lambda>env. reader_set env source"] by (auto simp: comp_reader_source_def)
  assume leak: "leaks env source sink" and "\<not> comp_leaks digest_of c source sink"
  then have meet: "comp_dominates c (comp_reader_sink c sink) (comp_reader_source digest_of c source)"
    "custodian_reader_of env sink = Some k \<Longrightarrow> comp_dominates c {k} (comp_reader_source digest_of c source)" for k
    using assms by (auto simp: not_comp_leaks_iff)
  have "dominates env (reader_sink env sink) (reader_set env source)"
    by (rule comp_dominates_each [OF assms meet(1) _ source])
      (use intersection_of_lower [OF assms, of "\<lambda>env. reader_sink env sink"] in \<open>simp add: comp_reader_sink_def\<close>)
  moreover have "dominates env {k} (reader_set env source)" if "custodian_reader_of env sink = Some k" for k
    by (rule comp_dominates_each [OF assms meet(2) [OF that] subset_refl source])
  ultimately show False using leak not_leaks_iff by blast
next
  assume "injects env source sink" and "\<not> comp_injects c source sink"
  moreover have "comp_integrity_source c source \<subseteq> integrity_set env source"
      "integrity_sink env sink \<subseteq> comp_integrity_sink c sink"
    using intersection_of_lower [OF assms, of "\<lambda>env. integrity_set env source"]
      union_of_upper [OF assms, of "\<lambda>env. integrity_sink env sink"]
    by (simp_all add: comp_integrity_source_def comp_integrity_sink_def)
  ultimately have "dominates env (integrity_set env source) (integrity_sink env sink)"
    using comp_dominates_each [OF assms] by (simp add: comp_injects_def)
  with \<open>injects env source sink\<close> show False by (simp add: injects_def)
qed

text \<open>A composition of one envelope that attaches to nothing decides as the envelope does.\<close>

lemma single_envelope_meet:
  assumes "attachments env = []"
  shows "comp_leaks d \<lparr>constituents = [env], comp_record = r\<rparr> source sink \<longleftrightarrow> leaks env source sink"
    and "comp_injects \<lparr>constituents = [env], comp_record = r\<rparr> source sink \<longleftrightarrow> injects env source sink"
proof -
  let ?c = "\<lparr>constituents = [env], comp_record = r\<rparr>"
  have edges: "comp_edges ?c = deleg env"
    by (simp add: comp_edges_def filter_id_conv)
  have "comp_reader_source d ?c source = reader_set env source" "comp_reader_sink ?c sink = reader_sink env sink"
    using assms by (simp_all add: comp_reader_source_def comp_reader_sink_def union_of_def intersection_of_def attached_readers_def)
  then show "comp_leaks d ?c source sink \<longleftrightarrow> leaks env source sink"
    using not_comp_leaks_iff [of d ?c] not_leaks_iff [of env]
    by (simp add: comp_dominates_covers dominates_covers edges) metis
  show "comp_injects ?c source sink \<longleftrightarrow> injects env source sink"
    by (simp add: comp_injects_def injects_def comp_dominates_covers dominates_covers edges
        comp_integrity_source_def comp_integrity_sink_def union_of_def intersection_of_def)
qed

section \<open>Which sets compose\<close>

lemma find_in_None:
  "find_in items f xs = None \<longleftrightarrow> (\<forall>a b. a \<in> set xs \<longrightarrow> b \<in> set (items a) \<longrightarrow> f a b = None)"
  by (auto simp: find_in_def find_map_None)

lemma refuse_if_Ok: "refuse_if m = Ok u \<longleftrightarrow> m = None"
  by (cases m) (simp_all add: refuse_if_def)

text \<open>An envelope the record vouches for: signed, and cited once with its epoch and its hash.\<close>

definition signed_for :: "verified_envelope \<Rightarrow> string option" where
  "signed_for v = Option.bind (ve_attestation v) at_authority"

definition vouched :: "composition_entry list \<Rightarrow> verified_envelope \<Rightarrow> bool" where
  "vouched entries v \<longleftrightarrow>
     (\<exists>att who e. ve_attestation v = Some att \<and> at_authority att = Some who
        \<and> filter (\<lambda>e. ce_authority e = who) entries = [e]
        \<and> at_epoch att = Some (ce_epoch e) \<and> at_envelope_hash att = ce_envelope_hash e)"

lemma admit_constituent_Ok:
  "admit_constituent entries v (accepted, authorities) = Ok s \<longleftrightarrow>
     vouched entries v \<and> the (signed_for v) \<notin> authorities
     \<and> s = (accepted @ [ve_envelope v], insert (the (signed_for v)) authorities)"
proof (cases "ve_attestation v")
  case (Some att)
  then show ?thesis
    by (cases "at_epoch att"; cases "at_authority att")
      (auto simp: admit_constituent_def vouched_def signed_for_def split: list.splits if_splits)
qed (simp add: admit_constituent_def vouched_def)

lemma admit_constituents_Ok:
  "admit_constituents entries vs (accepted, authorities) = Ok s \<longleftrightarrow>
     list_all (vouched entries) vs \<and> distinct (map (the \<circ> signed_for) vs)
     \<and> authorities \<inter> (the \<circ> signed_for) ` set vs = {}
     \<and> s = (accepted @ map ve_envelope vs, authorities \<union> (the \<circ> signed_for) ` set vs)"
proof (induction vs arbitrary: accepted authorities)
  case (Cons v vs)
  show ?case by (auto simp: res_simps admit_constituent_Ok Cons)
qed auto

lemma check_required_Ok:
  assumes "\<And>env. env \<in> set (constituents c) \<Longrightarrow> finite (requires_authority env)"
  shows "check_required_authorities c A = Ok () \<longleftrightarrow> (\<forall>env \<in> set (constituents c). requires_authority env \<subseteq> A)"
proof -
  have "check_required_authorities c A = Ok () \<longleftrightarrow>
      (\<forall>env r. env \<in> set (constituents c) \<longrightarrow> r \<in> set (sorted_list_of_set (requires_authority env)) \<longrightarrow> r \<in> A)"
    by (auto simp: check_required_authorities_def refuse_if_Ok find_in_None split: if_splits)
  then show ?thesis using assms by auto
qed

lemma check_grants_Ok:
  "check_grants_are_owned c = Ok () \<longleftrightarrow>
     (\<forall>env \<in> set (constituents c). \<forall>(resource, role) \<in> set (declassify env @ endorse env). labels_resource env resource)"
  by (auto simp: check_grants_are_owned_def refuse_if_Ok find_in_None split: if_splits)

lemma check_unwrap_Ok:
  "check_unwrap_ownership_is_unambiguous c = Ok () \<longleftrightarrow>
     (\<forall>env \<in> set (constituents c). \<forall>g \<in> set (unwrap_grants env). \<forall>other \<in> set (constituents c).
        owner_name other \<noteq> owner_name env \<longrightarrow> resolve env (credential g) \<notin> governed other)"
  by (auto simp: check_unwrap_ownership_is_unambiguous_def refuse_if_Ok find_in_None contested_def Let_def find_map_None
      split: if_splits)

lemma check_attachments_Ok:
  "check_attachments_resolve d c = Ok () \<longleftrightarrow>
     (\<forall>env \<in> set (constituents c). \<forall>att \<in> set (attachments env). resolve_attachment d c att \<noteq> None)"
proof -
  have "check_attachments_resolve d c = Ok () \<longleftrightarrow>
      (\<forall>env att. env \<in> set (constituents c) \<longrightarrow> att \<in> set (attachments env) \<longrightarrow> resolve_attachment d c att \<noteq> None)"
    unfolding check_attachments_resolve_def refuse_if_Ok find_in_None by (simp del: not_None_eq) blast
  then show ?thesis by blast
qed

lemma check_record_Ok: "check_record_supplied entries A = Ok () \<longleftrightarrow> ce_authority ` set entries \<subseteq> A"
proof -
  have "check_record_supplied entries A = Ok () \<longleftrightarrow> find (\<lambda>e. ce_authority e \<notin> A) entries = None"
    by (simp add: check_record_supplied_def split: option.splits)
  then show ?thesis unfolding find_None_iff_all by auto
qed

lemma compose_Ok_iff:
  assumes "\<forall>v \<in> set vs. finite (requires_authority (ve_envelope v))"
  shows "compose digest_of vs entries = Ok c \<longleftrightarrow>
     c = \<lparr>constituents = map ve_envelope vs, comp_record = entries\<rparr>
     \<and> list_all (vouched entries) vs
     \<and> distinct (map (the \<circ> signed_for) vs)
     \<and> ce_authority ` set entries \<subseteq> (the \<circ> signed_for) ` set vs
     \<and> (\<forall>env \<in> set (constituents c).
          (\<forall>(resource, role) \<in> set (declassify env @ endorse env). labels_resource env resource)
          \<and> (\<forall>g \<in> set (unwrap_grants env). \<forall>other \<in> set (constituents c).
               owner_name other \<noteq> owner_name env \<longrightarrow> resolve env (credential g) \<notin> governed other)
          \<and> requires_authority env \<subseteq> (the \<circ> signed_for) ` set vs
          \<and> (\<forall>att \<in> set (attachments env). resolve_attachment digest_of c att \<noteq> None))"
proof -
  let ?c = "\<lparr>constituents = map ve_envelope vs, comp_record = entries\<rparr>" and ?A = "(the \<circ> signed_for) ` set vs"
  have required: "check_required_authorities ?c ?A = Ok () \<longleftrightarrow> (\<forall>env \<in> set (constituents ?c). requires_authority env \<subseteq> ?A)"
    by (rule check_required_Ok) (use assms in auto)
  have "compose digest_of vs entries = Ok c \<longleftrightarrow> c = ?c \<and> list_all (vouched entries) vs \<and> distinct (map (the \<circ> signed_for) vs)
      \<and> check_record_supplied entries ?A = Ok () \<and> check_grants_are_owned ?c = Ok ()
      \<and> check_unwrap_ownership_is_unambiguous ?c = Ok () \<and> check_required_authorities ?c ?A = Ok ()
      \<and> check_attachments_resolve digest_of ?c = Ok ()"
    by (auto simp: compose_def res_simps admit_constituents_Ok Let_def)
  then show ?thesis
    unfolding required check_record_Ok check_grants_Ok check_unwrap_Ok check_attachments_Ok by blast
qed

text \<open>
  C20. A set of envelopes composes exactly when all of the following hold. Each envelope is
  signed with an epoch and an authority, and the record cites that authority once, with that
  epoch and the hash of that envelope; no authority comes twice, and the record names none that
  supplied no envelope. Every downgrade grant is over a resource its envelope labels; no
  credential an unwrap grant opens is bound by an envelope of another name; every required
  authority is present; and every attachment resolves to the entry it pinned. The composition
  then holds these envelopes, in order, under this record.
\<close>

theorem composition_accepted_iff:
  assumes "\<forall>v \<in> set vs. finite (requires_authority (ve_envelope v))"
  shows "compose digest_of vs entries = Ok c \<longleftrightarrow>
     c = \<lparr>constituents = map ve_envelope vs, comp_record = entries\<rparr>
     \<and> list_all (vouched entries) vs
     \<and> distinct (map (the \<circ> signed_for) vs)
     \<and> ce_authority ` set entries \<subseteq> (the \<circ> signed_for) ` set vs
     \<and> (\<forall>env \<in> set (constituents c).
          (\<forall>(resource, role) \<in> set (declassify env @ endorse env). labels_resource env resource)
          \<and> (\<forall>g \<in> set (unwrap_grants env). \<forall>other \<in> set (constituents c).
               owner_name other \<noteq> owner_name env \<longrightarrow> resolve env (credential g) \<notin> governed other)
          \<and> requires_authority env \<subseteq> (the \<circ> signed_for) ` set vs
          \<and> (\<forall>att \<in> set (attachments env). resolve_attachment digest_of c att \<noteq> None))"
  using assms by (rule compose_Ok_iff)

section \<open>Concrete sets\<close>

definition signed_by :: "string \<Rightarrow> envelope \<Rightarrow> verified_envelope" where
  "signed_by who env =
     \<lparr>ve_envelope = env,
      ve_attestation = Some \<lparr>at_envelope_hash = who @ ''-hash'', at_signer = who, at_key_id = None,
                             at_epoch = Some 1, at_authority = Some who\<rparr>\<rparr>"

definition cited :: "string \<Rightarrow> composition_entry" where
  "cited who = \<lparr>ce_authority = who, ce_envelope_hash = who @ ''-hash'', ce_epoch = 1\<rparr>"

text \<open>The owner binds a handle to a file and exposes it; the other authority attaches a compartment.\<close>

definition acme_envelope :: envelope where
  "acme_envelope =
     blank_envelope\<lparr>authority := Some ''acme'', governed := {''file:/ledger'', ''file:/sink''},
       readers := [(''file:/ledger'', both {''acme::Op''}), (''file:/sink'', both {''acme::Op''})],
       address_of := [(''ledger'', ''file:/ledger'')], exposes := [(''ledger'', ''x1'')]\<rparr>"

definition beta_envelope :: envelope where
  "beta_envelope =
     blank_envelope\<lparr>authority := Some ''beta'', governed := {''file:/sink''}, requires_authority := {''acme''},
       readers := [(''file:/sink'', both {''acme::Op''})],
       attachments := [\<lparr>att_authority = ''acme'', att_exposure = ''x1'', att_digest = ''pin'', att_readers = {''beta::Legal''}\<rparr>]\<rparr>"

definition shared_run :: composition where
  "shared_run = \<lparr>constituents = [acme_envelope, beta_envelope], comp_record = [cited ''acme'', cited ''beta'']\<rparr>"

lemmas shared_eval = shared_run_def acme_envelope_def beta_envelope_def blank_envelope_def signed_by_def cited_def
  signed_for_def vouched_def owner_name_def labels_resource_def resolve_attachment_def resolve_def both_def

lemma shared_run_resolves:
  "resolve_attachment (\<lambda>_. ''pin'') shared_run att =
     (if att_authority att = ''acme'' \<and> att_exposure att = ''x1'' \<and> att_digest att = ''pin'' then Some ''file:/ledger'' else None)"
  by (simp add: shared_eval)

lemma shared_run_composed:
  "compose (\<lambda>_. ''pin'') [signed_by ''acme'' acme_envelope, signed_by ''beta'' beta_envelope]
     [cited ''acme'', cited ''beta''] = Ok shared_run"
  by (subst compose_Ok_iff) (simp_all add: shared_run_resolves, simp_all add: shared_eval)

theorem composition_accepted_iff_witness:
  "compose (\<lambda>_. ''pin'') [signed_by ''acme'' acme_envelope, signed_by ''beta'' beta_envelope]
     [cited ''acme'', cited ''beta''] = Ok shared_run
   \<and> (\<forall>c. compose (\<lambda>_. ''pin'') [signed_by ''beta'' beta_envelope] [cited ''beta''] \<noteq> Ok c)"
proof -
  have "compose (\<lambda>_. ''pin'') [signed_by ''acme'' acme_envelope, signed_by ''beta'' beta_envelope]
      [cited ''acme'', cited ''beta''] = Ok shared_run"
    by (subst composition_accepted_iff) (simp_all add: shared_run_resolves, simp_all add: shared_eval)
  moreover have "compose (\<lambda>_. ''pin'') [signed_by ''beta'' beta_envelope] [cited ''beta''] \<noteq> Ok c" for c
    by (subst composition_accepted_iff) (simp_all add: shared_eval)
  ultimately show ?thesis by blast
qed

lemma shared_run_labels:
  "comp_reader_source (\<lambda>_. ''pin'') shared_run ''file:/ledger'' = {''acme::Op'', ''beta::Legal''}"
  "comp_reader_source (\<lambda>_. ''pin'') shared_run ''ledger'' = {''acme::Op''}"
  "comp_reader_sink shared_run ''file:/sink'' = {''acme::Op''}"
  "comp_edges shared_run = []"
  by (auto simp: comp_reader_source_def attached_readers_def shared_run_resolves comp_reader_sink_def union_of_def
      intersection_of_def reader_set_def reader_sink_def comp_edges_def)
    (auto simp: shared_eval)

theorem meet_refuses_what_any_refuses_witness:
  "comp_leaks (\<lambda>_. ''pin'') shared_run ''file:/ledger'' ''file:/open'' \<and> leaks acme_envelope ''file:/ledger'' ''file:/open''"
proof -
  have leak: "leaks acme_envelope ''file:/ledger'' ''file:/open''"
    by (simp add: leaks_def dominates_def reader_set_def reader_sink_def shared_eval)
  moreover have "acme_envelope \<in> set (constituents shared_run)" by (simp add: shared_run_def)
  ultimately show ?thesis using meet_refuses_what_any_refuses by blast
qed

text \<open>An attachment that resolves: its owner, what it pinned, and where it applies.\<close>

lemma resolve_attachment_Some:
  assumes "resolve_attachment d c att = Some address"
  obtains owner handle where "owner \<in> set (constituents c)" and "authority owner = Some (att_authority att)"
    and "(handle, att_exposure att) \<in> set (exposes owner)" and "address = resolve owner handle"
    and "d (signed_entry owner address) = att_digest att"
  using assms by (auto simp: resolve_attachment_def Let_def find_Some_iff split: option.splits if_splits dest!: nth_mem)

lemma compose_attachments:
  assumes "compose d vs entries = Ok c" and "env \<in> set (constituents c)" and "att \<in> set (attachments env)"
  shows "\<exists>address. resolve_attachment d c att = Some address"
proof -
  have "check_attachments_resolve d c = Ok ()"
    using assms(1) by (auto simp: compose_def res_simps Let_def)
  with assms(2,3) show ?thesis unfolding check_attachments_Ok by blast
qed

lemma attached_readers_source:
  assumes "env \<in> set (constituents c)" and "att \<in> set (attachments env)" and "resolve_attachment d c att = Some address"
  shows "att_readers att \<subseteq> comp_reader_source d c address"
  using assms by (fastforce simp: comp_reader_source_def attached_readers_def)

text \<open>
  C37. An attachment stands. In an accepted composition every attachment resolves to an address that the
  named authority exposes, under exactly the signed entry that was pinned. Whatever any envelope
  says of its own labels, a flow from that address is a leak when the readers of the sink, or a
  custodian that reads the sink for one of the envelopes, are not cleared for an attached
  compartment under the delegations all envelopes agree on.
\<close>

theorem attachments_stand:
  assumes "compose digest_of vs entries = Ok c" and "env \<in> set (constituents c)" and "att \<in> set (attachments env)"
  shows "\<exists>owner handle address. owner \<in> set (constituents c) \<and> authority owner = Some (att_authority att)
    \<and> (handle, att_exposure att) \<in> set (exposes owner) \<and> address = resolve owner handle
    \<and> digest_of (signed_entry owner address) = att_digest att
    \<and> (\<forall>sink. \<not> comp_dominates c (comp_reader_sink c sink) (att_readers att) \<longrightarrow> comp_leaks digest_of c address sink)
    \<and> (\<forall>sink other custodian. other \<in> set (constituents c) \<and> custodian_reader_of other sink = Some custodian
         \<and> \<not> comp_dominates c {custodian} (att_readers att) \<longrightarrow> comp_leaks digest_of c address sink)"
proof -
  obtain address where address: "resolve_attachment digest_of c att = Some address"
    using compose_attachments [OF assms] by blast
  have covered: "comp_dominates c P (att_readers att)" if "comp_dominates c P (comp_reader_source digest_of c address)" for P
    using that attached_readers_source [OF assms(2,3) address] by (auto simp: comp_dominates_def Let_def)
  from address show ?thesis
  proof (rule resolve_attachment_Some)
    fix owner handle
    assume "owner \<in> set (constituents c)" "authority owner = Some (att_authority att)"
      "(handle, att_exposure att) \<in> set (exposes owner)" "address = resolve owner handle"
      "digest_of (signed_entry owner address) = att_digest att"
    moreover have "comp_leaks digest_of c address sink" if "\<not> comp_dominates c (comp_reader_sink c sink) (att_readers att)" for sink
      using that covered not_comp_leaks_iff by blast
    moreover have "comp_leaks digest_of c address sink" if "other \<in> set (constituents c)"
      "custodian_reader_of other sink = Some custodian" "\<not> comp_dominates c {custodian} (att_readers att)" for sink other custodian
      using that covered not_comp_leaks_iff by blast
    ultimately show ?thesis by blast
  qed
qed

theorem attachments_stand_witness:
  "compose (\<lambda>_. ''pin'') [signed_by ''acme'' acme_envelope, signed_by ''beta'' beta_envelope]
     [cited ''acme'', cited ''beta''] = Ok shared_run
   \<and> comp_leaks (\<lambda>_. ''pin'') shared_run ''file:/ledger'' ''file:/sink''"
proof -
  let ?att = "\<lparr>att_authority = ''acme'', att_exposure = ''x1'', att_digest = ''pin'', att_readers = {''beta::Legal''}\<rparr>"
  have att: "beta_envelope \<in> set (constituents shared_run)" "?att \<in> set (attachments beta_envelope)"
    by (simp_all add: shared_run_def beta_envelope_def)
  have "\<not> comp_dominates shared_run (comp_reader_sink shared_run ''file:/sink'') (att_readers ?att)"
    by (simp add: comp_dominates_def shared_run_labels acts_for_over_def targets_def PUBLIC_def)
  then obtain owner handle where "owner \<in> set (constituents shared_run)" "authority owner = Some ''acme''"
    "(handle, ''x1'') \<in> set (exposes owner)" "comp_leaks (\<lambda>_. ''pin'') shared_run (resolve owner handle) ''file:/sink''"
    using attachments_stand [OF shared_run_composed att] by (auto simp del: comp_leaks_def)
  moreover from this have "resolve owner handle = ''file:/ledger''" by (auto simp: shared_eval)
  ultimately show ?thesis using shared_run_composed by simp
qed

text \<open>
  The attachment is compared with the name as given, so it applies to the address only: the same
  flow is let through under the handle that its owner resolves to that address.
\<close>

lemma attachment_missed_through_handle:
  "\<exists>c. compose (\<lambda>_. ''pin'') [signed_by ''acme'' acme_envelope, signed_by ''beta'' beta_envelope]
         [cited ''acme'', cited ''beta''] = Ok c
     \<and> resolve acme_envelope ''ledger'' = ''file:/ledger''
     \<and> comp_leaks (\<lambda>_. ''pin'') c ''file:/ledger'' ''file:/sink''
     \<and> \<not> comp_leaks (\<lambda>_. ''pin'') c ''ledger'' ''file:/sink''"
proof (intro exI [of _ shared_run] conjI)
  show "resolve acme_envelope ''ledger'' = ''file:/ledger''" by (simp add: shared_eval)
  show "comp_leaks (\<lambda>_. ''pin'') shared_run ''file:/ledger'' ''file:/sink''"
    by (simp add: comp_leaks_def comp_dominates_def shared_run_labels acts_for_over_def targets_def PUBLIC_def)
  show "\<not> comp_leaks (\<lambda>_. ''pin'') shared_run ''ledger'' ''file:/sink''"
    unfolding not_comp_leaks_iff
    by (simp add: comp_dominates_def shared_run_labels acts_for_over_def) (simp add: shared_eval custodian_reader_of_def)
qed (rule shared_run_composed)

definition anonymous_envelope :: envelope where
  "anonymous_envelope =
     blank_envelope\<lparr>governed := {''credential:key''},
       unwrap_grants := [\<lparr>credential = ''credential:key'', payload_type = ''Record'', grant_role = ''Clinician''\<rparr>]\<rparr>"

text \<open>
  C38. Who may open a credential is never in doubt in an accepted composition, provided each envelope
  states in its own text the authority it is signed for: a credential over which one envelope
  grants unwrap is bound by no other, so no other that owns what it grants can grant it too.
\<close>

theorem unwrap_owner_unambiguous:
  assumes "compose digest_of vs entries = Ok c"
    and "\<forall>v \<in> set vs. authority (ve_envelope v) = signed_for v"
    and "i < length vs" and "j < length vs" and "i \<noteq> j" and "g \<in> set (unwrap_grants (ve_envelope (vs ! i)))"
  shows "resolve (ve_envelope (vs ! i)) (credential g) \<notin> governed (ve_envelope (vs ! j))
    \<and> (check_unwrap_grants_are_owned (ve_envelope (vs ! j)) = Ok () \<longrightarrow>
         (\<forall>g' \<in> set (unwrap_grants (ve_envelope (vs ! j))).
            resolve (ve_envelope (vs ! j)) (credential g') \<noteq> resolve (ve_envelope (vs ! i)) (credential g)))"
proof -
  from assms(1) have c: "constituents c = map ve_envelope vs" "check_unwrap_ownership_is_unambiguous c = Ok ()"
    and vs: "list_all (vouched entries) vs" "distinct (map (the \<circ> signed_for) vs)"
    by (auto simp: compose_def res_simps admit_constituents_Ok Let_def)
  have name: "owner_name (ve_envelope v) = the (signed_for v)" if "v \<in> set vs" for v
    using that assms(2) vs(1) by (fastforce simp: owner_name_def signed_for_def vouched_def list_all_iff)
  have "the (signed_for (vs ! j)) \<noteq> the (signed_for (vs ! i))"
    using vs(2) assms(3-5) by (auto simp: distinct_conv_nth)
  then have "owner_name (ve_envelope (vs ! j)) \<noteq> owner_name (ve_envelope (vs ! i))" using assms(3,4) by (simp add: name)
  moreover have "ve_envelope (vs ! i) \<in> set (constituents c)" "ve_envelope (vs ! j) \<in> set (constituents c)"
    using assms(3,4) by (simp_all add: c(1))
  ultimately have "resolve (ve_envelope (vs ! i)) (credential g) \<notin> governed (ve_envelope (vs ! j))"
    using c(2) assms(6) unfolding check_unwrap_Ok by blast
  then show ?thesis
    by (auto simp: check_unwrap_grants_are_owned_def check_unwrap_list_Ok governs_def)
qed

definition keyed_envelope :: envelope where
  "keyed_envelope = anonymous_envelope\<lparr>authority := Some ''acme''\<rparr>"

definition filing_envelope :: envelope where
  "filing_envelope = blank_envelope\<lparr>authority := Some ''beta'', governed := {''file:/sink''}\<rparr>"

theorem unwrap_owner_unambiguous_witness:
  "\<exists>c. compose (\<lambda>_. ''pin'') [signed_by ''acme'' keyed_envelope, signed_by ''beta'' filing_envelope]
         [cited ''acme'', cited ''beta''] = Ok c
     \<and> resolve keyed_envelope ''credential:key'' \<notin> governed filing_envelope"
proof (intro exI conjI)
  let ?vs = "[signed_by ''acme'' keyed_envelope, signed_by ''beta'' filing_envelope]"
  let ?c = "\<lparr>constituents = map ve_envelope ?vs, comp_record = [cited ''acme'', cited ''beta'']\<rparr>"
  let ?g = "\<lparr>credential = ''credential:key'', payload_type = ''Record'', grant_role = ''Clinician''\<rparr>"
  note eval = keyed_envelope_def filing_envelope_def anonymous_envelope_def shared_eval
  show "compose (\<lambda>_. ''pin'') ?vs [cited ''acme'', cited ''beta''] = Ok ?c"
    by (subst compose_Ok_iff) (simp_all add: eval)
  then have "resolve (ve_envelope (?vs ! 0)) (credential ?g) \<notin> governed (ve_envelope (?vs ! 1))"
    by (rule unwrap_owner_unambiguous [THEN conjunct1]) (simp_all add: eval)
  then show "resolve keyed_envelope ''credential:key'' \<notin> governed filing_envelope" by (simp add: signed_by_def)
qed

text \<open>
  Without that proviso the check falls short: two envelopes signed for different authorities, both
  binding one credential and granting unwrap over it, are taken for one owner and composed.
\<close>

lemma undeclared_owners_share_a_credential:
  "\<exists>c. compose (\<lambda>_. ''pin'') [signed_by ''acme'' anonymous_envelope, signed_by ''beta'' anonymous_envelope]
         [cited ''acme'', cited ''beta''] = Ok c
     \<and> list_all (\<lambda>env. governs env ''credential:key'' \<and> grants_any_unwrap env ''credential:key'' ''Record'') (constituents c)
     \<and> length (constituents c) = 2"
proof (intro exI [of _ "\<lparr>constituents = [anonymous_envelope, anonymous_envelope], comp_record = [cited ''acme'', cited ''beta'']\<rparr>"] conjI)
  show "compose (\<lambda>_. ''pin'') [signed_by ''acme'' anonymous_envelope, signed_by ''beta'' anonymous_envelope]
      [cited ''acme'', cited ''beta''] =
      Ok \<lparr>constituents = [anonymous_envelope, anonymous_envelope], comp_record = [cited ''acme'', cited ''beta'']\<rparr>"
    by (subst compose_Ok_iff) (simp_all add: anonymous_envelope_def shared_eval)
qed (simp_all add: anonymous_envelope_def shared_eval governs_def grants_any_unwrap_def)

end
