(* ===== verification/Spec2Isabelle.thy ===== *)
theory Spec2Isabelle
  imports Trace_Props Dependency_Graph Reconcile Selection_Parser Freshness
    Evidence_Selection Compatibility Coordination_DO Instance_Machine Text_Merge_Props
    Ifc_Composition
begin

text \<open>
  A verification library for the decision cores of WhippleScript, a workflow language whose
  programs start effects, agents and model calls under governance. The sources are the Rust
  crates under \<^verbatim>\<open>src/crates\<close>; below, a path is relative to that directory and the prefix
  \<^verbatim>\<open>whipplescript-\<close> of a crate is left out.

  \<^bold>\<open>How the program is put together.\<close> The kernel runs an instance: a scheduler passes over the rules,
  claims effects and settles them, and records what it did in a trace. Stores keep effects and
  their dependencies, the coordination state that instances share, and a versioned workspace
  whose branches are merged path by path and then token by token. Norms are judged on reports
  and evidence selected from a causal history. A signed governance envelope, or the meet of
  several, decides which flows, credentials, providers and external tools a program may use.
  Each of these decisions is a function of plain data, and those functions are modelled here.

  \<^bold>\<open>Conventions.\<close> A text is its UTF-8 bytes; a \<^verbatim>\<open>Result\<close> is a sum with the error on the left; a
  formatted message is its template with its arguments; a panic is \<open>None\<close>. A \<^verbatim>\<open>BTreeMap\<close> that is
  iterated is an ascending association list, with the interface \<open>ordered_map\<close>; SQL tables are lists
  of rows, and each statement has a clock reading of its own. Code of other crates and of the
  host (hash functions, JSON printing, url and time parsing, Unicode tables, driver callbacks) is
  an argument of the definitions that use it, and what a theorem needs of it is a hypothesis.

  \<^bold>\<open>Lifecycle of effects.\<close>
  \<^item> \<open>Trace\<close>, \<open>Trace_Props\<close> (\<^verbatim>\<open>kernel/src/trace.rs\<close>): the checker state, one definition for each arm of
    \<^verbatim>\<open>check_record\<close>, and the loop. An accepted log has no two live runs of an effect, one terminal
    for a run, claims only on satisfied dependencies and nothing started after cancellation, and
    refines an abstract lifecycle.
  \<^item> \<open>Instance_Machine\<close> (\<^verbatim>\<open>kernel/src/sansio.rs\<close>, \<^verbatim>\<open>kernel/src/instance_machine.rs\<close>): the scheduler over a
    driver given as a record of functions. Its loops are partial functions; it keeps the protocol
    of host actions, and it returns exactly when a finite list of calls of that protocol ends.
  \<^item> \<open>Dependency_Graph\<close> (\<^verbatim>\<open>store/src/dependency_graph.rs\<close> and the insert it guards): the guard decides
    exactly whether an edge closes a cycle, so some effect is always unblocked.

  \<^bold>\<open>Shared state.\<close>
  \<^item> \<open>Sql_Tables\<close>, \<open>Payload_Protection\<close>: the SQL the stores rely on, and sealed payloads.
  \<^item> \<open>Coordination\<close>, \<open>Coordination_Contract\<close>, \<open>Coordination_Props\<close> (\<^verbatim>\<open>store/src/coordination.rs\<close>): leases,
    ledgers and counters. Over every sequence of calls slots are not oversubscribed, an effect is
    applied once, positions grow, and a counter stays within its cap. The contract theory states
    these promises as interfaces over a step function.
  \<^item> \<open>Coordination_DO\<close> (\<^verbatim>\<open>host-do/src/do_store.rs\<close>): the Durable Object implementation, which has no
    transactions, and its refinement of the native store: exact until the first failed call, and
    past failed calls up to leases that have expired.

  \<^bold>\<open>Workspace.\<close>
  \<^item> \<open>Merge\<close>, \<open>Reconcile\<close> (\<^verbatim>\<open>store/src/merge.rs\<close>, \<^verbatim>\<open>store/src/reconcile.rs\<close>): the merge of manifests, path by
    path, and the planner, which uses it only through the interface \<open>three_way_merge\<close>.
  \<^item> \<open>Text_Diff\<close>, \<open>Edit_Script\<close>, \<open>Text_Merge\<close>, \<open>Text_Regions\<close>, \<open>Text_Align\<close>, \<open>Text_Pieces\<close>, \<open>Text_Merge_Props\<close>
    (\<^verbatim>\<open>store/src/text_merge.rs\<close>): tokens, patience diff, edit scripts, conflict regions and pieces. The
    script of a side rebuilds the side; the absorption loop ends; the pieces cut all three inputs
    into corresponding hunks; one-sided and identical changes merge clean.
  \<^item> \<open>Glob\<close>, \<open>Selection\<close>, \<open>Selection_Parser\<close> (\<^verbatim>\<open>core/src/selection.rs\<close>): the glob matcher against its
    recursive meaning, the algebra of change units, and the parser with its round trip.

  \<^bold>\<open>Norms and evidence.\<close> \<open>Freshness\<close>, \<open>Evidence\<close>, \<open>Preservation\<close>, \<open>Evidence_Selection\<close> and \<open>Compatibility\<close>
  (\<^verbatim>\<open>core/src/freshness.rs\<close> and the files \<^verbatim>\<open>norm_*.rs\<close> beside it): fingerprints of a basis, adequacy of
  reports, reuse across artifacts, the causal selection of evidence, and the bounded search for
  a model of typed norms. The lemmas characterise every verdict.

  \<^bold>\<open>Governance.\<close>
  \<^item> \<open>Mcp_Tools\<close> (\<^verbatim>\<open>kernel/src/mcp.rs\<close>): admission of external tools is an intersection behind three
    gates; a pin notices every change of a tool; tool names round-trip except behind an underscore.
  \<^item> \<open>Provider_Trust\<close> (\<^verbatim>\<open>kernel/src/provider_trust.rs\<close>): a delegation is admitted exactly on evidence.
  \<^item> \<open>Egress_Scope\<close> (\<^verbatim>\<open>custody/src/egress.rs\<close>, \<^verbatim>\<open>custody/src/sign_prefix.rs\<close>): parsed allow-lists are well
    formed and confine a target component by component.
  \<^item> \<open>Ifc_Envelope\<close>, \<open>Ifc_Flow\<close> (\<^verbatim>\<open>kernel/src/ifc.rs\<close> with \<^verbatim>\<open>ifc/source_flow.rs\<close> and
    \<^verbatim>\<open>ifc/authority_policy.rs\<close>): the envelope as a record and its decisions as functions. The acts-for
    walk ends and decides reachability; the leak decision is exact and composes along paths; a
    governed credential fails closed, and a mint without a list reaches as far as its parent. The interface \<open>acting_for\<close> carries what flows need of roles.
  \<^item> \<open>Ifc_Composition\<close> (\<^verbatim>\<open>Composition\<close> in \<^verbatim>\<open>kernel/src/ifc.rs\<close>): which sets compose, and that the meet
    refuses whatever a constituent refuses; an attachment stands against its owner, and a credential
    that a declared owner opens has no second owner.

  \<^bold>\<open>Bounds and fuel.\<close> The chain loop of the selection parser carries fuel one above the length of the
  rest, which every iteration shortens, and \<open>parse_total\<close> shows it is never spent. The scheduler
  and the absorption loop of the text merge are partial functions: the loop is shown to return, and
  the scheduler, which may run forever, to return exactly when its calls come to an end. The
  text merge is total within the size limit of its configuration, where slice counts stay below
  \<open>2 ^ 32\<close>. Every other recursion has a termination proof. Integers are unbounded except where the
  code can meet the end of the 64-bit range, and there the range is written out. The two
  coordination stores part there, so their refinement is for runs of fewer calls than that range.

  \<^bold>\<open>Findings.\<close> Some lemmas record where code and documentation part: a star in a globbed value
  (\<open>Glob\<close>), deep rendered chains (\<open>Selection_Parser\<close>), tool names behind an underscore (\<open>Mcp_Tools\<close>),
  a mint with a list of its own that reaches further than its parent (\<open>Ifc_Flow\<close>), attachments
  missed through a handle and contested credentials of undeclared owners (\<open>Ifc_Composition\<close>), and
  what a failed acquire leaves behind on the Durable Object (\<open>Coordination_DO\<close>).

  \<^bold>\<open>Not modelled.\<close> The language front end and the lowering of rules, which work on the syntax tree of
  the language; reading envelopes from JSON or policy text, signing them, and the walk over a
  program that asks the flow questions; the SQL of the runtime store and the object storage of the
  workspace beyond the parts above; the custodian's cryptography; model providers, transports,
  process execution and the command line, which are input and output; Hjson and the canonical
  encodings; and the statistics in floating point. The parser of typed norms is left out because
  it classifies characters by the Unicode tables, and opening databases in a protection mode
  because it is file handling. Of a diagnostic only the message is kept, and rendering messages to
  text is left out; no modelled code reads one back.
\<close>

end
